theory Spec2Isabelle
  imports Main "HOL-Library.Word" "HOL-Library.Multiset"
begin

unbundle bit_operations_syntax

section \<open>The network driver communication module (ndev.c)\<close>

text \<open>
  A shallow embedding of \<^verbatim>\<open>minix/net/lwip/ndev.c\<close>. Every C function of the
  module is one HOL function of the same name. Global variables are the fields of
  the records \<open>pool\<close> (request objects, free list, spare counter, grant table) and
  \<open>nstate\<close> (driver table, counters, and the trace of calls that leave the module).
  A failed \<^verbatim>\<open>assert\<close>, a \<^verbatim>\<open>panic\<close> and a NULL dereference end the
  process; they are the \<open>Inl\<close> results.
\<close>

subsection \<open>Constants\<close>

type_synonym u8 = "8 word"
type_synonym u32 = "32 word"
type_synonym endpoint_t = int
type_synonym cp_grant_id_t = int
type_synonym ethif = nat

definition LABEL_MAX :: nat where
  "LABEL_MAX = 16"

definition NDEV_SENDQ :: nat where
  "NDEV_SENDQ = 2"

definition NDEV_RECVQ :: nat where
  "NDEV_RECVQ = 2"

definition NREQ_SPARES :: nat where
  "NREQ_SPARES = 8"

text \<open>Modelled from the spec: \<^verbatim>\<open>NR_NDEV\<close> is declared in ndev.h, which is not among
  the sources; the spec gives the capacity of the driver table as 8.\<close>

definition NR_NDEV :: nat where
  "NR_NDEV = 8"

text \<open>Modelled from the spec: \<^verbatim>\<open>NDEV_IOV_MAX\<close> comes from the driver protocol
  header, which is not among the sources. \<^verbatim>\<open>ndev_init\<close> preallocates
  \<^verbatim>\<open>NR_NREQ * NDEV_IOV_MAX\<close> grants, "320 grants" by its comment; with the 40 request
  objects of a driver table of 8 slots that makes 8 grants per request.\<close>

definition NDEV_IOV_MAX :: nat where
  "NDEV_IOV_MAX = 8"

text \<open>Modelled from the spec: the length of \<^verbatim>\<open>nhwa_addr\<close> (the spec's
  \<open>HW_ADDR_MAX\<close>); the spec's cold start scenario carries a six byte address.\<close>

definition NDEV_HWADDR_MAX :: nat where
  "NDEV_HWADDR_MAX = 6"

definition NR_NREQ :: nat where
  "NR_NREQ = (NDEV_SENDQ + NDEV_RECVQ) * NR_NDEV + NREQ_SPARES"

text \<open>Modelled from the spec: \<^verbatim>\<open>NONE\<close> is the reserved endpoint of the system
  headers that stands for "no process"; only its being one fixed value matters.\<close>

definition NONE :: endpoint_t where
  "NONE = 0x6ACE"

text \<open>Modelled from the spec: the invalid grant sentinel and the validity test of the
  grant library's header ("invalid-grant sentinel distinct from any valid value").\<close>

definition GRANT_INVALID :: cp_grant_id_t where
  "GRANT_INVALID = - 1"

definition GRANT_VALID :: "cp_grant_id_t \<Rightarrow> bool" where
  "GRANT_VALID g = (g > GRANT_INVALID)"

text \<open>Return codes: the codes the module returns or compares a result with, and
  \<open>EFAIL\<close> for any other error code an external call may return.\<close>

datatype status = OK | EBUSY | ENOMEM | EFAIL

text \<open>Modelled from the spec: the result of \<^verbatim>\<open>ds_check\<close> is kept as the number it
  is, since the module prints it; the number of \<^verbatim>\<open>ENOENT\<close> ("no more changes") is
  declared in the system headers, and only its being one fixed value matters.\<close>

definition ENOENT :: int where
  "ENOENT = - 2"

text \<open>Message types. \<open>M_ZERO\<close> is the value of a zero-initialised type field,
  \<open>M_OTHER\<close> any type this module does not know.\<close>

datatype mtype =
    M_ZERO
  | NDEV_INIT | NDEV_CONF | NDEV_SEND | NDEV_RECV | NDEV_STATUS_REPLY
  | NDEV_INIT_REPLY | NDEV_CONF_REPLY | NDEV_SEND_REPLY | NDEV_RECV_REPLY | NDEV_STATUS
  | M_OTHER int

datatype abort = AssertionFailed | Panicked | NullDereference

text \<open>Sequencing of calls that may end the process.\<close>

definition bnd :: "abort + 'a \<Rightarrow> ('a \<Rightarrow> abort + 'b) \<Rightarrow> abort + 'b" where
  "bnd x f = (case x of Inl e \<Rightarrow> Inl e | Inr v \<Rightarrow> f v)"

subsection \<open>Request objects, the free list and the grant table\<close>

text \<open>The array \<^verbatim>\<open>nreq_grant\<close> is a map from indices to grants, of which the
  code reads and writes the indices below \<open>NDEV_IOV_MAX\<close> only.\<close>

record ndev_req =
  nreq_type :: mtype
  nreq_grant :: "nat \<Rightarrow> cp_grant_id_t"

text \<open>
  \<open>nreq_array\<close> is the store of request objects, addressed by index; the free list
  and the driver queues hold such addresses, as the \<^verbatim>\<open>SIMPLEQ\<close> lists hold
  pointers. \<open>cpf_grants\<close> is the grant table: the grants that are allocated and not
  yet revoked.
\<close>

record pool =
  nreq_freelist :: "nat list"
  nreq_array :: "nat \<Rightarrow> ndev_req"
  nreq_spares :: u32
  cpf_grants :: "cp_grant_id_t list"

record ndev_queue =
  nq_head :: u32
  nq_count :: u8
  nq_max :: u8
  nq_req :: "nat list"

text \<open>Modelled from the spec: the grant library is not among the sources. A grant is
  allocated by the caller and revoked by the caller; revoking a grant that is not
  allocated fails. \<open>cpf_grant_direct\<close> returns what the library hands out next (the
  head of \<open>supply\<close>), or the invalid grant when it has nothing to hand out.\<close>

definition cpf_grant_direct ::
  "cp_grant_id_t list \<Rightarrow> cp_grant_id_t list \<Rightarrow> cp_grant_id_t \<times> cp_grant_id_t list"
where
  "cpf_grant_direct supply live =
     (case supply of
        [] \<Rightarrow> (GRANT_INVALID, live)
      | g # _ \<Rightarrow> if GRANT_VALID g then (g, g # live) else (g, live))"

definition cpf_revoke :: "cp_grant_id_t \<Rightarrow> cp_grant_id_t list \<Rightarrow> int \<times> cp_grant_id_t list" where
  "cpf_revoke g live = (if g \<in> set live then (0, remove1 g live) else (- 1, live))"

subsection \<open>Queue operations\<close>

definition ndev_queue_init :: "ndev_queue \<Rightarrow> ndev_queue" where
  "ndev_queue_init nq = nq\<lparr>nq_head := nq_head nq + 1, nq_count := 0, nq_max := 0, nq_req := []\<rparr>"

text \<open>The loop of \<^verbatim>\<open>ndev_queue_advance\<close> over the grants of a request: it stops at
  the first invalid grant and panics when a grant cannot be revoked.\<close>

fun revoke_grants :: "cp_grant_id_t list \<Rightarrow> cp_grant_id_t list \<Rightarrow> abort + cp_grant_id_t list" where
  "revoke_grants [] live = Inr live"
| "revoke_grants (grant # rest) live =
     (if \<not> GRANT_VALID grant then Inr live
      else (case cpf_revoke grant live of
              (r, live') \<Rightarrow> if r \<noteq> 0 then Inl Panicked else revoke_grants rest live'))"

definition ndev_queue_advance :: "ndev_queue \<Rightarrow> pool \<Rightarrow> abort + (ndev_queue \<times> pool)" where
  "ndev_queue_advance nq p =
     (case nq_req nq of
        [] \<Rightarrow> Inl NullDereference
      | nreq # rest \<Rightarrow>
          bnd (revoke_grants (map (nreq_grant (nreq_array p nreq)) [0..<NDEV_IOV_MAX])
                 (cpf_grants p))
            (\<lambda>live.
               let spare = (nreq_type (nreq_array p nreq) \<noteq> NDEV_RECV \<and>
                            unat (nq_count nq) > NDEV_SENDQ);
                   spares = (if spare then nreq_spares p + 1 else nreq_spares p)
               in if spare \<and> \<not> unat spares \<le> NREQ_SPARES then Inl AssertionFailed
                  else Inr (nq\<lparr>nq_req := rest, nq_head := nq_head nq + 1,
                                nq_count := nq_count nq - 1\<rparr>,
                            p\<lparr>cpf_grants := live, nreq_spares := spares,
                              nreq_freelist := nreq # nreq_freelist p\<rparr>)))"

lemma ndev_queue_advance_count:
  "ndev_queue_advance nq p = Inr (nq', p') \<Longrightarrow> nq_count nq' = nq_count nq - 1"
  by (auto simp: ndev_queue_advance_def bnd_def Let_def split: list.splits sum.splits if_splits)

function ndev_queue_reset :: "ndev_queue \<Rightarrow> pool \<Rightarrow> abort + (ndev_queue \<times> pool)" where
  "ndev_queue_reset nq p =
     (if nq_count nq > 0 then
        (if nq_req nq = [] then Inl AssertionFailed
         else (case ndev_queue_advance nq p of
                 Inl e \<Rightarrow> Inl e
               | Inr (nq', p') \<Rightarrow> ndev_queue_reset nq' p'))
      else Inr (nq\<lparr>nq_max := 0\<rparr>, p))"
  by pat_completeness auto
termination
proof (relation "measure (\<lambda>(nq, p). unat (nq_count nq))")
  show "wf (measure (\<lambda>(nq, p). unat (nq_count nq)))"
    by simp
next
  fix nq :: ndev_queue and p :: pool and x2 nq' p'
  assume pos: "0 < nq_count nq" and adv: "ndev_queue_advance nq p = Inr x2" and x2: "(nq', p') = x2"
  from adv x2 have "ndev_queue_advance nq p = Inr (nq', p')"
    by simp
  then have "nq_count nq' = nq_count nq - 1"
    by (rule ndev_queue_advance_count)
  moreover from pos have "unat (nq_count nq - 1) < unat (nq_count nq)"
    by (simp add: unat_minus_one word_greater_zero_iff unat_gt_0)
  ultimately show "((nq', p'), (nq, p)) \<in> measure (\<lambda>(nq, p). unat (nq_count nq))"
    by simp
qed

declare ndev_queue_reset.simps [simp del]

definition ndev_queue_get ::
  "ndev_queue \<Rightarrow> mtype \<Rightarrow> pool \<Rightarrow> abort + ((nat \<times> u32) option \<times> pool)"
where
  "ndev_queue_get nq type p =
     (if nq_count nq = nq_max nq then Inr (None, p)
      else if type \<noteq> NDEV_RECV \<and> unat (nq_count nq) \<ge> NDEV_SENDQ \<and> nreq_spares p = 0
      then Inr (None, p)
      else (case nreq_freelist p of
              [] \<Rightarrow> Inl AssertionFailed
            | nreq # _ \<Rightarrow>
                Inr (Some (nreq, nq_head nq + ucast (nq_count nq)),
                     p\<lparr>nreq_array := (nreq_array p)
                          (nreq := (nreq_array p nreq)\<lparr>nreq_type := type\<rparr>)\<rparr>)))"

definition ndev_queue_add :: "ndev_queue \<Rightarrow> nat \<Rightarrow> pool \<Rightarrow> abort + (ndev_queue \<times> pool)" where
  "ndev_queue_add nq nreq p =
     (let spare = (nreq_type (nreq_array p nreq) \<noteq> NDEV_RECV \<and>
                   unat (nq_count nq) \<ge> NDEV_SENDQ)
      in if spare \<and> \<not> nreq_spares p > 0 then Inl AssertionFailed
         else (case nreq_freelist p of
                 [] \<Rightarrow> Inl NullDereference
               | _ # rest \<Rightarrow>
                   Inr (nq\<lparr>nq_req := nq_req nq @ [nreq], nq_count := nq_count nq + 1\<rparr>,
                        p\<lparr>nreq_spares := (if spare then nreq_spares p - 1 else nreq_spares p),
                          nreq_freelist := rest\<rparr>)))"

definition ndev_queue_remove ::
  "ndev_queue \<Rightarrow> mtype \<Rightarrow> u32 \<Rightarrow> pool \<Rightarrow> abort + (bool \<times> ndev_queue \<times> pool)"
where
  "ndev_queue_remove nq type seq p =
     (if unat (nq_count nq) < 1 \<or> nq_head nq \<noteq> seq then Inr (False, nq, p)
      else (case nq_req nq of
              [] \<Rightarrow> Inl AssertionFailed
            | nreq # _ \<Rightarrow>
                if nreq_type (nreq_array p nreq) \<noteq> type then Inr (False, nq, p)
                else bnd (ndev_queue_advance nq p) (\<lambda>(nq', p'). Inr (True, nq', p'))))"


subsection \<open>Messages, the driver table and the module's state\<close>

text \<open>Modelled from the spec: the bits of a configuration request's \<open>set\<close> and
  \<open>mode\<close> fields and the data store's "driver up" value are declared in system
  headers; only their being distinct single bits matters.\<close>

definition NDEV_SET_MODE :: u32 where
  "NDEV_SET_MODE = 0x01"

definition NDEV_SET_CAPS :: u32 where
  "NDEV_SET_CAPS = 0x02"

definition NDEV_SET_FLAGS :: u32 where
  "NDEV_SET_FLAGS = 0x04"

definition NDEV_SET_MEDIA :: u32 where
  "NDEV_SET_MEDIA = 0x08"

definition NDEV_SET_HWADDR :: u32 where
  "NDEV_SET_HWADDR = 0x10"

definition NDEV_MODE_MCAST_LIST :: u32 where
  "NDEV_MODE_MCAST_LIST = 0x04"

definition DS_DRIVER_UP :: u32 where
  "DS_DRIVER_UP = 1"

record conf_msg =
  cm_id :: u32
  cm_set :: u32
  cm_mode :: u32
  cm_mcast_grant :: cp_grant_id_t
  cm_mcast_count :: nat
  cm_caps :: u32
  cm_flags :: u32
  cm_media :: u32
  cm_hwaddr :: "u8 list"

text \<open>Messages to drivers. A transfer message carries its type (send or receive), the
  request id and the grants with their lengths; its \<open>count\<close> field is the length of
  that list.\<close>

datatype out_msg =
    Msg_init u32
  | Msg_conf conf_msg
  | Msg_transfer mtype u32 "(cp_grant_id_t \<times> nat) list"
  | Msg_status_reply u32

text \<open>Everything the module does to the outside, in order: messages sent (with the
  \<^verbatim>\<open>AMF_NOREPLY\<close> flag or without), log lines, and calls into the ethif layer.\<close>

datatype effect =
    Asynsend endpoint_t bool out_msg
  | Printf string "int list"
  | Ethif_add nat string u32
  | Ethif_enable ethif "string option" "u8 list" u8 u32 u32 u32
  | Ethif_disable ethif
  | Ethif_remove ethif
  | Ethif_configured ethif int
  | Ethif_sent ethif int
  | Ethif_received ethif int
  | Ethif_status ethif u32 u32 u32 u32 u32 u32

record init_reply_msg =
  ir_id :: u32
  ir_name :: "char list"
  ir_hwaddr :: "u8 list"
  ir_hwaddr_len :: u8
  ir_caps :: u32
  ir_link :: u32
  ir_media :: u32
  ir_max_send :: u8
  ir_max_recv :: u8

record reply_msg =
  rp_id :: u32
  rp_result :: int

record status_msg =
  sm_id :: u32
  sm_link :: u32
  sm_media :: u32
  sm_oerror :: u32
  sm_coll :: u32
  sm_ierror :: u32
  sm_iqdrop :: u32

text \<open>A message from a driver. The C message is a union; each handler reads the view
  that belongs to its message type, so the model keeps the three views side by side.
  \<open>ir_name\<close> is the whole fixed name buffer, NUL bytes included.\<close>

record message =
  m_source :: endpoint_t
  m_type :: mtype
  m_netdriver_ndev_init_reply :: init_reply_msg
  m_netdriver_ndev_reply :: reply_msg
  m_netdriver_ndev_status :: status_msg

record ndev =
  ndev_endpt :: endpoint_t
  ndev_label :: string
  ndev_ethif :: "ethif option"
  ndev_sendq :: ndev_queue
  ndev_recvq :: ndev_queue

record nstate =
  pool :: pool
  ndev_array :: "nat \<Rightarrow> ndev"
  ndev_max :: nat
  ndev_pending :: int
  reported :: bool
  trace :: "effect list"

definition NDEV_ACTIVE :: "ndev \<Rightarrow> bool" where
  "NDEV_ACTIVE d = (nq_max (ndev_sendq d) > 0)"

definition emit :: "effect \<Rightarrow> nstate \<Rightarrow> nstate" where
  "emit e s = s\<lparr>trace := trace s @ [e]\<rparr>"

text \<open>A chain of packet buffers is the list of its buffers, in the order of their
  \<^verbatim>\<open>next\<close> pointers; the empty list is the NULL pointer.\<close>

record pbuf =
  payload :: nat
  len :: nat
  tot_len :: nat

record nconf =
  nconf_set :: u32
  nconf_mode :: u32
  nconf_mclist :: "nat option"
  nconf_mccount :: nat
  nconf_caps :: u32
  nconf_flags :: u32
  nconf_media :: u32
  nconf_hwaddr :: "u8 list"

subsection \<open>Initialisation\<close>

text \<open>The state \<^verbatim>\<open>ndev_init\<close> leaves behind. Static storage starts out as zero;
  the function fills the free list, sets the spare counter and spreads the request
  ids of the queues.\<close>

definition boot :: nstate where
  "boot =
     \<lparr>pool = \<lparr>nreq_freelist = [0..<NR_NREQ],
              nreq_array = (\<lambda>_. \<lparr>nreq_type = M_ZERO, nreq_grant = (\<lambda>_. 0)\<rparr>),
              nreq_spares = of_nat NREQ_SPARES,
              cpf_grants = []\<rparr>,
      ndev_array = (\<lambda>slot.
         \<lparr>ndev_endpt = 0, ndev_label = [], ndev_ethif = None,
          ndev_sendq = \<lparr>nq_head = push_bit 21 (of_nat slot), nq_count = 0,
                        nq_max = 0, nq_req = []\<rparr>,
          ndev_recvq = \<lparr>nq_head = push_bit 20 (of_nat (slot * 2 + 1)), nq_count = 0,
                        nq_max = 0, nq_req = []\<rparr>\<rparr>),
      ndev_max = 0,
      ndev_pending = 0,
      reported = False,
      trace = []\<rparr>"

text \<open>\<open>r\<close> is what \<^verbatim>\<open>ds_subscribe\<close> returns.\<close>

definition ndev_init :: "status \<Rightarrow> abort + nstate" where
  "ndev_init r = (if r \<noteq> OK then Inl Panicked else Inr boot)"

subsection \<open>Drivers coming up and going down\<close>

text \<open>\<open>r\<close> is what \<^verbatim>\<open>asynsend3\<close> returns.\<close>

definition ndev_send_init :: "nat \<Rightarrow> status \<Rightarrow> nstate \<Rightarrow> abort + nstate" where
  "ndev_send_init slot r s =
     (let ndev = ndev_array s slot
      in if r \<noteq> OK then Inl Panicked
         else Inr (emit (Asynsend (ndev_endpt ndev) True (Msg_init (nq_head (ndev_sendq ndev)))) s))"

text \<open>The loop of \<^verbatim>\<open>ndev_up\<close> over the slots below \<open>ndev_max\<close>: \<open>Inl slot\<close> when
  the slot holds a driver of this label, otherwise \<open>Inr\<close> of the first vacant slot, if
  any.\<close>

fun ndev_up_scan :: "(nat \<Rightarrow> ndev) \<Rightarrow> string \<Rightarrow> nat list \<Rightarrow> nat option \<Rightarrow> nat + nat option" where
  "ndev_up_scan arr label [] nd = Inr nd"
| "ndev_up_scan arr label (slot # rest) nd =
     (if ndev_endpt (arr slot) = NONE
      then ndev_up_scan arr label rest (if nd = None then Some slot else nd)
      else if ndev_label (arr slot) = label then Inl slot
      else ndev_up_scan arr label rest nd)"

text \<open>Both queues of a slot are reset, the send queue first.\<close>

definition reset_queues :: "nat \<Rightarrow> nstate \<Rightarrow> abort + nstate" where
  "reset_queues slot s =
     bnd (ndev_queue_reset (ndev_sendq (ndev_array s slot)) (pool s)) (\<lambda>(sq, p1).
     bnd (ndev_queue_reset (ndev_recvq (ndev_array s slot)) p1) (\<lambda>(rq, p2).
       Inr (s\<lparr>pool := p2,
              ndev_array := (ndev_array s)
                (slot := (ndev_array s slot)\<lparr>ndev_sendq := sq, ndev_recvq := rq\<rparr>)\<rparr>)))"

definition ndev_up :: "string \<Rightarrow> endpoint_t \<Rightarrow> status \<Rightarrow> nstate \<Rightarrow> abort + nstate" where
  "ndev_up label endpt r s =
     (case ndev_up_scan (ndev_array s) label [0..<ndev_max s] None of
        Inl slot \<Rightarrow>
          bnd (reset_queues slot s) (\<lambda>s1.
            let s2 = (case ndev_ethif (ndev_array s1 slot) of
                        None \<Rightarrow> s1
                      | Some e \<Rightarrow> (emit (Ethif_disable e) s1)
                                     \<lparr>ndev_pending := ndev_pending s1 + 1\<rparr>);
                s3 = s2\<lparr>ndev_array := (ndev_array s2)
                          (slot := (ndev_array s2 slot)\<lparr>ndev_endpt := endpt\<rparr>)\<rparr>
            in ndev_send_init slot r s3)
      | Inr nd \<Rightarrow>
          if nd = None \<and> ndev_max s = NR_NDEV
          then Inr (if \<not> reported s
                    then (emit (Printf ''LWIP: not enough ndev slots!'' []) s)\<lparr>reported := True\<rparr>
                    else s)
          else
            let slot = (case nd of None \<Rightarrow> ndev_max s | Some n \<Rightarrow> n);
                s1 = (if nd = None then s\<lparr>ndev_max := ndev_max s + 1\<rparr> else s);
                d = ndev_array s1 slot;
                s2 = s1\<lparr>ndev_array := (ndev_array s1)
                          (slot := d\<lparr>ndev_endpt := endpt,
                                     ndev_label := take (LABEL_MAX - 1) label,
                                     ndev_ethif := None,
                                     ndev_sendq := ndev_queue_init (ndev_sendq d),
                                     ndev_recvq := ndev_queue_init (ndev_recvq d)\<rparr>)\<rparr>
            in bnd (ndev_send_init slot r s2) (\<lambda>s3.
                 Inr (s3\<lparr>ndev_pending := ndev_pending s3 + 1\<rparr>)))"

text \<open>The loop at the end of \<^verbatim>\<open>ndev_down\<close> that lowers \<open>ndev_max\<close>.\<close>

fun shrink_max :: "(nat \<Rightarrow> ndev) \<Rightarrow> nat \<Rightarrow> nat" where
  "shrink_max arr 0 = 0"
| "shrink_max arr (Suc n) = (if ndev_endpt (arr n) = NONE then shrink_max arr n else Suc n)"

definition ndev_down :: "nat \<Rightarrow> nstate \<Rightarrow> abort + nstate" where
  "ndev_down slot s =
     bnd (reset_queues slot s) (\<lambda>s1.
       let s2 = (case ndev_ethif (ndev_array s1 slot) of
                   Some e \<Rightarrow> emit (Ethif_remove e) s1
                 | None \<Rightarrow> s1\<lparr>ndev_pending := ndev_pending s1 - 1\<rparr>);
           s3 = s2\<lparr>ndev_array := (ndev_array s2)
                     (slot := (ndev_array s2 slot)\<lparr>ndev_endpt := NONE\<rparr>)\<rparr>
       in Inr (s3\<lparr>ndev_max := shrink_max (ndev_array s3) (ndev_max s3)\<rparr>))"


subsection \<open>Requests from the ethif layer\<close>

definition conf_request :: "nconf \<Rightarrow> u32 \<Rightarrow> cp_grant_id_t \<Rightarrow> conf_msg" where
  "conf_request nconf seq grant =
     \<lparr>cm_id = seq,
      cm_set = nconf_set nconf,
      cm_mode = (if nconf_set nconf AND NDEV_SET_MODE \<noteq> 0 then nconf_mode nconf else 0),
      cm_mcast_grant = grant,
      cm_mcast_count = (if nconf_set nconf AND NDEV_SET_MODE \<noteq> 0 \<and>
                           nconf_mode nconf AND NDEV_MODE_MCAST_LIST \<noteq> 0
                        then nconf_mccount nconf else 0),
      cm_caps = (if nconf_set nconf AND NDEV_SET_CAPS \<noteq> 0 then nconf_caps nconf else 0),
      cm_flags = (if nconf_set nconf AND NDEV_SET_FLAGS \<noteq> 0 then nconf_flags nconf else 0),
      cm_media = (if nconf_set nconf AND NDEV_SET_MEDIA \<noteq> 0 then nconf_media nconf else 0),
      cm_hwaddr = (if nconf_set nconf AND NDEV_SET_HWADDR \<noteq> 0
                   then take NDEV_HWADDR_MAX (nconf_hwaddr nconf)
                   else replicate NDEV_HWADDR_MAX 0)\<rparr>"

text \<open>\<open>supply\<close> is what the grant library hands out to this call, \<open>r\<close> what
  \<^verbatim>\<open>asynsend3\<close> returns to it.\<close>

definition ndev_conf ::
  "nat \<Rightarrow> nconf \<Rightarrow> cp_grant_id_t list \<Rightarrow> status \<Rightarrow> nstate \<Rightarrow> abort + (status \<times> nstate)"
where
  "ndev_conf nid nconf supply r s =
     (if \<not> nid < NR_NDEV then Inl AssertionFailed
      else if \<not> ndev_endpt (ndev_array s nid) \<noteq> NONE then Inl AssertionFailed
      else if \<not> NDEV_ACTIVE (ndev_array s nid) then Inl AssertionFailed
      else
        bnd (ndev_queue_get (ndev_sendq (ndev_array s nid)) NDEV_CONF (pool s)) (\<lambda>(got, p1).
          case got of
            None \<Rightarrow> Inr (EBUSY, s\<lparr>pool := p1\<rparr>)
          | Some (nreq, seq) \<Rightarrow>
              let mcast = (nconf_set nconf AND NDEV_SET_MODE \<noteq> 0 \<and>
                           nconf_mode nconf AND NDEV_MODE_MCAST_LIST \<noteq> 0)
              in if mcast \<and> (nconf_mclist nconf = None \<or> nconf_mccount nconf = 0)
                 then Inl AssertionFailed
                 else
                   let (grant, live) =
                         (if mcast then cpf_grant_direct supply (cpf_grants p1)
                          else (GRANT_INVALID, cpf_grants p1))
                   in if mcast \<and> \<not> GRANT_VALID grant
                      then Inr (ENOMEM, s\<lparr>pool := p1\<lparr>cpf_grants := live\<rparr>\<rparr>)
                      else if r \<noteq> OK then Inl Panicked
                      else
                        let s1 = emit (Asynsend (ndev_endpt (ndev_array s nid)) True
                                         (Msg_conf (conf_request nconf seq grant)))
                                   (s\<lparr>pool := p1\<lparr>cpf_grants := live\<rparr>\<rparr>);
                            rq = nreq_array (pool s1) nreq;
                            p2 = (pool s1)\<lparr>nreq_array := (nreq_array (pool s1))
                                   (nreq := rq\<lparr>nreq_grant :=
                                      (nreq_grant rq)(0 := grant, 1 := GRANT_INVALID)\<rparr>)\<rparr>
                        in bnd (ndev_queue_add (ndev_sendq (ndev_array s1 nid)) nreq p2)
                             (\<lambda>(q, p3).
                                Inr (OK, s1\<lparr>pool := p3,
                                           ndev_array := (ndev_array s1)
                                             (nid := (ndev_array s1 nid)\<lparr>ndev_sendq := q\<rparr>)\<rparr>))))"

text \<open>The rollback loop of \<^verbatim>\<open>ndev_transfer\<close>: \<^verbatim>\<open>while (i-- > 0) cpf_revoke(...)\<close>,
  the result of the revocation ignored.\<close>

fun revoke_back :: "nat \<Rightarrow> (nat \<Rightarrow> cp_grant_id_t) \<Rightarrow> cp_grant_id_t list \<Rightarrow> cp_grant_id_t list" where
  "revoke_back 0 grants live = live"
| "revoke_back (Suc i) grants live = revoke_back i grants (snd (cpf_revoke (grants i) live))"

text \<open>The grant loop of \<^verbatim>\<open>ndev_transfer\<close>. \<open>left\<close> and \<open>i\<close> are the loop's
  variables, \<open>iov\<close> the grant and length fields of the message filled so far. The
  result is the return code (\<open>ENOMEM\<close> on the early return), the final \<open>i\<close>, the
  message fields and the pool.\<close>

fun transfer_grants ::
  "pbuf list \<Rightarrow> nat \<Rightarrow> nat \<Rightarrow> cp_grant_id_t list \<Rightarrow> nat \<Rightarrow> (cp_grant_id_t \<times> nat) list \<Rightarrow> pool \<Rightarrow>
   abort + (status \<times> nat \<times> (cp_grant_id_t \<times> nat) list \<times> pool)"
where
  "transfer_grants pbufs left i supply nreq iov p =
     (if left > 0 then
        (if \<not> i < NDEV_IOV_MAX then Inl AssertionFailed
         else (case pbufs of
                 [] \<Rightarrow> Inl NullDereference
               | pb # next \<Rightarrow>
                   (case cpf_grant_direct supply (cpf_grants p) of
                      (grant, live) \<Rightarrow>
                        if \<not> GRANT_VALID grant
                        then Inr (ENOMEM, i, iov,
                                  p\<lparr>cpf_grants :=
                                      revoke_back i (nreq_grant (nreq_array p nreq)) live\<rparr>)
                        else if \<not> left \<ge> len pb then Inl AssertionFailed
                        else transfer_grants next (left - len pb) (Suc i) (tl supply) nreq
                               (iov @ [(grant, len pb)])
                               (p\<lparr>cpf_grants := live,
                                  nreq_array := (nreq_array p)
                                    (nreq := (nreq_array p nreq)\<lparr>nreq_grant :=
                                       (nreq_grant (nreq_array p nreq))(i := grant)\<rparr>)\<rparr>))))
      else Inr (OK, i, iov, p))"

declare transfer_grants.simps [simp del]

definition ndev_transfer ::
  "nat \<Rightarrow> pbuf list \<Rightarrow> bool \<Rightarrow> u32 \<Rightarrow> nat \<Rightarrow> cp_grant_id_t list \<Rightarrow> status \<Rightarrow> nstate \<Rightarrow>
   abort + (status \<times> nstate)"
where
  "ndev_transfer slot pbufs do_send seq nreq supply r s =
     (case pbufs of
        [] \<Rightarrow> Inl NullDereference
      | pb # _ \<Rightarrow>
          bnd (transfer_grants pbufs (tot_len pb) 0 supply nreq [] (pool s)) (\<lambda>(res, i, iov, p1).
            if res \<noteq> OK then Inr (res, s\<lparr>pool := p1\<rparr>)
            else
              let p2 = (if i < NDEV_IOV_MAX
                        then p1\<lparr>nreq_array := (nreq_array p1)
                                 (nreq := (nreq_array p1 nreq)\<lparr>nreq_grant :=
                                    (nreq_grant (nreq_array p1 nreq))(i := GRANT_INVALID)\<rparr>)\<rparr>
                        else p1)
              in if r \<noteq> OK then Inl Panicked
                 else Inr (OK, emit (Asynsend (ndev_endpt (ndev_array s slot)) True
                                       (Msg_transfer (if do_send then NDEV_SEND else NDEV_RECV)
                                          seq iov))
                                 (s\<lparr>pool := p2\<rparr>))))"

definition ndev_send ::
  "nat \<Rightarrow> pbuf list \<Rightarrow> cp_grant_id_t list \<Rightarrow> status \<Rightarrow> nstate \<Rightarrow> abort + (status \<times> nstate)"
where
  "ndev_send nid pbufs supply r s =
     (if \<not> nid < NR_NDEV then Inl AssertionFailed
      else if \<not> ndev_endpt (ndev_array s nid) \<noteq> NONE then Inl AssertionFailed
      else if \<not> NDEV_ACTIVE (ndev_array s nid) then Inl AssertionFailed
      else
        bnd (ndev_queue_get (ndev_sendq (ndev_array s nid)) NDEV_SEND (pool s)) (\<lambda>(got, p1).
          case got of
            None \<Rightarrow> Inr (EBUSY, s\<lparr>pool := p1\<rparr>)
          | Some (nreq, seq) \<Rightarrow>
              bnd (ndev_transfer nid pbufs True seq nreq supply r (s\<lparr>pool := p1\<rparr>)) (\<lambda>(res, s1).
                if res \<noteq> OK then Inr (res, s1)
                else bnd (ndev_queue_add (ndev_sendq (ndev_array s1 nid)) nreq (pool s1))
                       (\<lambda>(q, p2).
                          Inr (OK, s1\<lparr>pool := p2,
                                     ndev_array := (ndev_array s1)
                                       (nid := (ndev_array s1 nid)\<lparr>ndev_sendq := q\<rparr>)\<rparr>)))))"

definition ndev_can_recv :: "nat \<Rightarrow> nstate \<Rightarrow> abort + bool" where
  "ndev_can_recv nid s =
     (if \<not> nid < NR_NDEV then Inl AssertionFailed
      else if \<not> ndev_endpt (ndev_array s nid) \<noteq> NONE then Inl AssertionFailed
      else if \<not> NDEV_ACTIVE (ndev_array s nid) then Inl AssertionFailed
      else Inr (nq_count (ndev_recvq (ndev_array s nid)) < nq_max (ndev_recvq (ndev_array s nid))))"

definition ndev_recv ::
  "nat \<Rightarrow> pbuf list \<Rightarrow> cp_grant_id_t list \<Rightarrow> status \<Rightarrow> nstate \<Rightarrow> abort + (status \<times> nstate)"
where
  "ndev_recv nid pbufs supply r s =
     (if \<not> nid < NR_NDEV then Inl AssertionFailed
      else if \<not> ndev_endpt (ndev_array s nid) \<noteq> NONE then Inl AssertionFailed
      else if \<not> NDEV_ACTIVE (ndev_array s nid) then Inl AssertionFailed
      else
        bnd (ndev_queue_get (ndev_recvq (ndev_array s nid)) NDEV_RECV (pool s)) (\<lambda>(got, p1).
          case got of
            None \<Rightarrow> Inr (EBUSY, s\<lparr>pool := p1\<rparr>)
          | Some (nreq, seq) \<Rightarrow>
              bnd (ndev_transfer nid pbufs False seq nreq supply r (s\<lparr>pool := p1\<rparr>)) (\<lambda>(res, s1).
                if res \<noteq> OK then Inr (res, s1)
                else bnd (ndev_queue_add (ndev_recvq (ndev_array s1 nid)) nreq (pool s1))
                       (\<lambda>(q, p2).
                          Inr (OK, s1\<lparr>pool := p2,
                                     ndev_array := (ndev_array s1)
                                       (nid := (ndev_array s1 nid)\<lparr>ndev_recvq := q\<rparr>)\<rparr>)))))"

text \<open>A call of the ethif layer into this module, with what the environment answers
  to it (the grants handed out, the result of \<^verbatim>\<open>asynsend3\<close>).\<close>

datatype upcall =
    Call_conf nat nconf "cp_grant_id_t list" status
  | Call_send nat "pbuf list" "cp_grant_id_t list" status
  | Call_recv nat "pbuf list" "cp_grant_id_t list" status
  | Call_can_recv nat

fun ndev_call :: "upcall \<Rightarrow> nstate \<Rightarrow> abort + nstate" where
  "ndev_call (Call_conf nid nconf supply r) s =
     bnd (ndev_conf nid nconf supply r s) (\<lambda>(res, s'). Inr s')"
| "ndev_call (Call_send nid pbufs supply r) s =
     bnd (ndev_send nid pbufs supply r s) (\<lambda>(res, s'). Inr s')"
| "ndev_call (Call_recv nid pbufs supply r) s =
     bnd (ndev_recv nid pbufs supply r s) (\<lambda>(res, s'). Inr s')"
| "ndev_call (Call_can_recv nid) s =
     bnd (ndev_can_recv nid s) (\<lambda>b. Inr s)"

fun run_upcalls :: "upcall list \<Rightarrow> nstate \<Rightarrow> abort + nstate" where
  "run_upcalls [] s = Inr s"
| "run_upcalls (c # cs) s = bnd (ndev_call c s) (run_upcalls cs)"


subsection \<open>Replies from drivers\<close>

text \<open>What the ethif layer answers while a driver message is processed: the handle
  \<^verbatim>\<open>ethif_add\<close> returns, the result of \<^verbatim>\<open>ethif_enable\<close>, the requests the
  ethif layer issues from inside \<^verbatim>\<open>ethif_enable\<close> ("enabling the interface may
  cause the ethif layer to start sending requests immediately"), and the result of
  \<^verbatim>\<open>asynsend\<close>. The other ethif functions are taken not to call back into this
  module before they return.\<close>

record proc_env =
  pe_add :: "ethif option"
  pe_enable :: bool
  pe_upcalls :: "upcall list"
  pe_asyn :: status

definition NUL :: char where
  "NUL = CHR 0x00"

text \<open>Modelled from the spec: the ethif layer is outside the module. The call is
  recorded, the layer's own requests run, and the layer's answer is returned.\<close>

definition ethif_enable :: "upcall list \<Rightarrow> bool \<Rightarrow> effect \<Rightarrow> nstate \<Rightarrow> abort + (bool \<times> nstate)" where
  "ethif_enable calls enabled call s =
     bnd (run_upcalls calls (emit call s)) (\<lambda>s'. Inr (enabled, s'))"

text \<open>The assignments of \<^verbatim>\<open>ndev_init_reply\<close> that make the driver active.\<close>

definition set_queue_maxes :: "nat \<Rightarrow> u8 \<Rightarrow> u8 \<Rightarrow> nstate \<Rightarrow> nstate" where
  "set_queue_maxes slot max_send max_recv s =
     (let d = ndev_array s slot;
          sq = (ndev_sendq d)\<lparr>nq_max := max_send, nq_head := nq_head (ndev_sendq d) + 1\<rparr>;
          max_recv' = (if unat max_recv > NDEV_RECVQ then of_nat NDEV_RECVQ else max_recv);
          rq = (ndev_recvq d)\<lparr>nq_max := max_recv', nq_head := nq_head (ndev_recvq d) + 1\<rparr>
      in s\<lparr>ndev_array := (ndev_array s)(slot := d\<lparr>ndev_sendq := sq, ndev_recvq := rq\<rparr>)\<rparr>)"

text \<open>The end of \<^verbatim>\<open>ndev_init_reply\<close>.\<close>

definition init_reply_finish :: "nat \<Rightarrow> bool \<Rightarrow> nstate \<Rightarrow> abort + nstate" where
  "init_reply_finish slot enabled s =
     (if \<not> enabled then ndev_down slot s
      else Inr (s\<lparr>ndev_pending := ndev_pending s - 1\<rparr>))"

definition ndev_init_reply :: "nat \<Rightarrow> message \<Rightarrow> proc_env \<Rightarrow> nstate \<Rightarrow> abort + nstate" where
  "ndev_init_reply slot m env s =
     (let ndev = ndev_array s slot;
          ir = m_netdriver_ndev_init_reply m
      in if NDEV_ACTIVE ndev \<or> ir_id ir \<noteq> nq_head (ndev_sendq ndev) then Inr s
         else if NUL \<notin> set (ir_name ir) \<or> (case ir_name ir of [] \<Rightarrow> True | c # _ \<Rightarrow> c = NUL)
         then ndev_down slot
                (emit (Printf ''LWIP: driver %d provided invalid name'' [m_source m]) s)
         else if unat (ir_hwaddr_len ir) < 1 \<or> unat (ir_hwaddr_len ir) > NDEV_HWADDR_MAX
         then ndev_down slot
                (emit (Printf ''LWIP: driver %d provided invalid HW-addr length'' [m_source m]) s)
         else if unat (ir_max_send ir) < 1 \<or> unat (ir_max_recv ir) < 1
         then ndev_down slot
                (emit (Printf ''LWIP: driver %d provided invalid queue maximum'' [m_source m]) s)
         else
           let name = takeWhile (\<lambda>c. c \<noteq> NUL) (ir_name ir);
               s1 = (case ndev_ethif ndev of
                       None \<Rightarrow>
                         (emit (Ethif_add slot name (ir_caps ir)) s)
                           \<lparr>ndev_array := (ndev_array s)
                              (slot := ndev\<lparr>ndev_ethif := pe_add env\<rparr>)\<rparr>
                     | Some _ \<Rightarrow> s);
               name' = (case ndev_ethif ndev of None \<Rightarrow> None | Some _ \<Rightarrow> Some name)
           in case ndev_ethif (ndev_array s1 slot) of
                None \<Rightarrow> init_reply_finish slot False s1
              | Some e \<Rightarrow>
                  bnd (ethif_enable (pe_upcalls env) (pe_enable env)
                         (Ethif_enable e name'
                            (take NDEV_HWADDR_MAX
                               (take (unat (ir_hwaddr_len ir)) (ir_hwaddr ir) @
                                replicate NDEV_HWADDR_MAX 0))
                            (ir_hwaddr_len ir) (ir_caps ir) (ir_link ir) (ir_media ir))
                         (set_queue_maxes slot (ir_max_send ir) (ir_max_recv ir) s1))
                    (\<lambda>(enabled, s3). init_reply_finish slot enabled s3))"

text \<open>The three reply handlers differ in the queue, the request type and the ethif
  function only.\<close>

definition ndev_conf_reply :: "nat \<Rightarrow> message \<Rightarrow> nstate \<Rightarrow> abort + nstate" where
  "ndev_conf_reply slot m s =
     (let ndev = ndev_array s slot
      in if \<not> NDEV_ACTIVE ndev then Inr s
         else bnd (ndev_queue_remove (ndev_sendq ndev) NDEV_CONF
                     (rp_id (m_netdriver_ndev_reply m)) (pool s)) (\<lambda>(removed, q, p).
                let s1 = s\<lparr>pool := p,
                           ndev_array := (ndev_array s)(slot := ndev\<lparr>ndev_sendq := q\<rparr>)\<rparr>
                in if \<not> removed then Inr s1
                   else (case ndev_ethif ndev of
                           None \<Rightarrow> Inl AssertionFailed
                         | Some e \<Rightarrow>
                             Inr (emit (Ethif_configured e
                                          (rp_result (m_netdriver_ndev_reply m))) s1))))"

definition ndev_send_reply :: "nat \<Rightarrow> message \<Rightarrow> nstate \<Rightarrow> abort + nstate" where
  "ndev_send_reply slot m s =
     (let ndev = ndev_array s slot
      in if \<not> NDEV_ACTIVE ndev then Inr s
         else bnd (ndev_queue_remove (ndev_sendq ndev) NDEV_SEND
                     (rp_id (m_netdriver_ndev_reply m)) (pool s)) (\<lambda>(removed, q, p).
                let s1 = s\<lparr>pool := p,
                           ndev_array := (ndev_array s)(slot := ndev\<lparr>ndev_sendq := q\<rparr>)\<rparr>
                in if \<not> removed then Inr s1
                   else (case ndev_ethif ndev of
                           None \<Rightarrow> Inl AssertionFailed
                         | Some e \<Rightarrow>
                             Inr (emit (Ethif_sent e
                                          (rp_result (m_netdriver_ndev_reply m))) s1))))"

definition ndev_recv_reply :: "nat \<Rightarrow> message \<Rightarrow> nstate \<Rightarrow> abort + nstate" where
  "ndev_recv_reply slot m s =
     (let ndev = ndev_array s slot
      in if \<not> NDEV_ACTIVE ndev then Inr s
         else bnd (ndev_queue_remove (ndev_recvq ndev) NDEV_RECV
                     (rp_id (m_netdriver_ndev_reply m)) (pool s)) (\<lambda>(removed, q, p).
                let s1 = s\<lparr>pool := p,
                           ndev_array := (ndev_array s)(slot := ndev\<lparr>ndev_recvq := q\<rparr>)\<rparr>
                in if \<not> removed then Inr s1
                   else (case ndev_ethif ndev of
                           None \<Rightarrow> Inl AssertionFailed
                         | Some e \<Rightarrow>
                             Inr (emit (Ethif_received e
                                          (rp_result (m_netdriver_ndev_reply m))) s1))))"

definition ndev_status :: "nat \<Rightarrow> message \<Rightarrow> status \<Rightarrow> nstate \<Rightarrow> abort + nstate" where
  "ndev_status slot m r s =
     (let ndev = ndev_array s slot;
          sm = m_netdriver_ndev_status m
      in if \<not> NDEV_ACTIVE ndev then Inr s
         else (case ndev_ethif ndev of
                 None \<Rightarrow> Inl AssertionFailed
               | Some e \<Rightarrow>
                   let s1 = emit (Ethif_status e (sm_link sm) (sm_media sm) (sm_oerror sm)
                                    (sm_coll sm) (sm_ierror sm) (sm_iqdrop sm)) s
                   in if r \<noteq> OK then Inl Panicked
                      else Inr (emit (Asynsend (m_source m) False
                                        (Msg_status_reply (sm_id sm))) s1)))"

text \<open>The search of \<^verbatim>\<open>ndev_process\<close> for the sender's slot; \<open>None\<close> when the loop
  runs up to \<open>ndev_max\<close>.\<close>

fun find_slot :: "(nat \<Rightarrow> ndev) \<Rightarrow> endpoint_t \<Rightarrow> nat list \<Rightarrow> nat option" where
  "find_slot arr endpt [] = None"
| "find_slot arr endpt (slot # rest) =
     (if ndev_endpt (arr slot) = endpt then Some slot else find_slot arr endpt rest)"

text \<open>The parameter \<^verbatim>\<open>ipc_status\<close> is not used by the function and is left out.\<close>

definition ndev_process :: "message \<Rightarrow> proc_env \<Rightarrow> nstate \<Rightarrow> abort + nstate" where
  "ndev_process m env s =
     (case find_slot (ndev_array s) (m_source m) [0..<ndev_max s] of
        None \<Rightarrow> Inr s
      | Some slot \<Rightarrow>
          (case m_type m of
             NDEV_INIT_REPLY \<Rightarrow> ndev_init_reply slot m env s
           | NDEV_CONF_REPLY \<Rightarrow> ndev_conf_reply slot m s
           | NDEV_SEND_REPLY \<Rightarrow> ndev_send_reply slot m s
           | NDEV_RECV_REPLY \<Rightarrow> ndev_recv_reply slot m s
           | NDEV_STATUS \<Rightarrow> ndev_status slot m (pe_asyn env) s
           | _ \<Rightarrow> Inr s))"

subsection \<open>Driver announcements from the data store\<close>

text \<open>One change reported by \<^verbatim>\<open>ds_check\<close>: the key (up to its NUL) and the
  endpoint, with what \<^verbatim>\<open>ds_retrieve_u32\<close> answers for the key and what
  \<^verbatim>\<open>asynsend3\<close> returns if an initialisation request is sent.\<close>

record ds_entry =
  ds_key :: string
  ds_endpt :: endpoint_t
  ds_retrieve_r :: status
  ds_retrieve_val :: u32
  ds_asyn :: status

fun check_changes :: "ds_entry list \<Rightarrow> nstate \<Rightarrow> abort + nstate" where
  "check_changes [] s = Inr s"
| "check_changes (e # rest) s =
     (if take (length ''drv.net.'') (ds_key e) \<noteq> ''drv.net.'' \<or> ds_endpt e = NONE
      then check_changes rest s
      else if ds_retrieve_r e \<noteq> OK \<or> ds_retrieve_val e \<noteq> DS_DRIVER_UP
      then check_changes rest s
      else
        let label = drop (length ''drv.net.'') (ds_key e)
        in if label = [] \<or> \<not> length label < LABEL_MAX then check_changes rest s
           else bnd (ndev_up label (ds_endpt e) (ds_asyn e) s) (check_changes rest))"

lemma shrink_max_le: "shrink_max arr n \<le> n"
  by (induction n) auto

lemma reset_queues_max: "reset_queues slot s = Inr s' \<Longrightarrow> ndev_max s' = ndev_max s"
  by (auto simp: reset_queues_def bnd_def split: sum.splits prod.splits)

lemma ndev_down_max: "ndev_down slot s = Inr s' \<Longrightarrow> ndev_max s' \<le> ndev_max s"
  by (auto simp: ndev_down_def bnd_def Let_def emit_def shrink_max_le
           dest!: reset_queues_max split: sum.splits option.splits)

text \<open>The second loop of \<^verbatim>\<open>ndev_check\<close>; \<open>labels\<close> is what
  \<^verbatim>\<open>ds_retrieve_label_endpt\<close> returns for a label. \<open>ndev_max\<close> is read anew in
  every round, as \<^verbatim>\<open>ndev_down\<close> may lower it.\<close>

function check_sweep :: "(string \<Rightarrow> status) \<Rightarrow> nat \<Rightarrow> nstate \<Rightarrow> abort + nstate" where
  "check_sweep labels slot s =
     (if slot < ndev_max s then
        (if ndev_endpt (ndev_array s slot) = NONE then check_sweep labels (Suc slot) s
         else if labels (ndev_label (ndev_array s slot)) \<noteq> OK
         then (case ndev_down slot s of
                 Inl e \<Rightarrow> Inl e
               | Inr s' \<Rightarrow> check_sweep labels (Suc slot) s')
         else check_sweep labels (Suc slot) s)
      else Inr s)"
  by pat_completeness auto
termination
proof (relation "measure (\<lambda>(labels, slot, s). ndev_max s - slot)")
  fix labels :: "string \<Rightarrow> status" and slot :: nat and s s' :: nstate
  assume "slot < ndev_max s" and "ndev_down slot s = Inr s'"
  then show "((labels, Suc slot, s'), (labels, slot, s)) \<in>
               measure (\<lambda>(labels, slot, s). ndev_max s - slot)"
    using ndev_down_max [of slot s s'] by simp
qed auto

declare check_sweep.simps [simp del]

text \<open>\<open>final\<close> is the result of the call of \<^verbatim>\<open>ds_check\<close> that ends the first
  loop.\<close>

definition ndev_check :: "ds_entry list \<Rightarrow> int \<Rightarrow> (string \<Rightarrow> status) \<Rightarrow> nstate \<Rightarrow> abort + nstate" where
  "ndev_check changes final labels s =
     bnd (check_changes changes s) (\<lambda>s1.
       check_sweep labels 0
         (if final \<noteq> ENOENT then emit (Printf ''LWIP: DS check failed (%d)'' [final]) s1 else s1))"

subsection \<open>Runs of the module\<close>

text \<open>The module's entry points after initialisation, each with the answers of its
  environment.\<close>

datatype event =
    Ev_check "ds_entry list" int "string \<Rightarrow> status"
  | Ev_process message proc_env
  | Ev_call upcall

fun ndev_event :: "event \<Rightarrow> nstate \<Rightarrow> abort + nstate" where
  "ndev_event (Ev_check changes final labels) s = ndev_check changes final labels s"
| "ndev_event (Ev_process m env) s = ndev_process m env s"
| "ndev_event (Ev_call c) s = ndev_call c s"

text \<open>The message passing primitive delivers messages of processes only: the source of
  a message is never the reserved endpoint \<open>NONE\<close>.\<close>

fun event_ok :: "event \<Rightarrow> bool" where
  "event_ok (Ev_process m env) = (m_source m \<noteq> NONE)"
| "event_ok _ = True"

fun run :: "event list \<Rightarrow> nstate \<Rightarrow> abort + nstate" where
  "run [] s = Inr s"
| "run (ev # evs) s = bnd (ndev_event ev s) (run evs)"

text \<open>The states the module can be in: those reached from initialisation by events that
  do not end the process.\<close>

inductive reachable :: "nstate \<Rightarrow> bool" where
  reachable_init: "ndev_init OK = Inr s \<Longrightarrow> reachable s"
| reachable_step: "reachable s \<Longrightarrow> event_ok ev \<Longrightarrow> ndev_event ev s = Inr s' \<Longrightarrow> reachable s'"


section \<open>The notions of the specification\<close>

text \<open>The states of a driver slot. The driver table ends at \<open>ndev_max\<close>: the slots
  from there on are vacant.\<close>

definition slot_vacant :: "nstate \<Rightarrow> nat \<Rightarrow> bool" where
  "slot_vacant s slot = (slot \<ge> ndev_max s \<or> ndev_endpt (ndev_array s slot) = NONE)"

definition slot_initializing :: "nstate \<Rightarrow> nat \<Rightarrow> bool" where
  "slot_initializing s slot =
     (\<not> slot_vacant s slot \<and> nq_max (ndev_sendq (ndev_array s slot)) = 0)"

definition slot_active :: "nstate \<Rightarrow> nat \<Rightarrow> bool" where
  "slot_active s slot =
     (\<not> slot_vacant s slot \<and> nq_max (ndev_sendq (ndev_array s slot)) > 0)"

definition initializing_count :: "nstate \<Rightarrow> nat" where
  "initializing_count s = length (filter (slot_initializing s) [0..<NR_NDEV])"

text \<open>The spares a send queue holds: its depth beyond the guaranteed minimum.\<close>

definition spares_used :: "ndev \<Rightarrow> nat" where
  "spares_used d = unat (nq_count (ndev_sendq d)) - NDEV_SENDQ"

text \<open>The request type of the request at the head of a queue, if there is one.\<close>

definition head_type :: "pool \<Rightarrow> ndev_queue \<Rightarrow> mtype option" where
  "head_type p q = (case nq_req q of [] \<Rightarrow> None | nreq # _ \<Rightarrow> Some (nreq_type (nreq_array p nreq)))"

text \<open>A call returns the code \<open>res\<close>.\<close>

definition returns :: "status \<Rightarrow> abort + (status \<times> nstate) \<Rightarrow> bool" where
  "returns res x = (case x of Inl _ \<Rightarrow> False | Inr (res', _) \<Rightarrow> res' = res)"

text \<open>What holds of the module's state between any two events: each queue counts the
  requests it holds and stays within its maximum; the requests of a send queue are
  not receive requests; the receive queue is bounded by \<open>NDEV_RECVQ\<close>; an active
  driver has both queues open and an ethif object; vacant slots are not active; every
  request object is on the free list or in one queue; and the spare counter accounts
  for the send queues' depth beyond the guaranteed minimum.\<close>

definition queue_ok :: "ndev_queue \<Rightarrow> bool" where
  "queue_ok q = (unat (nq_count q) = length (nq_req q) \<and> nq_count q \<le> nq_max q)"

definition slot_reqs :: "ndev \<Rightarrow> nat multiset" where
  "slot_reqs d = mset (nq_req (ndev_sendq d)) + mset (nq_req (ndev_recvq d))"

definition slot_ok :: "pool \<Rightarrow> ndev \<Rightarrow> bool" where
  "slot_ok p d =
     (queue_ok (ndev_sendq d) \<and> queue_ok (ndev_recvq d) \<and>
      (\<forall>n \<in> set (nq_req (ndev_sendq d)). nreq_type (nreq_array p n) \<noteq> NDEV_RECV) \<and>
      unat (nq_max (ndev_recvq d)) \<le> NDEV_RECVQ \<and>
      (nq_max (ndev_sendq d) = 0 \<longrightarrow> nq_max (ndev_recvq d) = 0) \<and>
      (nq_max (ndev_sendq d) > 0 \<longrightarrow> ndev_ethif d \<noteq> None))"

definition owned :: "nstate \<Rightarrow> nat multiset" where
  "owned s = mset (nreq_freelist (pool s)) + (\<Sum>slot<NR_NDEV. slot_reqs (ndev_array s slot))"

definition ndev_inv :: "nstate \<Rightarrow> bool" where
  "ndev_inv s =
     ((\<forall>slot. slot_ok (pool s) (ndev_array s slot)) \<and>
      (\<forall>slot. slot_vacant s slot \<longrightarrow> nq_max (ndev_sendq (ndev_array s slot)) = 0) \<and>
      ndev_max s \<le> NR_NDEV \<and>
      owned s = mset [0..<NR_NREQ] \<and>
      unat (nreq_spares (pool s)) + (\<Sum>slot<NR_NDEV. spares_used (ndev_array s slot)) = NREQ_SPARES)"

text \<open>The decisions of \<^verbatim>\<open>ndev_init_reply\<close>, named: whether the reply is the one
  waited for, whether its fields pass the checks, and the state in which the function
  goes on after a valid reply (the state it was called in, with the new ethif object
  if the driver had none).\<close>

definition after_ethif_add :: "nat \<Rightarrow> message \<Rightarrow> proc_env \<Rightarrow> nstate \<Rightarrow> nstate" where
  "after_ethif_add slot m env s =
     (case ndev_ethif (ndev_array s slot) of
        None \<Rightarrow>
          (emit (Ethif_add slot (takeWhile (\<lambda>c. c \<noteq> NUL) (ir_name (m_netdriver_ndev_init_reply m)))
                   (ir_caps (m_netdriver_ndev_init_reply m))) s)
            \<lparr>ndev_array := (ndev_array s)
               (slot := (ndev_array s slot)\<lparr>ndev_ethif := pe_add env\<rparr>)\<rparr>
      | Some _ \<Rightarrow> s)"

definition init_reply_valid :: "message \<Rightarrow> bool" where
  "init_reply_valid m =
     (let ir = m_netdriver_ndev_init_reply m
      in NUL \<in> set (ir_name ir) \<and> (case ir_name ir of [] \<Rightarrow> False | c # _ \<Rightarrow> c \<noteq> NUL) \<and>
         1 \<le> unat (ir_hwaddr_len ir) \<and> unat (ir_hwaddr_len ir) \<le> NDEV_HWADDR_MAX \<and>
         1 \<le> unat (ir_max_send ir) \<and> 1 \<le> unat (ir_max_recv ir))"

definition init_reply_for_us :: "nstate \<Rightarrow> nat \<Rightarrow> message \<Rightarrow> bool" where
  "init_reply_for_us s slot m =
     (\<not> NDEV_ACTIVE (ndev_array s slot) \<and>
      ir_id (m_netdriver_ndev_init_reply m) = nq_head (ndev_sendq (ndev_array s slot)))"

text \<open>The request type that a reply type answers, the queue the request is in, and
  the call by which the ethif layer learns of the reply.\<close>

fun reply_request :: "mtype \<Rightarrow> mtype option" where
  "reply_request NDEV_CONF_REPLY = Some NDEV_CONF"
| "reply_request NDEV_SEND_REPLY = Some NDEV_SEND"
| "reply_request NDEV_RECV_REPLY = Some NDEV_RECV"
| "reply_request _ = None"

definition reply_queue :: "mtype \<Rightarrow> ndev \<Rightarrow> ndev_queue" where
  "reply_queue ty d = (if ty = NDEV_RECV_REPLY then ndev_recvq d else ndev_sendq d)"

fun reply_callback :: "mtype \<Rightarrow> ethif \<Rightarrow> int \<Rightarrow> effect" where
  "reply_callback NDEV_CONF_REPLY e result = Ethif_configured e result"
| "reply_callback NDEV_SEND_REPLY e result = Ethif_sent e result"
| "reply_callback _ e result = Ethif_received e result"

text \<open>The reply \<open>m\<close> matches the head of its queue in slot \<open>slot\<close>: the queue is not
  empty, its head sequence is the reply's id, and the request at the head is of the
  type the reply answers.\<close>

definition reply_matches :: "nstate \<Rightarrow> nat \<Rightarrow> message \<Rightarrow> bool" where
  "reply_matches s slot m =
     (let q = reply_queue (m_type m) (ndev_array s slot)
      in 0 < nq_count q \<and> nq_head q = rp_id (m_netdriver_ndev_reply m) \<and>
         reply_request (m_type m) \<noteq> None \<and>
         head_type (pool s) q = reply_request (m_type m))"

subsection \<open>Failed allocations\<close>

text \<open>A call that failed has changed nothing but the contents of free request objects:
  the grant table, the free list, the spare counter, every driver slot with its
  queues, and the trace of effects are as before.\<close>

definition rolled_back :: "nstate \<Rightarrow> nstate \<Rightarrow> bool" where
  "rolled_back s s' =
     (cpf_grants (pool s') = cpf_grants (pool s) \<and>
      nreq_freelist (pool s') = nreq_freelist (pool s) \<and>
      nreq_spares (pool s') = nreq_spares (pool s) \<and>
      ndev_array s' = ndev_array s \<and> trace s' = trace s)"

text \<open>The multicast list of a configuration request needs a grant.\<close>

definition conf_needs_grant :: "nconf \<Rightarrow> bool" where
  "conf_needs_grant nconf =
     (nconf_set nconf AND NDEV_SET_MODE \<noteq> 0 \<and> nconf_mode nconf AND NDEV_MODE_MCAST_LIST \<noteq> 0)"

text \<open>The grant library hands out the grants \<open>gs\<close>, all valid, and then fails.\<close>

definition fails_after :: "cp_grant_id_t list \<Rightarrow> cp_grant_id_t list \<Rightarrow> bool" where
  "fails_after gs grants =
     (\<exists>rest. grants = gs @ rest \<and> (\<forall>g\<in>set gs. GRANT_VALID g) \<and>
             (case rest of [] \<Rightarrow> True | g # _ \<Rightarrow> \<not> GRANT_VALID g))"

text \<open>A transfer call is given the chain \<open>segs @ remaining\<close>, and grants for the buffers
  \<open>segs\<close> do not cover the packet: a further grant is needed for the first buffer of
  \<open>remaining\<close>.\<close>

definition needs_more :: "pbuf list \<Rightarrow> pbuf list \<Rightarrow> bool" where
  "needs_more segs remaining =
     (remaining \<noteq> [] \<and> length segs < NDEV_IOV_MAX \<and>
      sum_list (map len segs) < tot_len (hd (segs @ remaining)))"

text \<open>A call for a request of type \<open>type\<close> passes its assertions and is given a request
  object.\<close>

definition admitted :: "nstate \<Rightarrow> nat \<Rightarrow> mtype \<Rightarrow> bool" where
  "admitted s nid type =
     (nid < NR_NDEV \<and> ndev_endpt (ndev_array s nid) \<noteq> NONE \<and> NDEV_ACTIVE (ndev_array s nid) \<and>
      (case ndev_queue_get (if type = NDEV_RECV then ndev_recvq (ndev_array s nid)
                            else ndev_sendq (ndev_array s nid)) type (pool s) of
         Inr (Some _, _) \<Rightarrow> True
       | _ \<Rightarrow> False))"

subsection \<open>Request ids and their history\<close>

text \<open>The ids \<open>h\<close>, \<open>h + 1\<close>, ..., \<open>h + n - 1\<close>.\<close>

definition ids_from :: "u32 \<Rightarrow> nat \<Rightarrow> u32 list" where
  "ids_from h n = map (\<lambda>i. h + of_nat i) [0..<n]"

text \<open>The request id that a message to a driver carries, if the message is a request of
  one of the queues (the \<open>id\<close> field of a configuration, send or receive request), and
  the ids of the requests among the module's effects, in the order they were sent.\<close>

fun request_id :: "effect \<Rightarrow> u32 option" where
  "request_id (Asynsend ep noreply (Msg_conf cm)) = Some (cm_id cm)"
| "request_id (Asynsend ep noreply (Msg_transfer ty seq iov)) = Some seq"
| "request_id e = None"

fun sent_ids :: "effect list \<Rightarrow> u32 list" where
  "sent_ids [] = []"
| "sent_ids (e # es) = (case request_id e of None \<Rightarrow> sent_ids es | Some i \<Rightarrow> i # sent_ids es)"

text \<open>
  The history of the request objects: \<open>ids nreq\<close> is the id carried by the request
  message that was last built from the request object \<open>nreq\<close>. The code does not store
  it; it is read off the messages the module sends. A request is built from the first
  object of the free list, and the object leaves the free list when the request has
  been sent, so the requests sent during one event were built from the first objects
  of the free list as it was before the event, in order. \<open>event_ids\<close> records the
  ids of the request messages an event has added to the trace.
\<close>

definition note_ids :: "(nat \<times> u32) list \<Rightarrow> (nat \<Rightarrow> u32) \<Rightarrow> (nat \<Rightarrow> u32)" where
  "note_ids sent ids = fold (\<lambda>(nreq, i) f. f(nreq := i)) sent ids"

definition event_ids :: "nstate \<Rightarrow> nstate \<Rightarrow> (nat \<Rightarrow> u32) \<Rightarrow> (nat \<Rightarrow> u32)" where
  "event_ids s s' ids =
     note_ids (zip (nreq_freelist (pool s)) (sent_ids (drop (length (trace s)) (trace s')))) ids"

text \<open>A run of the module together with the history of its request objects.\<close>

fun run_ids :: "event list \<Rightarrow> nstate \<Rightarrow> (nat \<Rightarrow> u32) \<Rightarrow> abort + (nstate \<times> (nat \<Rightarrow> u32))" where
  "run_ids [] s ids = Inr (s, ids)"
| "run_ids (ev # evs) s ids = bnd (ndev_event ev s) (\<lambda>s'. run_ids evs s' (event_ids s s' ids))"

text \<open>The requests of a queue carry consecutive ids from the head of the queue on.\<close>

definition queue_ids :: "(nat \<Rightarrow> u32) \<Rightarrow> ndev_queue \<Rightarrow> bool" where
  "queue_ids ids q = (map ids (nq_req q) = ids_from (nq_head q) (length (nq_req q)))"

definition ids_ok :: "nstate \<Rightarrow> (nat \<Rightarrow> u32) \<Rightarrow> bool" where
  "ids_ok s ids =
     (\<forall>slot. queue_ids ids (ndev_sendq (ndev_array s slot)) \<and>
             queue_ids ids (ndev_recvq (ndev_array s slot)))"

text \<open>Steps of the module that send no request: \<open>calm\<close> steps leave a queue as it is or
  closed (its maximum zero); \<open>quiet\<close> steps keep the ids of all queued requests
  consecutive.\<close>

definition calm :: "nstate \<Rightarrow> nstate \<Rightarrow> bool" where
  "calm s s' =
     ((\<exists>new. trace s' = trace s @ new \<and> sent_ids new = []) \<and>
      (\<forall>i. ndev_sendq (ndev_array s' i) = ndev_sendq (ndev_array s i) \<and>
            ndev_recvq (ndev_array s' i) = ndev_recvq (ndev_array s i) \<or>
            nq_max (ndev_sendq (ndev_array s' i)) = 0))"

definition quiet :: "nstate \<Rightarrow> nstate \<Rightarrow> bool" where
  "quiet s s' =
     ((\<exists>new. trace s' = trace s @ new \<and> sent_ids new = []) \<and>
      (\<forall>ids. ids_ok s ids \<longrightarrow> ids_ok s' ids))"

text \<open>Steps that send requests: the requests are built from the first objects of the free
  list, which leave the free list.\<close>

definition sends :: "nstate \<Rightarrow> nstate \<Rightarrow> bool" where
  "sends s s' =
     (\<exists>new. trace s' = trace s @ new \<and>
            length (sent_ids new) \<le> length (nreq_freelist (pool s)) \<and>
            nreq_freelist (pool s') = drop (length (sent_ids new)) (nreq_freelist (pool s)) \<and>
            (\<forall>ids. ids_ok s ids \<longrightarrow>
                   ids_ok s' (note_ids (zip (nreq_freelist (pool s)) (sent_ids new)) ids)))"

section \<open>Example runs\<close>

text \<open>The data store announces the driver \<open>e0\<close> at an endpoint.\<close>

definition demo_up :: "endpoint_t \<Rightarrow> event" where
  "demo_up ep =
     Ev_check [\<lparr>ds_key = ''drv.net.e0'', ds_endpt = ep, ds_retrieve_r = OK,
                ds_retrieve_val = DS_DRIVER_UP, ds_asyn = OK\<rparr>] ENOENT (\<lambda>_. OK)"

definition demo_message :: "endpoint_t \<Rightarrow> mtype \<Rightarrow> u32 \<Rightarrow> char list \<Rightarrow> u8 \<Rightarrow> message" where
  "demo_message ep ty ident name max_send =
     \<lparr>m_source = ep, m_type = ty,
      m_netdriver_ndev_init_reply =
        \<lparr>ir_id = ident, ir_name = name, ir_hwaddr = [1, 2, 3, 4, 5, 6], ir_hwaddr_len = 6,
         ir_caps = 0, ir_link = 1, ir_media = 0, ir_max_send = max_send, ir_max_recv = 16\<rparr>,
      m_netdriver_ndev_reply = \<lparr>rp_id = ident, rp_result = 0\<rparr>,
      m_netdriver_ndev_status =
        \<lparr>sm_id = ident, sm_link = 1, sm_media = 0, sm_oerror = 0, sm_coll = 0, sm_ierror = 0,
         sm_iqdrop = 0\<rparr>\<rparr>"

definition demo_name :: "char list" where
  "demo_name = ''eth0'' @ replicate 12 NUL"

definition demo_env :: proc_env where
  "demo_env = \<lparr>pe_add = Some 7, pe_enable = True, pe_upcalls = [], pe_asyn = OK\<rparr>"

text \<open>The reply of the driver at endpoint \<open>ep\<close> to the initialisation request \<open>ident\<close>,
  advertising a send queue of 16 requests.\<close>

definition demo_init_reply :: "endpoint_t \<Rightarrow> u32 \<Rightarrow> char list \<Rightarrow> event" where
  "demo_init_reply ep ident name =
     Ev_process (demo_message ep NDEV_INIT_REPLY ident name 16) demo_env"

definition demo_pbuf :: "pbuf list" where
  "demo_pbuf = [\<lparr>payload = 1, len = 6, tot_len = 10\<rparr>, \<lparr>payload = 2, len = 4, tot_len = 4\<rparr>]"

text \<open>The cold start of the specification: the driver comes up and answers.\<close>

definition demo_cold_start :: "event list" where
  "demo_cold_start = [demo_up 1001, demo_init_reply 1001 1 demo_name]"

definition demo_active :: nstate where
  "demo_active = projr (run demo_cold_start boot)"


text \<open>A driver that accepts one send request at a time, with one request pending.\<close>

definition demo_small :: "event list" where
  "demo_small =
     [demo_up 1001,
      Ev_process (demo_message 1001 NDEV_INIT_REPLY 1 demo_name 1) demo_env,
      Ev_call (Call_send 0 demo_pbuf [11, 12] OK)]"

definition demo_full :: nstate where
  "demo_full = projr (run demo_small boot)"

definition demo_nconf :: nconf where
  "demo_nconf =
     \<lparr>nconf_set = 0, nconf_mode = 0, nconf_mclist = None, nconf_mccount = 0,
      nconf_caps = 0, nconf_flags = 0, nconf_media = 0, nconf_hwaddr = []\<rparr>"

definition demo_burst :: "event list" where
  "demo_burst =
     demo_cold_start @
     [Ev_call (Call_send 0 demo_pbuf [11, 12] OK),
      Ev_call (Call_send 0 demo_pbuf [13, 14] OK),
      Ev_call (Call_send 0 demo_pbuf [15, 16] OK)]"

definition demo_loaded :: nstate where
  "demo_loaded = projr (run demo_burst boot)"

text \<open>The driver \<open>e0\<close> has been announced and has not answered yet.\<close>

definition demo_initializing :: nstate where
  "demo_initializing = projr (run [demo_up 1001] boot)"

text \<open>The driver \<open>e0\<close> is restarted after it has become active, and once more before it
  has answered.\<close>

definition demo_restart :: "event list" where
  "demo_restart = demo_cold_start @ [demo_up 1002]"

definition demo_restarts :: "event list" where
  "demo_restarts = demo_cold_start @ [demo_up 1002, demo_up 1003]"

text \<open>The restarted driver answers the initialisation request 2 with an empty name.\<close>

definition demo_bad_reply :: message where
  "demo_bad_reply = demo_message 1002 NDEV_INIT_REPLY 2 (NUL # replicate 15 NUL) 16"

section \<open>Admission of requests\<close>

lemma transfer_grants_status:
  "transfer_grants pbufs left i grants nreq iov p = Inr (res, i', iov', p') \<Longrightarrow>
     res = OK \<or> res = ENOMEM"
proof (induction pbufs left i grants nreq iov p rule: transfer_grants.induct)
  case (1 pbufs left i grants nreq iov p)
  show ?case
    using "1.prems" "1.IH"
    by (subst (asm) transfer_grants.simps)
       (auto split: if_splits list.splits prod.splits)
qed

lemma ndev_transfer_status:
  "ndev_transfer slot pbufs do_send seq nreq grants r s = Inr (res, s') \<Longrightarrow>
     res = OK \<or> res = ENOMEM"
  by (auto simp: ndev_transfer_def bnd_def Let_def
           split: list.splits sum.splits prod.splits if_splits
           dest: transfer_grants_status)

lemma ndev_queue_get_None:
  "(\<exists>p'. ndev_queue_get nq type p = Inr (None, p')) \<longleftrightarrow>
     (nq_count nq = nq_max nq \<or>
      (type \<noteq> NDEV_RECV \<and> unat (nq_count nq) \<ge> NDEV_SENDQ \<and> nreq_spares p = 0))"
  by (auto simp: ndev_queue_get_def split: list.splits)

lemma ndev_send_busy:
  assumes "nid < NR_NDEV" "ndev_endpt (ndev_array s nid) \<noteq> NONE" "NDEV_ACTIVE (ndev_array s nid)"
  shows "returns EBUSY (ndev_send nid pbufs grants r s) \<longleftrightarrow>
         (\<exists>p'. ndev_queue_get (ndev_sendq (ndev_array s nid)) NDEV_SEND (pool s) = Inr (None, p'))"
  using assms
  by (auto simp: ndev_send_def returns_def bnd_def
           split: sum.splits prod.splits option.splits if_splits
           dest: ndev_transfer_status)

lemma ndev_recv_busy:
  assumes "nid < NR_NDEV" "ndev_endpt (ndev_array s nid) \<noteq> NONE" "NDEV_ACTIVE (ndev_array s nid)"
  shows "returns EBUSY (ndev_recv nid pbufs grants r s) \<longleftrightarrow>
         (\<exists>p'. ndev_queue_get (ndev_recvq (ndev_array s nid)) NDEV_RECV (pool s) = Inr (None, p'))"
  using assms
  by (auto simp: ndev_recv_def returns_def bnd_def
           split: sum.splits prod.splits option.splits if_splits
           dest: ndev_transfer_status)

lemma ndev_conf_busy:
  assumes "nid < NR_NDEV" "ndev_endpt (ndev_array s nid) \<noteq> NONE" "NDEV_ACTIVE (ndev_array s nid)"
  shows "returns EBUSY (ndev_conf nid nconf grants r s) \<longleftrightarrow>
         (\<exists>p'. ndev_queue_get (ndev_sendq (ndev_array s nid)) NDEV_CONF (pool s) = Inr (None, p'))"
  using assms
  by (auto simp: ndev_conf_def returns_def bnd_def Let_def
           split: sum.splits prod.splits option.splits if_splits)

lemma slot_activeD:
  "slot_active s nid \<Longrightarrow>
     ndev_endpt (ndev_array s nid) \<noteq> NONE \<and> NDEV_ACTIVE (ndev_array s nid) \<and> nid < ndev_max s"
  by (auto simp: slot_active_def slot_vacant_def NDEV_ACTIVE_def)

text \<open>
  Claim C2. For an active driver slot, \<open>ndev_send\<close> and \<open>ndev_conf\<close> return \<open>EBUSY\<close>
  exactly when the send queue is at its maximum (\<open>count = max\<close>), or holds at least
  \<open>NDEV_SENDQ\<close> requests while no spare is free; \<open>ndev_recv\<close> returns \<open>EBUSY\<close> exactly
  when the receive queue is at its maximum, whatever the spare pool holds.
\<close>

theorem admission_busy_iff:
  assumes "nid < NR_NDEV" and "slot_active s nid"
  shows "(returns EBUSY (ndev_send nid pbufs grants r s) \<longleftrightarrow>
            nq_count (ndev_sendq (ndev_array s nid)) = nq_max (ndev_sendq (ndev_array s nid)) \<or>
            unat (nq_count (ndev_sendq (ndev_array s nid))) \<ge> NDEV_SENDQ \<and>
            nreq_spares (pool s) = 0) \<and>
         (returns EBUSY (ndev_conf nid nconf grants' r' s) \<longleftrightarrow>
            nq_count (ndev_sendq (ndev_array s nid)) = nq_max (ndev_sendq (ndev_array s nid)) \<or>
            unat (nq_count (ndev_sendq (ndev_array s nid))) \<ge> NDEV_SENDQ \<and>
            nreq_spares (pool s) = 0) \<and>
         (returns EBUSY (ndev_recv nid pbufs' grants'' r'' s) \<longleftrightarrow>
            nq_count (ndev_recvq (ndev_array s nid)) = nq_max (ndev_recvq (ndev_array s nid)))"
  using assms slot_activeD [of s nid]
  by (simp add: ndev_send_busy ndev_conf_busy ndev_recv_busy ndev_queue_get_None)

lemma demo_full_facts:
  "map_sum id (\<lambda>s. (ndev_max s, ndev_endpt (ndev_array s 0),
                    nq_head (ndev_sendq (ndev_array s 0)),
                    nq_count (ndev_sendq (ndev_array s 0)), nq_max (ndev_sendq (ndev_array s 0)),
                    nq_req (ndev_sendq (ndev_array s 0)),
                    nq_count (ndev_recvq (ndev_array s 0)), nq_max (ndev_recvq (ndev_array s 0))))
     (run demo_small boot) = Inr (1, 1001, 2, 1, 1, [0], 0, 2)"
  by code_simp

lemma demo_full_run: "run demo_small boot = Inr demo_full"
  using demo_full_facts by (cases "run demo_small boot") (simp_all add: demo_full_def)

lemma demo_full_slot:
  "ndev_max demo_full = 1" "ndev_endpt (ndev_array demo_full 0) = 1001"
  "nq_head (ndev_sendq (ndev_array demo_full 0)) = 2"
  "nq_count (ndev_sendq (ndev_array demo_full 0)) = 1"
  "nq_max (ndev_sendq (ndev_array demo_full 0)) = 1"
  "nq_req (ndev_sendq (ndev_array demo_full 0)) = [0]"
  "nq_count (ndev_recvq (ndev_array demo_full 0)) = 0"
  "nq_max (ndev_recvq (ndev_array demo_full 0)) = 2"
  using demo_full_facts by (simp_all add: demo_full_run)

lemma demo_full_active: "slot_active demo_full 0"
  by (simp add: slot_active_def slot_vacant_def demo_full_slot NONE_def)

theorem admission_busy_iff_witness:
  "0 < NR_NDEV \<and> slot_active demo_full 0 \<and>
   returns EBUSY (ndev_send 0 demo_pbuf [11, 12] OK demo_full) \<and>
   returns EBUSY (ndev_conf 0 demo_nconf [] OK demo_full) \<and>
   \<not> returns EBUSY (ndev_recv 0 demo_pbuf [11, 12] OK demo_full)"
  using admission_busy_iff [of 0 demo_full demo_pbuf "[11, 12]" OK demo_nconf "[]" OK
                               demo_pbuf "[11, 12]" OK]
    demo_full_active
  by (simp add: NR_NDEV_def demo_full_slot)

section \<open>Queue reset\<close>

lemma ucast_pred: "0 < (c :: u8) \<Longrightarrow> (ucast (c - 1) :: u32) + 1 = ucast c"
proof -
  assume "0 < c"
  then have nz: "unat c \<noteq> 0"
    by (simp add: unat_gt_0 word_greater_zero_iff)
  then have "unat (c - 1) = unat c - 1"
    by (simp add: unat_minus_one unat_eq_zero)
  then have "(of_nat (unat (c - 1)) :: u32) + 1 = of_nat (unat c)"
    using nz by (metis Suc_pred' add.commute neq0_conv of_nat_Suc)
  then show ?thesis
    by simp
qed

lemma ndev_queue_advance_head:
  "ndev_queue_advance nq p = Inr (nq', p') \<Longrightarrow> nq_head nq' = nq_head nq + 1"
  by (auto simp: ndev_queue_advance_def bnd_def Let_def split: list.splits sum.splits if_splits)

lemma ndev_queue_reset_result:
  "ndev_queue_reset q p = Inr (q', p') \<Longrightarrow>
     nq_max q' = 0 \<and> nq_count q' = 0 \<and> nq_head q' = nq_head q + ucast (nq_count q)"
proof (induction q p rule: ndev_queue_reset.induct)
  case (1 nq p)
  show ?case
  proof (cases "0 < nq_count nq")
    case True
    from "1.prems" True obtain nq1 p1 where
      adv: "ndev_queue_advance nq p = Inr (nq1, p1)" and
      rest: "ndev_queue_reset nq1 p1 = Inr (q', p')" and
      ne: "nq_req nq \<noteq> []"
      by (subst (asm) ndev_queue_reset.simps) (auto split: if_splits sum.splits)
    from "1.IH" [OF True ne adv refl rest]
    have "nq_max q' = 0 \<and> nq_count q' = 0 \<and> nq_head q' = nq_head nq1 + ucast (nq_count nq1)" .
    then show ?thesis
      using ndev_queue_advance_count [OF adv] ndev_queue_advance_head [OF adv] ucast_pred [OF True]
      by (simp add: add.assoc add.commute)
  next
    case False
    then have "nq_count nq = 0"
      by (simp add: word_greater_zero_iff)
    with "1.prems" show ?thesis
      by (subst (asm) ndev_queue_reset.simps) auto
  qed
qed

text \<open>
  Claim C4, as amended. A queue reset that completes leaves the queue with
  \<open>max = 0\<close> and \<open>count = 0\<close> and moves \<open>head\<close> forward by exactly the number of
  requests that were pending (modulo \<open>2^32\<close>): by one for each request it discards,
  and by nothing when the queue was empty.
\<close>

theorem queue_reset_head_plus_count:
  "ndev_queue_reset q p = Inr (q', p') \<Longrightarrow>
     nq_max q' = 0 \<and> nq_count q' = 0 \<and> nq_head q' = nq_head q + ucast (nq_count q) \<and>
     (nq_count q = 0 \<longrightarrow> nq_head q' = nq_head q)"
  using ndev_queue_reset_result [of q p q' p'] by auto

lemma demo_full_reset:
  "\<not> isl (ndev_queue_reset (ndev_sendq (ndev_array demo_full 0)) (pool demo_full))"
  by code_simp

theorem queue_reset_head_plus_count_witness:
  "\<exists>q' p'. ndev_queue_reset (ndev_sendq (ndev_array demo_full 0)) (pool demo_full) = Inr (q', p') \<and>
           nq_count (ndev_sendq (ndev_array demo_full 0)) = 1 \<and>
           nq_max q' = 0 \<and> nq_count q' = 0 \<and> nq_head q' = 3"
proof -
  from demo_full_reset obtain q' p' where
    r: "ndev_queue_reset (ndev_sendq (ndev_array demo_full 0)) (pool demo_full) = Inr (q', p')"
    by (cases "ndev_queue_reset (ndev_sendq (ndev_array demo_full 0)) (pool demo_full)") auto
  from queue_reset_head_plus_count [OF r] show ?thesis
    using r by (simp add: demo_full_slot)
qed

text \<open>
  Claim C4, as stated, fails: the reset of an empty queue leaves \<open>head\<close> as it is. So
  when the driver \<open>e0\<close> is announced a second time before it has answered, both its
  queues are reset and the second initialisation request carries the id of the first.
\<close>

theorem queue_reset_empty_keeps_head:
  "ndev_queue_reset \<lparr>nq_head = 5, nq_count = 0, nq_max = 3, nq_req = []\<rparr> (pool boot) =
     Inr (\<lparr>nq_head = 5, nq_count = 0, nq_max = 0, nq_req = []\<rparr>, pool boot) \<and>
   map_sum id (\<lambda>s. (nq_head (ndev_sendq (ndev_array s 0)), trace s)) (run [demo_up 1001] boot) =
     Inr (1, [Asynsend 1001 True (Msg_init 1)]) \<and>
   map_sum id (\<lambda>s. (nq_head (ndev_sendq (ndev_array s 0)), trace s))
     (run [demo_up 1001, demo_up 1002] boot) =
     Inr (1, [Asynsend 1001 True (Msg_init 1), Asynsend 1002 True (Msg_init 1)])"
proof (intro conjI)
  show "ndev_queue_reset \<lparr>nq_head = 5, nq_count = 0, nq_max = 3, nq_req = []\<rparr> (pool boot) =
          Inr (\<lparr>nq_head = 5, nq_count = 0, nq_max = 0, nq_req = []\<rparr>, pool boot)"
    by (simp add: ndev_queue_reset.simps)
  show "map_sum id (\<lambda>s. (nq_head (ndev_sendq (ndev_array s 0)), trace s)) (run [demo_up 1001] boot) =
          Inr (1, [Asynsend 1001 True (Msg_init 1)])"
    by code_simp
  show "map_sum id (\<lambda>s. (nq_head (ndev_sendq (ndev_array s 0)), trace s))
          (run [demo_up 1001, demo_up 1002] boot) =
          Inr (1, [Asynsend 1001 True (Msg_init 1), Asynsend 1002 True (Msg_init 1)])"
    by code_simp
qed

section \<open>The invariant of the module\<close>

lemma sum_fun_upd:
  fixes f :: "'a \<Rightarrow> 'b::comm_monoid_add" and slot n :: nat
  assumes "slot < n"
  shows "(\<Sum>i<n. f ((arr(slot := d)) i)) + f (arr slot) = (\<Sum>i<n. f (arr i)) + f d"
proof -
  have fin: "finite {..<n}" and mem: "slot \<in> {..<n}"
    using assms by auto
  have rest: "(\<Sum>i\<in>{..<n} - {slot}. f ((arr(slot := d)) i)) = (\<Sum>i\<in>{..<n} - {slot}. f (arr i))"
    by (rule sum.cong) auto
  have "(\<Sum>i<n. f ((arr(slot := d)) i)) = f d + (\<Sum>i\<in>{..<n} - {slot}. f ((arr(slot := d)) i))"
    using sum.remove [OF fin mem, of "\<lambda>i. f ((arr(slot := d)) i)"] by simp
  moreover have "(\<Sum>i<n. f (arr i)) = f (arr slot) + (\<Sum>i\<in>{..<n} - {slot}. f (arr i))"
    using sum.remove [OF fin mem, of "\<lambda>i. f (arr i)"] by simp
  ultimately show ?thesis
    using rest by (simp add: add.commute add.left_commute)
qed

lemma inv_slot_empty:
  assumes "ndev_inv s" and "slot_vacant s slot"
  shows "nq_req (ndev_sendq (ndev_array s slot)) = [] \<and> nq_req (ndev_recvq (ndev_array s slot)) = [] \<and>
         nq_count (ndev_sendq (ndev_array s slot)) = 0 \<and> nq_count (ndev_recvq (ndev_array s slot)) = 0 \<and>
         nq_max (ndev_sendq (ndev_array s slot)) = 0 \<and> nq_max (ndev_recvq (ndev_array s slot)) = 0"
proof -
  from assms have m: "nq_max (ndev_sendq (ndev_array s slot)) = 0"
    by (simp add: ndev_inv_def)
  from assms have ok: "slot_ok (pool s) (ndev_array s slot)"
    by (simp add: ndev_inv_def)
  with m have m': "nq_max (ndev_recvq (ndev_array s slot)) = 0"
    by (simp add: slot_ok_def)
  from ok m m' show ?thesis
    by (auto simp: slot_ok_def queue_ok_def)
qed

lemma inv_queued_not_free:
  assumes "ndev_inv s" and "n \<in># slot_reqs (ndev_array s slot)"
  shows "n \<notin> set (nreq_freelist (pool s))"
proof
  assume free: "n \<in> set (nreq_freelist (pool s))"
  have lt: "slot < NR_NDEV"
  proof (rule ccontr)
    assume "\<not> slot < NR_NDEV"
    with assms(1) have "slot_vacant s slot"
      by (simp add: slot_vacant_def ndev_inv_def)
    from inv_slot_empty [OF assms(1) this] assms(2) show False
      by (simp add: slot_reqs_def)
  qed
  have "(\<Sum>i<NR_NDEV. slot_reqs (ndev_array s i)) =
          slot_reqs (ndev_array s slot) + (\<Sum>i\<in>{..<NR_NDEV} - {slot}. slot_reqs (ndev_array s i))"
    using lt by (intro sum.remove) auto
  then have c0: "count (owned s) n \<ge>
      count (mset (nreq_freelist (pool s))) n + count (slot_reqs (ndev_array s slot)) n"
    by (simp add: owned_def)
  have c1: "count (mset (nreq_freelist (pool s))) n \<ge> 1"
    using free by (simp add: count_greater_eq_one_iff)
  have c2: "count (slot_reqs (ndev_array s slot)) n \<ge> 1"
    using assms(2) by (simp add: count_greater_eq_one_iff)
  have "count (mset [0..<NR_NREQ]) n \<le> 1"
    by (cases "n \<in> {0..<NR_NREQ}") (simp_all add: count_mset_set)
  moreover have "owned s = mset [0..<NR_NREQ]"
    using assms(1) by (simp add: ndev_inv_def)
  ultimately have c3: "count (owned s) n \<le> 1"
    by (simp only:)
  from c0 c1 c2 c3 show False
    by linarith
qed

lemma inv_update_slot:
  assumes inv: "ndev_inv s" and lt: "slot < NR_NDEV"
    and arr: "ndev_array s' = (ndev_array s)(slot := d')"
    and ok: "slot_ok (pool s') d'"
    and types: "\<And>n. n \<notin> set (nreq_freelist (pool s)) \<Longrightarrow>
                  nreq_type (nreq_array (pool s') n) = nreq_type (nreq_array (pool s) n)"
    and own: "mset (nreq_freelist (pool s')) + slot_reqs d' =
              mset (nreq_freelist (pool s)) + slot_reqs (ndev_array s slot)"
    and sp: "unat (nreq_spares (pool s')) + spares_used d' =
             unat (nreq_spares (pool s)) + spares_used (ndev_array s slot)"
    and vac: "\<And>i. slot_vacant s' i \<Longrightarrow> nq_max (ndev_sendq (ndev_array s' i)) = 0"
    and mx: "ndev_max s' \<le> NR_NDEV"
  shows "ndev_inv s'"
proof -
  have slots: "slot_ok (pool s') (ndev_array s' i)" for i
  proof (cases "i = slot")
    case True
    with arr ok show ?thesis by simp
  next
    case False
    from inv have old: "slot_ok (pool s) (ndev_array s i)"
      by (simp add: ndev_inv_def)
    have "nreq_type (nreq_array (pool s') n) = nreq_type (nreq_array (pool s) n)"
      if "n \<in> set (nq_req (ndev_sendq (ndev_array s i)))" for n
    proof -
      from that have "n \<in># slot_reqs (ndev_array s i)"
        by (simp add: slot_reqs_def)
      from inv_queued_not_free [OF inv this] show ?thesis
        by (rule types)
    qed
    with old False arr show ?thesis
      by (simp add: slot_ok_def)
  qed
  have "(\<Sum>i<NR_NDEV. slot_reqs (ndev_array s' i)) + slot_reqs (ndev_array s slot) =
        (\<Sum>i<NR_NDEV. slot_reqs (ndev_array s i)) + slot_reqs d'"
    unfolding arr by (rule sum_fun_upd [OF lt])
  then have "owned s' + slot_reqs (ndev_array s slot) = owned s + slot_reqs (ndev_array s slot)"
    using own by (simp add: owned_def add.assoc add.left_commute add.commute)
  then have o: "owned s' = owned s"
    by simp
  have "(\<Sum>i<NR_NDEV. spares_used (ndev_array s' i)) + spares_used (ndev_array s slot) =
        (\<Sum>i<NR_NDEV. spares_used (ndev_array s i)) + spares_used d'"
    unfolding arr by (rule sum_fun_upd [OF lt])
  with sp have "unat (nreq_spares (pool s')) + (\<Sum>i<NR_NDEV. spares_used (ndev_array s' i)) =
                unat (nreq_spares (pool s)) + (\<Sum>i<NR_NDEV. spares_used (ndev_array s i))"
    by linarith
  with inv slots vac mx o show ?thesis
    by (simp add: ndev_inv_def)
qed

lemma unat_u8_pred: "0 < (c :: u8) \<Longrightarrow> unat (c - 1) = unat c - 1"
  by (simp add: unat_minus_one word_greater_zero_iff)

lemma ndev_queue_advance_char:
  assumes "ndev_queue_advance q p = Inr (q', p')"
  obtains n rest where
    "nq_req q = n # rest" "nq_req q' = rest" "nq_head q' = nq_head q + 1"
    "nq_count q' = nq_count q - 1" "nq_max q' = nq_max q"
    "nreq_array p' = nreq_array p" "nreq_freelist p' = n # nreq_freelist p"
    "nreq_spares p' =
       (if nreq_type (nreq_array p n) \<noteq> NDEV_RECV \<and> unat (nq_count q) > NDEV_SENDQ
        then nreq_spares p + 1 else nreq_spares p)"
  using assms
  by (auto simp: ndev_queue_advance_def bnd_def Let_def split: list.splits sum.splits if_splits)

lemma unat_spares_Suc:
  "unat (x :: u32) < NREQ_SPARES \<Longrightarrow> unat (x + 1) = unat x + 1"
  by (simp add: NREQ_SPARES_def unat_word_ariths)

lemma ndev_queue_reset_char:
  assumes "ndev_queue_reset q p = Inr (q', p')"
    and "unat (nq_count q) = length (nq_req q)"
    and "(\<forall>n\<in>set (nq_req q). nreq_type (nreq_array p n) \<noteq> NDEV_RECV) \<or>
         unat (nq_count q) \<le> NDEV_SENDQ"
    and "unat (nreq_spares p) + (unat (nq_count q) - NDEV_SENDQ) \<le> NREQ_SPARES"
  shows "nq_req q' = [] \<and> nreq_array p' = nreq_array p \<and>
         mset (nreq_freelist p') = mset (nq_req q) + mset (nreq_freelist p) \<and>
         unat (nreq_spares p') = unat (nreq_spares p) + (unat (nq_count q) - NDEV_SENDQ)"
  using assms
proof (induction q p rule: ndev_queue_reset.induct)
  case (1 nq p)
  show ?case
  proof (cases "0 < nq_count nq")
    case True
    from "1.prems"(1) True obtain nq1 p1 where
      adv: "ndev_queue_advance nq p = Inr (nq1, p1)" and
      rest: "ndev_queue_reset nq1 p1 = Inr (q', p')" and
      ne: "nq_req nq \<noteq> []"
      by (subst (asm) ndev_queue_reset.simps) (auto split: if_splits sum.splits)
    from adv obtain n tl where
      req: "nq_req nq = n # tl" "nq_req nq1 = tl" and
      cnt: "nq_count nq1 = nq_count nq - 1" and
      arr: "nreq_array p1 = nreq_array p" and
      fl: "nreq_freelist p1 = n # nreq_freelist p" and
      sp: "nreq_spares p1 =
             (if nreq_type (nreq_array p n) \<noteq> NDEV_RECV \<and> unat (nq_count nq) > NDEV_SENDQ
              then nreq_spares p + 1 else nreq_spares p)"
      by (rule ndev_queue_advance_char)
    have c1: "unat (nq_count nq1) = unat (nq_count nq) - 1"
      using cnt unat_u8_pred [OF True] by simp
    have pos: "unat (nq_count nq) > 0"
      using True by (simp add: unat_gt_0 word_greater_zero_iff)
    have len1: "unat (nq_count nq1) = length (nq_req nq1)"
      using c1 "1.prems"(2) req by simp
    have ty1: "(\<forall>n\<in>set (nq_req nq1). nreq_type (nreq_array p1 n) \<noteq> NDEV_RECV) \<or>
               unat (nq_count nq1) \<le> NDEV_SENDQ"
      using "1.prems"(3) req arr c1 by auto
    have sp1: "unat (nreq_spares p1) + (unat (nq_count nq1) - NDEV_SENDQ) =
               unat (nreq_spares p) + (unat (nq_count nq) - NDEV_SENDQ)"
    proof (cases "unat (nq_count nq) > NDEV_SENDQ")
      case True
      with "1.prems"(3) req have "nreq_type (nreq_array p n) \<noteq> NDEV_RECV"
        by auto
      with sp True have "nreq_spares p1 = nreq_spares p + 1"
        by simp
      moreover have "unat (nreq_spares p) < NREQ_SPARES"
        using "1.prems"(4) True by linarith
      ultimately have "unat (nreq_spares p1) = unat (nreq_spares p) + 1"
        by (simp add: unat_spares_Suc)
      with c1 True show ?thesis
        by linarith
    next
      case False
      with sp c1 show ?thesis
        by simp
    qed
    have bd1: "unat (nreq_spares p1) + (unat (nq_count nq1) - NDEV_SENDQ) \<le> NREQ_SPARES"
      using sp1 "1.prems"(4) by simp
    from "1.IH" [OF True ne adv refl rest len1 ty1 bd1]
    show ?thesis
      using req arr fl sp1 by simp
  next
    case False
    then have z: "nq_count nq = 0"
      by (simp add: word_greater_zero_iff)
    with "1.prems"(1) have "q' = nq\<lparr>nq_max := 0\<rparr>" "p' = p"
      by (subst (asm) ndev_queue_reset.simps, simp)+
    with z "1.prems"(2) show ?thesis
      by simp
  qed
qed

lemma sum_member_le:
  fixes f :: "nat \<Rightarrow> nat"
  shows "slot < n \<Longrightarrow> f slot \<le> (\<Sum>i<n. f i)"
  by (rule member_le_sum) auto

lemma ndev_inv_slot_ok: "ndev_inv s \<Longrightarrow> slot_ok (pool s) (ndev_array s slot)"
  by (simp add: ndev_inv_def)

lemma ndev_inv_spares_bound:
  assumes "ndev_inv s" and "slot < NR_NDEV"
  shows "unat (nreq_spares (pool s)) + spares_used (ndev_array s slot) \<le> NREQ_SPARES"
proof -
  have "spares_used (ndev_array s slot) \<le> (\<Sum>i<NR_NDEV. spares_used (ndev_array s i))"
    using assms(2) by (rule sum_member_le)
  with assms(1) show ?thesis
    by (simp add: ndev_inv_def)
qed

lemma reset_queues_inv:
  assumes inv: "ndev_inv s" and lt: "slot < NR_NDEV" and run: "reset_queues slot s = Inr s'"
  shows "ndev_inv s' \<and> ndev_max s' = ndev_max s \<and>
         (\<forall>i. i \<noteq> slot \<longrightarrow> ndev_array s' i = ndev_array s i) \<and>
         ndev_endpt (ndev_array s' slot) = ndev_endpt (ndev_array s slot) \<and>
         ndev_ethif (ndev_array s' slot) = ndev_ethif (ndev_array s slot) \<and>
         nq_max (ndev_sendq (ndev_array s' slot)) = 0 \<and>
         nq_max (ndev_recvq (ndev_array s' slot)) = 0"
proof -
  let ?d = "ndev_array s slot"
  from run obtain sq p1 rq p2 where
    r1: "ndev_queue_reset (ndev_sendq ?d) (pool s) = Inr (sq, p1)" and
    r2: "ndev_queue_reset (ndev_recvq ?d) p1 = Inr (rq, p2)" and
    s': "s' = s\<lparr>pool := p2, ndev_array := (ndev_array s)
                  (slot := ?d\<lparr>ndev_sendq := sq, ndev_recvq := rq\<rparr>)\<rparr>"
    by (auto simp: reset_queues_def bnd_def split: sum.splits prod.splits)
  from inv have ok: "slot_ok (pool s) ?d"
    by (rule ndev_inv_slot_ok)
  have bd: "unat (nreq_spares (pool s)) + (unat (nq_count (ndev_sendq ?d)) - NDEV_SENDQ) \<le> NREQ_SPARES"
    using ndev_inv_spares_bound [OF inv lt] by (simp add: spares_used_def)
  from ok have len_s: "unat (nq_count (ndev_sendq ?d)) = length (nq_req (ndev_sendq ?d))"
    and len_r: "unat (nq_count (ndev_recvq ?d)) = length (nq_req (ndev_recvq ?d))"
    and ty_s: "\<forall>n\<in>set (nq_req (ndev_sendq ?d)). nreq_type (nreq_array (pool s) n) \<noteq> NDEV_RECV"
    by (simp_all add: slot_ok_def queue_ok_def)
  note c1 = ndev_queue_reset_char [OF r1 len_s disjI1 [OF ty_s] bd]
  from ok have rc: "unat (nq_count (ndev_recvq ?d)) \<le> NDEV_SENDQ"
    by (auto simp: slot_ok_def queue_ok_def NDEV_SENDQ_def NDEV_RECVQ_def word_le_nat_alt)
  have bd2: "unat (nreq_spares p1) + (unat (nq_count (ndev_recvq ?d)) - NDEV_SENDQ) \<le> NREQ_SPARES"
    using c1 bd rc by simp
  note c2 = ndev_queue_reset_char [OF r2 len_r disjI2 [OF rc] bd2]
  note z1 = ndev_queue_reset_result [OF r1] and z2 = ndev_queue_reset_result [OF r2]
  have "ndev_inv s'"
  proof (rule inv_update_slot [OF inv lt])
    show "ndev_array s' = (ndev_array s)(slot := ?d\<lparr>ndev_sendq := sq, ndev_recvq := rq\<rparr>)"
      by (simp add: s')
    show "slot_ok (pool s') (?d\<lparr>ndev_sendq := sq, ndev_recvq := rq\<rparr>)"
      using z1 z2 c1 c2 by (simp add: slot_ok_def queue_ok_def)
    show "nreq_type (nreq_array (pool s') n) = nreq_type (nreq_array (pool s) n)" for n
      using c1 c2 by (simp add: s')
    show "mset (nreq_freelist (pool s')) + slot_reqs (?d\<lparr>ndev_sendq := sq, ndev_recvq := rq\<rparr>) =
          mset (nreq_freelist (pool s)) + slot_reqs ?d"
      using c1 c2 by (simp add: s' slot_reqs_def)
    show "unat (nreq_spares (pool s')) + spares_used (?d\<lparr>ndev_sendq := sq, ndev_recvq := rq\<rparr>) =
          unat (nreq_spares (pool s)) + spares_used ?d"
      using c1 c2 rc z1 by (simp add: s' spares_used_def)
    show "nq_max (ndev_sendq (ndev_array s' i)) = 0" if "slot_vacant s' i" for i
    proof (cases "i = slot")
      case True
      with z1 show ?thesis by (simp add: s')
    next
      case False
      with that have "slot_vacant s i"
        by (simp add: s' slot_vacant_def)
      with inv False show ?thesis
        by (simp add: s' ndev_inv_def)
    qed
    show "ndev_max s' \<le> NR_NDEV"
      using inv by (simp add: s' ndev_inv_def)
  qed
  then show ?thesis
    using z1 z2 by (simp add: s')
qed

lemma ndev_inv_frame:
  assumes "ndev_inv s"
    and "ndev_array s' = ndev_array s" and "ndev_max s' = ndev_max s"
    and "nreq_freelist (pool s') = nreq_freelist (pool s)"
    and "nreq_spares (pool s') = nreq_spares (pool s)"
    and "\<And>n. nreq_type (nreq_array (pool s') n) = nreq_type (nreq_array (pool s) n)"
  shows "ndev_inv s'"
  using assms by (simp add: ndev_inv_def slot_ok_def owned_def slot_vacant_def)

lemma ndev_inv_emit [simp]: "ndev_inv (emit e s) = ndev_inv s"
  by (simp add: ndev_inv_def emit_def owned_def slot_vacant_def)

lemma ndev_inv_pending [simp]: "ndev_inv (s\<lparr>ndev_pending := x\<rparr>) = ndev_inv s"
  by (simp add: ndev_inv_def owned_def slot_vacant_def)

lemma ndev_inv_reported [simp]: "ndev_inv (s\<lparr>reported := x\<rparr>) = ndev_inv s"
  by (simp add: ndev_inv_def owned_def slot_vacant_def)

lemma emit_fields [simp]:
  "pool (emit e s) = pool s" "ndev_array (emit e s) = ndev_array s"
  "ndev_max (emit e s) = ndev_max s" "ndev_pending (emit e s) = ndev_pending s"
  "reported (emit e s) = reported s" "trace (emit e s) = trace s @ [e]"
  by (simp_all add: emit_def)

lemma ndev_send_init_inv:
  "ndev_send_init slot r s = Inr s' \<Longrightarrow> ndev_inv s' = ndev_inv s"
  by (auto simp: ndev_send_init_def Let_def split: if_splits)

lemma ndev_up_scan_found:
  "ndev_up_scan arr label slots nd = Inl slot \<Longrightarrow> slot \<in> set slots \<and> ndev_endpt (arr slot) \<noteq> NONE"
  by (induction slots arbitrary: nd) (auto split: if_splits)

lemma ndev_up_scan_vacant:
  "ndev_up_scan arr label slots nd = Inr (Some n) \<Longrightarrow>
     nd = Some n \<or> (n \<in> set slots \<and> ndev_endpt (arr n) = NONE)"
  by (induction slots arbitrary: nd) (auto split: if_splits)

lemma inv_set_endpt:
  assumes "ndev_inv s" and "nq_max (ndev_sendq (ndev_array s slot)) = 0"
  shows "ndev_inv (s\<lparr>ndev_array := (ndev_array s)(slot := (ndev_array s slot)\<lparr>ndev_endpt := ep\<rparr>)\<rparr>)"
proof -
  let ?s' = "s\<lparr>ndev_array := (ndev_array s)(slot := (ndev_array s slot)\<lparr>ndev_endpt := ep\<rparr>)\<rparr>"
  have eq: "slot_reqs (ndev_array ?s' i) = slot_reqs (ndev_array s i)"
           "spares_used (ndev_array ?s' i) = spares_used (ndev_array s i)"
           "slot_ok p (ndev_array ?s' i) = slot_ok p (ndev_array s i)"
           "nq_max (ndev_sendq (ndev_array ?s' i)) = nq_max (ndev_sendq (ndev_array s i))" for i p
    by (simp_all add: slot_reqs_def spares_used_def slot_ok_def)
  have vac: "slot_vacant ?s' i \<Longrightarrow> i = slot \<or> slot_vacant s i" for i
    by (auto simp: slot_vacant_def)
  from assms show ?thesis
    unfolding ndev_inv_def owned_def eq
    using vac by (auto simp del: fun_upd_apply)
qed

lemma ndev_up_inv:
  assumes inv: "ndev_inv s" and run: "ndev_up label endpt r s = Inr s'"
  shows "ndev_inv s'"
proof (cases "ndev_up_scan (ndev_array s) label [0..<ndev_max s] None")
  case (Inl slot)
  from ndev_up_scan_found [OF Inl] inv have lt: "slot < NR_NDEV"
    by (simp add: ndev_inv_def)
  from run Inl obtain s1 where
    r1: "reset_queues slot s = Inr s1" and
    r2: "ndev_send_init slot r
           ((case ndev_ethif (ndev_array s1 slot) of
               None \<Rightarrow> s1
             | Some e \<Rightarrow> (emit (Ethif_disable e) s1)\<lparr>ndev_pending := ndev_pending s1 + 1\<rparr>)
            \<lparr>ndev_array := (ndev_array s1)(slot := (ndev_array s1 slot)\<lparr>ndev_endpt := endpt\<rparr>)\<rparr>) = Inr s'"
    by (auto simp: ndev_up_def bnd_def Let_def split: sum.splits option.splits)
  note f = reset_queues_inv [OF inv lt r1]
  have "ndev_inv (s1\<lparr>ndev_array := (ndev_array s1)(slot := (ndev_array s1 slot)\<lparr>ndev_endpt := endpt\<rparr>)\<rparr>)"
    using f by (intro inv_set_endpt) simp_all
  then have "ndev_inv ((case ndev_ethif (ndev_array s1 slot) of
               None \<Rightarrow> s1
             | Some e \<Rightarrow> (emit (Ethif_disable e) s1)\<lparr>ndev_pending := ndev_pending s1 + 1\<rparr>)
            \<lparr>ndev_array := (ndev_array s1)(slot := (ndev_array s1 slot)\<lparr>ndev_endpt := endpt\<rparr>)\<rparr>)"
    by (rule ndev_inv_frame) (simp_all split: option.splits)
  with ndev_send_init_inv [OF r2] show ?thesis
    by simp
next
  case (Inr nd)
  show ?thesis
  proof (cases "nd = None \<and> ndev_max s = NR_NDEV")
    case True
    with run Inr inv show ?thesis
      by (auto simp: ndev_up_def split: if_splits)
  next
    case False
    define slot where "slot = (case nd of None \<Rightarrow> ndev_max s | Some n \<Rightarrow> n)"
    define s1 where "s1 = (if nd = None then s\<lparr>ndev_max := ndev_max s + 1\<rparr> else s)"
    define d where "d = ndev_array s slot"
    define d' where "d' = d\<lparr>ndev_endpt := endpt, ndev_label := take (LABEL_MAX - 1) label,
                            ndev_ethif := None, ndev_sendq := ndev_queue_init (ndev_sendq d),
                            ndev_recvq := ndev_queue_init (ndev_recvq d)\<rparr>"
    define s2 where "s2 = s1\<lparr>ndev_array := (ndev_array s1)(slot := d')\<rparr>"
    from run Inr False obtain s3 where
      r3: "ndev_send_init slot r s2 = Inr s3" and s': "s' = s3\<lparr>ndev_pending := ndev_pending s3 + 1\<rparr>"
      by (auto simp: ndev_up_def bnd_def Let_def slot_def s1_def s2_def d_def d'_def
               split: sum.splits if_splits)
    have vacant: "slot_vacant s slot" and lt: "slot < NR_NDEV" and mx: "ndev_max s1 \<le> NR_NDEV"
      and mx1: "ndev_max s \<le> ndev_max s1" and in1: "slot < ndev_max s1"
    proof -
      show "slot_vacant s slot"
        using ndev_up_scan_vacant [of "ndev_array s" label "[0..<ndev_max s]" None] Inr
        by (cases nd) (auto simp: slot_def slot_vacant_def)
      show "slot < NR_NDEV"
        using ndev_up_scan_vacant [of "ndev_array s" label "[0..<ndev_max s]" None] Inr False inv
        by (cases nd) (auto simp: slot_def ndev_inv_def)
      show "ndev_max s1 \<le> NR_NDEV"
        using False inv by (auto simp: s1_def ndev_inv_def)
      show "ndev_max s \<le> ndev_max s1"
        by (simp add: s1_def)
      show "slot < ndev_max s1"
        using ndev_up_scan_vacant [of "ndev_array s" label "[0..<ndev_max s]" None] Inr
        by (cases nd) (auto simp: slot_def s1_def)
    qed
    note e = inv_slot_empty [OF inv vacant]
    have "ndev_inv s2"
    proof (rule inv_update_slot [OF inv lt])
      show "ndev_array s2 = (ndev_array s)(slot := d')"
        by (simp add: s2_def s1_def)
      show "slot_ok (pool s2) d'"
        by (simp add: slot_ok_def queue_ok_def d'_def ndev_queue_init_def)
      show "nreq_type (nreq_array (pool s2) n) = nreq_type (nreq_array (pool s) n)" for n
        by (simp add: s2_def s1_def)
      show "mset (nreq_freelist (pool s2)) + slot_reqs d' =
            mset (nreq_freelist (pool s)) + slot_reqs (ndev_array s slot)"
        using e by (simp add: s2_def s1_def slot_reqs_def d'_def ndev_queue_init_def)
      show "unat (nreq_spares (pool s2)) + spares_used d' =
            unat (nreq_spares (pool s)) + spares_used (ndev_array s slot)"
        using e by (simp add: s2_def s1_def spares_used_def d'_def ndev_queue_init_def)
      show "nq_max (ndev_sendq (ndev_array s2 i)) = 0" if "slot_vacant s2 i" for i
      proof (cases "i = slot")
        case True
        then show ?thesis
          by (simp add: s2_def d'_def ndev_queue_init_def)
      next
        case False
        with that mx1 have "slot_vacant s i"
          by (auto simp: s2_def s1_def slot_vacant_def split: if_splits)
        with inv False show ?thesis
          by (simp add: s2_def s1_def ndev_inv_def)
      qed
      show "ndev_max s2 \<le> NR_NDEV"
        using mx by (simp add: s2_def)
    qed
    with ndev_send_init_inv [OF r3] show ?thesis
      by (simp add: s')
  qed
qed

lemma shrink_max_vacant:
  "shrink_max arr n \<le> i \<Longrightarrow> i < n \<Longrightarrow> ndev_endpt (arr i) = NONE"
  by (induction n) (auto split: if_splits simp: less_Suc_eq)

lemma ndev_down_result:
  assumes "ndev_down slot s = Inr s'"
  obtains s1 where "reset_queues slot s = Inr s1"
    "pool s' = pool s1"
    "ndev_array s' = (ndev_array s1)(slot := (ndev_array s1 slot)\<lparr>ndev_endpt := NONE\<rparr>)"
    "ndev_max s' = shrink_max (ndev_array s') (ndev_max s1)"
proof -
  from assms obtain s1 where r1: "reset_queues slot s = Inr s1"
    by (cases "reset_queues slot s") (simp_all add: ndev_down_def bnd_def)
  show ?thesis
  proof (rule that [OF r1])
    show "pool s' = pool s1"
      using assms r1 by (cases "ndev_ethif (ndev_array s1 slot)") (auto simp: ndev_down_def bnd_def Let_def)
    show "ndev_array s' = (ndev_array s1)(slot := (ndev_array s1 slot)\<lparr>ndev_endpt := NONE\<rparr>)"
      using assms r1 by (cases "ndev_ethif (ndev_array s1 slot)") (auto simp: ndev_down_def bnd_def Let_def)
    then show "ndev_max s' = shrink_max (ndev_array s') (ndev_max s1)"
      using assms r1 by (cases "ndev_ethif (ndev_array s1 slot)") (auto simp: ndev_down_def bnd_def Let_def)
  qed
qed

lemma ndev_down_inv:
  assumes inv: "ndev_inv s" and lt: "slot < NR_NDEV" and run: "ndev_down slot s = Inr s'"
  shows "ndev_inv s'"
proof -
  from run obtain s1 where
    r1: "reset_queues slot s = Inr s1" and
    p: "pool s' = pool s1" and
    a: "ndev_array s' = (ndev_array s1)(slot := (ndev_array s1 slot)\<lparr>ndev_endpt := NONE\<rparr>)" and
    m: "ndev_max s' = shrink_max (ndev_array s') (ndev_max s1)"
    by (rule ndev_down_result)
  note f = reset_queues_inv [OF inv lt r1]
  define s3 where "s3 = s1\<lparr>ndev_array := (ndev_array s1)(slot := (ndev_array s1 slot)\<lparr>ndev_endpt := NONE\<rparr>)\<rparr>"
  have i3: "ndev_inv s3"
    unfolding s3_def using f by (intro inv_set_endpt) simp_all
  have p3: "pool s' = pool s3" and a3: "ndev_array s' = ndev_array s3"
    and m3: "ndev_max s' = shrink_max (ndev_array s3) (ndev_max s3)"
    using p a m by (simp_all add: s3_def)
  show "ndev_inv s'"
    unfolding ndev_inv_def
  proof (intro conjI allI impI)
    fix i
    show "slot_ok (pool s') (ndev_array s' i)"
      using i3 by (simp add: p3 a3 ndev_inv_def)
    show "ndev_max s' \<le> NR_NDEV"
      using i3 shrink_max_le [of "ndev_array s3" "ndev_max s3"] by (simp add: m3 ndev_inv_def)
    show "owned s' = mset [0..<NR_NREQ]"
      using i3 by (simp add: p3 a3 ndev_inv_def owned_def)
    show "unat (nreq_spares (pool s')) + (\<Sum>slot<NR_NDEV. spares_used (ndev_array s' slot)) = NREQ_SPARES"
      using i3 by (simp add: p3 a3 ndev_inv_def)
    assume v: "slot_vacant s' i"
    have "slot_vacant s3 i"
    proof (cases "i < ndev_max s3")
      case True
      with v have "shrink_max (ndev_array s3) (ndev_max s3) \<le> i \<or> ndev_endpt (ndev_array s3 i) = NONE"
        by (auto simp: slot_vacant_def m3 a3)
      with True shrink_max_vacant [of "ndev_array s3" "ndev_max s3" i] show ?thesis
        by (auto simp: slot_vacant_def)
    next
      case False
      then show ?thesis by (simp add: slot_vacant_def)
    qed
    with i3 show "nq_max (ndev_sendq (ndev_array s' i)) = 0"
      by (simp add: a3 ndev_inv_def)
  qed
qed

lemma check_changes_inv:
  "ndev_inv s \<Longrightarrow> check_changes changes s = Inr s' \<Longrightarrow> ndev_inv s'"
proof (induction changes arbitrary: s)
  case Nil
  then show ?case by simp
next
  case (Cons e rest)
  show ?case
  proof (cases "check_changes (e # rest) s = check_changes rest s")
    case True
    with Cons show ?thesis by simp
  next
    case False
    then have eq: "check_changes (e # rest) s =
        bnd (ndev_up (drop (length ''drv.net.'') (ds_key e)) (ds_endpt e) (ds_asyn e) s)
          (check_changes rest)"
      by (simp add: Let_def split: if_splits)
    with Cons.prems obtain s1 where
      u: "ndev_up (drop (length ''drv.net.'') (ds_key e)) (ds_endpt e) (ds_asyn e) s = Inr s1" and
      r: "check_changes rest s1 = Inr s'"
      by (auto simp: bnd_def split: sum.splits)
    from Cons.IH [OF ndev_up_inv [OF Cons.prems(1) u] r] show ?thesis .
  qed
qed

lemma check_sweep_inv:
  "ndev_inv s \<Longrightarrow> check_sweep labels slot s = Inr s' \<Longrightarrow> ndev_inv s'"
proof (induction labels slot s rule: check_sweep.induct)
  case (1 labels slot s)
  show ?case
  proof (cases "slot < ndev_max s")
    case False
    with "1.prems" show ?thesis
      by (subst (asm) check_sweep.simps) simp
  next
    case True
    with "1.prems"(1) have lt: "slot < NR_NDEV"
      by (simp add: ndev_inv_def)
    show ?thesis
    proof (cases "ndev_endpt (ndev_array s slot) = NONE")
      case vac: True
      from "1.prems"(2) True vac have "check_sweep labels (Suc slot) s = Inr s'"
        by (subst (asm) check_sweep.simps) simp
      from "1.IH"(1) [OF True vac "1.prems"(1) this] show ?thesis .
    next
      case occ: False
      show ?thesis
      proof (cases "labels (ndev_label (ndev_array s slot)) \<noteq> OK")
        case gone: True
        with True occ "1.prems"(2) obtain s1 where
          d: "ndev_down slot s = Inr s1" and r: "check_sweep labels (Suc slot) s1 = Inr s'"
          by (subst (asm) check_sweep.simps) (auto split: sum.splits)
        from "1.IH"(2) [OF True occ gone d ndev_down_inv [OF "1.prems"(1) lt d] r]
        show ?thesis .
      next
        case there: False
        from "1.prems"(2) True occ there have "check_sweep labels (Suc slot) s = Inr s'"
          by (subst (asm) check_sweep.simps) simp
        from "1.IH"(3) [OF True occ there "1.prems"(1) this] show ?thesis .
      qed
    qed
  qed
qed

lemma ndev_check_inv:
  assumes "ndev_inv s" and "ndev_check changes final labels s = Inr s'"
  shows "ndev_inv s'"
proof -
  from assms(2) obtain s1 where
    c: "check_changes changes s = Inr s1" and
    w: "check_sweep labels 0
          (if final \<noteq> ENOENT then emit (Printf ''LWIP: DS check failed (%d)'' [final]) s1 else s1) = Inr s'"
    by (cases "check_changes changes s") (simp_all add: ndev_check_def bnd_def)
  from check_changes_inv [OF assms(1) c]
  have "ndev_inv (if final \<noteq> ENOENT then emit (Printf ''LWIP: DS check failed (%d)'' [final]) s1 else s1)"
    by simp
  from check_sweep_inv [OF this w] show ?thesis .
qed

lemma ndev_queue_get_char:
  assumes "ndev_queue_get q type p = Inr (Some (n, seq), p')"
  obtains fl where
    "nreq_freelist p = n # fl" "nq_count q \<noteq> nq_max q"
    "type \<noteq> NDEV_RECV \<Longrightarrow> unat (nq_count q) \<ge> NDEV_SENDQ \<Longrightarrow> nreq_spares p \<noteq> 0"
    "p' = p\<lparr>nreq_array := (nreq_array p)(n := (nreq_array p n)\<lparr>nreq_type := type\<rparr>)\<rparr>"
    "seq = nq_head q + ucast (nq_count q)"
  using assms
  by (auto simp: ndev_queue_get_def split: list.splits if_splits)

lemma ndev_queue_get_None_same:
  "ndev_queue_get q type p = Inr (None, p') \<Longrightarrow> p' = p"
  by (auto simp: ndev_queue_get_def split: list.splits if_splits)

lemma ndev_queue_add_char:
  assumes "ndev_queue_add q n p = Inr (q', p')"
  obtains x fl where
    "nreq_freelist p = x # fl" "nreq_freelist p' = fl"
    "nq_req q' = nq_req q @ [n]" "nq_count q' = nq_count q + 1"
    "nq_head q' = nq_head q" "nq_max q' = nq_max q"
    "nreq_array p' = nreq_array p"
    "nreq_spares p' =
       (if nreq_type (nreq_array p n) \<noteq> NDEV_RECV \<and> unat (nq_count q) \<ge> NDEV_SENDQ
        then nreq_spares p - 1 else nreq_spares p)"
    "nreq_type (nreq_array p n) \<noteq> NDEV_RECV \<Longrightarrow> unat (nq_count q) \<ge> NDEV_SENDQ \<Longrightarrow>
       nreq_spares p > 0"
  using assms
  by (auto simp: ndev_queue_add_def Let_def split: list.splits if_splits)

lemma transfer_grants_frame:
  "transfer_grants pbufs left i grants nreq iov p = Inr (res, i', iov', p') \<Longrightarrow>
     nreq_freelist p' = nreq_freelist p \<and> nreq_spares p' = nreq_spares p \<and>
     (\<forall>n. nreq_type (nreq_array p' n) = nreq_type (nreq_array p n))"
proof (induction pbufs left i grants nreq iov p rule: transfer_grants.induct)
  case (1 pbufs left i grants nreq iov p)
  show ?case
    using "1.prems" "1.IH"
    by (subst (asm) transfer_grants.simps)
       (auto split: if_splits list.splits prod.splits)
qed

lemma ndev_transfer_frame:
  assumes "ndev_transfer slot pbufs do_send seq nreq grants r s = Inr (res, s')"
  shows "ndev_array s' = ndev_array s \<and> ndev_max s' = ndev_max s \<and>
         ndev_pending s' = ndev_pending s \<and>
         nreq_freelist (pool s') = nreq_freelist (pool s) \<and>
         nreq_spares (pool s') = nreq_spares (pool s) \<and>
         (\<forall>n. nreq_type (nreq_array (pool s') n) = nreq_type (nreq_array (pool s) n))"
  using assms
  by (auto simp: ndev_transfer_def bnd_def Let_def
           split: list.splits sum.splits prod.splits if_splits
           dest!: transfer_grants_frame)

lemma unat_u8_Suc:
  assumes "(c :: u8) < m"
  shows "unat (c + 1) = unat c + 1"
proof -
  from assms have "unat c < unat m"
    by (simp add: word_less_nat_alt)
  moreover have "unat m < 256"
    using unsigned_less [of m, where 'a = nat] by simp
  ultimately show ?thesis
    by (simp add: unat_word_ariths)
qed

lemma unat_u32_pred: "0 < (x :: u32) \<Longrightarrow> unat (x - 1) = unat x - 1"
  by (simp add: unat_minus_one word_greater_zero_iff)

lemma inv_not_vacant:
  "ndev_inv s \<Longrightarrow> NDEV_ACTIVE (ndev_array s slot) \<Longrightarrow> \<not> slot_vacant s slot"
  by (auto simp: ndev_inv_def NDEV_ACTIVE_def)

lemma inv_get:
  assumes inv: "ndev_inv s"
    and get: "ndev_queue_get q type (pool s) = Inr (Some (n, seq), p1)"
  shows "ndev_inv (s\<lparr>pool := p1\<rparr>)"
proof -
  from get obtain fl where
    fl: "nreq_freelist (pool s) = n # fl" and
    p1: "p1 = (pool s)\<lparr>nreq_array := (nreq_array (pool s))
                 (n := (nreq_array (pool s) n)\<lparr>nreq_type := type\<rparr>)\<rparr>"
    by (rule ndev_queue_get_char)
  have ty: "nreq_type (nreq_array p1 k) = nreq_type (nreq_array (pool s) k)"
    if "k \<notin> set (nreq_freelist (pool s))" for k
    using that fl by (auto simp: p1)
  have ok: "slot_ok p1 (ndev_array s i)" for i
  proof -
    from inv have old: "slot_ok (pool s) (ndev_array s i)"
      by (rule ndev_inv_slot_ok)
    have "nreq_type (nreq_array p1 k) = nreq_type (nreq_array (pool s) k)"
      if "k \<in> set (nq_req (ndev_sendq (ndev_array s i)))" for k
    proof -
      from that have "k \<in># slot_reqs (ndev_array s i)"
        by (simp add: slot_reqs_def)
      from inv_queued_not_free [OF inv this] show ?thesis
        by (rule ty)
    qed
    with old show ?thesis
      by (simp add: slot_ok_def)
  qed
  from inv ok show ?thesis
    by (simp add: ndev_inv_def owned_def slot_vacant_def p1)
qed

lemma inv_commit_send:
  assumes inv: "ndev_inv s" and lt: "slot < NR_NDEV"
    and act: "NDEV_ACTIVE (ndev_array s slot)"
    and get: "ndev_queue_get (ndev_sendq (ndev_array s slot)) type (pool s) = Inr (Some (n, seq), p1)"
    and ty: "type \<noteq> NDEV_RECV"
    and fr: "nreq_freelist pm = nreq_freelist p1" "nreq_spares pm = nreq_spares p1"
            "\<And>k. nreq_type (nreq_array pm k) = nreq_type (nreq_array p1 k)"
    and add: "ndev_queue_add (ndev_sendq (ndev_array s slot)) n pm = Inr (q, p2)"
    and res: "pool s' = p2" "ndev_max s' = ndev_max s"
             "ndev_array s' = (ndev_array s)(slot := (ndev_array s slot)\<lparr>ndev_sendq := q\<rparr>)"
  shows "ndev_inv s'"
proof -
  let ?d = "ndev_array s slot"
  let ?q = "ndev_sendq ?d"
  from get obtain fl where
    fl: "nreq_freelist (pool s) = n # fl" and ne: "nq_count ?q \<noteq> nq_max ?q" and
    sp0: "unat (nq_count ?q) \<ge> NDEV_SENDQ \<Longrightarrow> nreq_spares (pool s) \<noteq> 0" and
    p1: "p1 = (pool s)\<lparr>nreq_array := (nreq_array (pool s))
                 (n := (nreq_array (pool s) n)\<lparr>nreq_type := type\<rparr>)\<rparr>"
    using ty by (auto elim!: ndev_queue_get_char)
  have tn: "nreq_type (nreq_array pm n) = type"
    by (simp add: fr p1)
  from add obtain x fl' where
    a: "nreq_freelist pm = x # fl'" "nreq_freelist p2 = fl'"
       "nq_req q = nq_req ?q @ [n]" "nq_count q = nq_count ?q + 1"
       "nq_head q = nq_head ?q" "nq_max q = nq_max ?q"
       "nreq_array p2 = nreq_array pm" and
    asp: "nreq_spares p2 =
       (if nreq_type (nreq_array pm n) \<noteq> NDEV_RECV \<and> unat (nq_count ?q) \<ge> NDEV_SENDQ
        then nreq_spares pm - 1 else nreq_spares pm)"
    by (rule ndev_queue_add_char)
  from a fl fr p1 have fl2: "nreq_freelist p2 = fl"
    by simp
  from inv have ok: "slot_ok (pool s) ?d"
    by (rule ndev_inv_slot_ok)
  then have lt_max: "nq_count ?q < nq_max ?q"
    using ne by (simp add: slot_ok_def queue_ok_def order_less_le)
  have cnt: "unat (nq_count q) = unat (nq_count ?q) + 1"
    using a unat_u8_Suc [OF lt_max] by simp
  have notin: "k \<noteq> n" if "k \<in> set (nq_req ?q)" for k
  proof -
    from that have "k \<in># slot_reqs ?d"
      by (simp add: slot_reqs_def)
    from inv_queued_not_free [OF inv this] fl show ?thesis
      by auto
  qed
  show ?thesis
  proof (rule inv_update_slot [OF inv lt res(3)])
    show "slot_ok (pool s') (?d\<lparr>ndev_sendq := q\<rparr>)"
      using ok a cnt lt_max ty notin
      by (auto simp: slot_ok_def queue_ok_def res fr p1 inc_le)
    show "nreq_type (nreq_array (pool s') k) = nreq_type (nreq_array (pool s) k)"
      if "k \<notin> set (nreq_freelist (pool s))" for k
      using that fl by (auto simp: res a fr p1)
    show "mset (nreq_freelist (pool s')) + slot_reqs (?d\<lparr>ndev_sendq := q\<rparr>) =
          mset (nreq_freelist (pool s)) + slot_reqs ?d"
      by (simp add: res fl2 fl a slot_reqs_def)
    show "unat (nreq_spares (pool s')) + spares_used (?d\<lparr>ndev_sendq := q\<rparr>) =
          unat (nreq_spares (pool s)) + spares_used ?d"
    proof (cases "unat (nq_count ?q) \<ge> NDEV_SENDQ")
      case True
      with sp0 have "0 < nreq_spares (pool s)"
        by (simp add: word_greater_zero_iff)
      then have "unat (nreq_spares (pool s) - 1) = unat (nreq_spares (pool s)) - 1"
        and "unat (nreq_spares (pool s)) > 0"
        by (simp_all add: unat_u32_pred unat_gt_0 word_greater_zero_iff)
      with True asp tn ty cnt show ?thesis
        by (simp add: res fr p1 spares_used_def)
    next
      case False
      with asp cnt show ?thesis
        by (simp add: res fr p1 spares_used_def)
    qed
    show "nq_max (ndev_sendq (ndev_array s' i)) = 0" if "slot_vacant s' i" for i
    proof (cases "i = slot")
      case True
      with that inv_not_vacant [OF inv act] show ?thesis
        by (simp add: slot_vacant_def res)
    next
      case False
      with that have "slot_vacant s i"
        by (simp add: slot_vacant_def res)
      with inv False show ?thesis
        by (simp add: res ndev_inv_def)
    qed
    show "ndev_max s' \<le> NR_NDEV"
      using inv by (simp add: res ndev_inv_def)
  qed
qed

lemma inv_commit_recv:
  assumes inv: "ndev_inv s" and lt: "slot < NR_NDEV"
    and act: "NDEV_ACTIVE (ndev_array s slot)"
    and get: "ndev_queue_get (ndev_recvq (ndev_array s slot)) NDEV_RECV (pool s) = Inr (Some (n, seq), p1)"
    and fr: "nreq_freelist pm = nreq_freelist p1" "nreq_spares pm = nreq_spares p1"
            "\<And>k. nreq_type (nreq_array pm k) = nreq_type (nreq_array p1 k)"
    and add: "ndev_queue_add (ndev_recvq (ndev_array s slot)) n pm = Inr (q, p2)"
    and res: "pool s' = p2" "ndev_max s' = ndev_max s"
             "ndev_array s' = (ndev_array s)(slot := (ndev_array s slot)\<lparr>ndev_recvq := q\<rparr>)"
  shows "ndev_inv s'"
proof -
  let ?d = "ndev_array s slot"
  let ?q = "ndev_recvq ?d"
  from get obtain fl where
    fl: "nreq_freelist (pool s) = n # fl" and ne: "nq_count ?q \<noteq> nq_max ?q" and
    p1: "p1 = (pool s)\<lparr>nreq_array := (nreq_array (pool s))
                 (n := (nreq_array (pool s) n)\<lparr>nreq_type := NDEV_RECV\<rparr>)\<rparr>"
    by (auto elim!: ndev_queue_get_char)
  have tn: "nreq_type (nreq_array pm n) = NDEV_RECV"
    by (simp add: fr p1)
  from add obtain x fl' where
    a: "nreq_freelist pm = x # fl'" "nreq_freelist p2 = fl'"
       "nq_req q = nq_req ?q @ [n]" "nq_count q = nq_count ?q + 1"
       "nq_head q = nq_head ?q" "nq_max q = nq_max ?q"
       "nreq_array p2 = nreq_array pm" and
    asp: "nreq_spares p2 =
       (if nreq_type (nreq_array pm n) \<noteq> NDEV_RECV \<and> unat (nq_count ?q) \<ge> NDEV_SENDQ
        then nreq_spares pm - 1 else nreq_spares pm)"
    by (rule ndev_queue_add_char)
  from a fl fr p1 have fl2: "nreq_freelist p2 = fl"
    by simp
  from inv have ok: "slot_ok (pool s) ?d"
    by (rule ndev_inv_slot_ok)
  then have lt_max: "nq_count ?q < nq_max ?q"
    using ne by (simp add: slot_ok_def queue_ok_def order_less_le)
  have cnt: "unat (nq_count q) = unat (nq_count ?q) + 1"
    using a unat_u8_Suc [OF lt_max] by simp
  have notin: "k \<noteq> n" if "k \<in> set (nq_req (ndev_sendq ?d))" for k
  proof -
    from that have "k \<in># slot_reqs ?d"
      by (simp add: slot_reqs_def)
    from inv_queued_not_free [OF inv this] fl show ?thesis
      by auto
  qed
  show ?thesis
  proof (rule inv_update_slot [OF inv lt res(3)])
    show "slot_ok (pool s') (?d\<lparr>ndev_recvq := q\<rparr>)"
      using ok a cnt lt_max notin
      by (auto simp: slot_ok_def queue_ok_def res fr p1 inc_le)
    show "nreq_type (nreq_array (pool s') k) = nreq_type (nreq_array (pool s) k)"
      if "k \<notin> set (nreq_freelist (pool s))" for k
      using that fl by (auto simp: res a fr p1)
    show "mset (nreq_freelist (pool s')) + slot_reqs (?d\<lparr>ndev_recvq := q\<rparr>) =
          mset (nreq_freelist (pool s)) + slot_reqs ?d"
      by (simp add: res fl2 fl a slot_reqs_def)
    show "unat (nreq_spares (pool s')) + spares_used (?d\<lparr>ndev_recvq := q\<rparr>) =
          unat (nreq_spares (pool s)) + spares_used ?d"
      using asp tn by (simp add: res fr p1 spares_used_def)
    show "nq_max (ndev_sendq (ndev_array s' i)) = 0" if "slot_vacant s' i" for i
    proof (cases "i = slot")
      case True
      with that inv_not_vacant [OF inv act] show ?thesis
        by (simp add: slot_vacant_def res)
    next
      case False
      with that have "slot_vacant s i"
        by (simp add: slot_vacant_def res)
      with inv False show ?thesis
        by (simp add: res ndev_inv_def)
    qed
    show "ndev_max s' \<le> NR_NDEV"
      using inv by (simp add: res ndev_inv_def)
  qed
qed

lemma pool_same [simp]: "s\<lparr>pool := pool s\<rparr> = s"
  by simp

lemma ndev_send_inv:
  assumes inv: "ndev_inv s" and run: "ndev_send nid pbufs grants r s = Inr (res, s')"
  shows "ndev_inv s'"
proof -
  let ?d = "ndev_array s nid"
  from run have lt: "nid < NR_NDEV" and act: "NDEV_ACTIVE ?d"
    by (auto simp: ndev_send_def split: if_splits)
  from run lt act obtain got p1 where
    get: "ndev_queue_get (ndev_sendq ?d) NDEV_SEND (pool s) = Inr (got, p1)"
    by (cases "ndev_queue_get (ndev_sendq ?d) NDEV_SEND (pool s)")
       (auto simp: ndev_send_def bnd_def split: if_splits)
  show ?thesis
  proof (cases got)
    case None
    with get have "p1 = pool s"
      by (simp add: ndev_queue_get_None_same)
    with run get None inv show ?thesis
      by (auto simp: ndev_send_def bnd_def split: if_splits)
  next
    case (Some a)
    then obtain n seq where got: "got = Some (n, seq)"
      by (cases a) simp
    from run get got obtain rt s1 where
      tr: "ndev_transfer nid pbufs True seq n grants r (s\<lparr>pool := p1\<rparr>) = Inr (rt, s1)"
      by (cases "ndev_transfer nid pbufs True seq n grants r (s\<lparr>pool := p1\<rparr>)")
         (auto simp: ndev_send_def bnd_def split: if_splits)
    note fr = ndev_transfer_frame [OF tr]
    have i1: "ndev_inv (s\<lparr>pool := p1\<rparr>)"
      using inv get got by (simp add: inv_get)
    show ?thesis
    proof (cases "rt = OK")
      case False
      with run get got tr have "s' = s1"
        by (auto simp: ndev_send_def bnd_def split: if_splits)
      with i1 fr show ?thesis
        by (intro ndev_inv_frame [OF i1]) simp_all
    next
      case True
      with run get got tr fr obtain q p2 where
        add: "ndev_queue_add (ndev_sendq ?d) n (pool s1) = Inr (q, p2)" and
        s': "s' = s1\<lparr>pool := p2, ndev_array := (ndev_array s1)(nid := (ndev_array s1 nid)\<lparr>ndev_sendq := q\<rparr>)\<rparr>"
        by (cases "ndev_queue_add (ndev_sendq ?d) n (pool s1)")
           (auto simp: ndev_send_def bnd_def split: if_splits)
      show ?thesis
        using fr
        by (intro inv_commit_send [OF inv lt act get [unfolded got] _ _ _ _ add])
           (simp_all add: s')
    qed
  qed
qed

lemma ndev_recv_inv:
  assumes inv: "ndev_inv s" and run: "ndev_recv nid pbufs grants r s = Inr (res, s')"
  shows "ndev_inv s'"
proof -
  let ?d = "ndev_array s nid"
  from run have lt: "nid < NR_NDEV" and act: "NDEV_ACTIVE ?d"
    by (auto simp: ndev_recv_def split: if_splits)
  from run lt act obtain got p1 where
    get: "ndev_queue_get (ndev_recvq ?d) NDEV_RECV (pool s) = Inr (got, p1)"
    by (cases "ndev_queue_get (ndev_recvq ?d) NDEV_RECV (pool s)")
       (auto simp: ndev_recv_def bnd_def split: if_splits)
  show ?thesis
  proof (cases got)
    case None
    with get have "p1 = pool s"
      by (simp add: ndev_queue_get_None_same)
    with run get None inv show ?thesis
      by (auto simp: ndev_recv_def bnd_def split: if_splits)
  next
    case (Some a)
    then obtain n seq where got: "got = Some (n, seq)"
      by (cases a) simp
    from run get got obtain rt s1 where
      tr: "ndev_transfer nid pbufs False seq n grants r (s\<lparr>pool := p1\<rparr>) = Inr (rt, s1)"
      by (cases "ndev_transfer nid pbufs False seq n grants r (s\<lparr>pool := p1\<rparr>)")
         (auto simp: ndev_recv_def bnd_def split: if_splits)
    note fr = ndev_transfer_frame [OF tr]
    have i1: "ndev_inv (s\<lparr>pool := p1\<rparr>)"
      using inv get got by (simp add: inv_get)
    show ?thesis
    proof (cases "rt = OK")
      case False
      with run get got tr have "s' = s1"
        by (auto simp: ndev_recv_def bnd_def split: if_splits)
      with i1 fr show ?thesis
        by (intro ndev_inv_frame [OF i1]) simp_all
    next
      case True
      with run get got tr fr obtain q p2 where
        add: "ndev_queue_add (ndev_recvq ?d) n (pool s1) = Inr (q, p2)" and
        s': "s' = s1\<lparr>pool := p2, ndev_array := (ndev_array s1)(nid := (ndev_array s1 nid)\<lparr>ndev_recvq := q\<rparr>)\<rparr>"
        by (cases "ndev_queue_add (ndev_recvq ?d) n (pool s1)")
           (auto simp: ndev_recv_def bnd_def split: if_splits)
      show ?thesis
        using fr
        by (intro inv_commit_recv [OF inv lt act get [unfolded got] _ _ _ add])
           (simp_all add: s')
    qed
  qed
qed

lemma ndev_conf_shape:
  assumes run: "ndev_conf nid nconf grants r s = Inr (res, s')"
    and get: "ndev_queue_get (ndev_sendq (ndev_array s nid)) NDEV_CONF (pool s) = Inr (Some (n, seq), p1)"
  shows "(\<exists>live. res = ENOMEM \<and> s' = s\<lparr>pool := p1\<lparr>cpf_grants := live\<rparr>\<rparr>) \<or>
         (\<exists>pm q p3.
            nreq_freelist pm = nreq_freelist p1 \<and> nreq_spares pm = nreq_spares p1 \<and>
            (\<forall>k. nreq_type (nreq_array pm k) = nreq_type (nreq_array p1 k)) \<and>
            ndev_queue_add (ndev_sendq (ndev_array s nid)) n pm = Inr (q, p3) \<and>
            res = OK \<and> pool s' = p3 \<and> ndev_max s' = ndev_max s \<and>
            ndev_pending s' = ndev_pending s \<and>
            ndev_array s' = (ndev_array s)(nid := (ndev_array s nid)\<lparr>ndev_sendq := q\<rparr>))"
proof -
  define mcast where "mcast = (nconf_set nconf AND NDEV_SET_MODE \<noteq> 0 \<and>
                           nconf_mode nconf AND NDEV_MODE_MCAST_LIST \<noteq> 0)"
  define gl where "gl = (if mcast then cpf_grant_direct grants (cpf_grants p1)
                          else (GRANT_INVALID, cpf_grants p1))"
  define pm where "pm = p1\<lparr>cpf_grants := snd gl,
     nreq_array := (nreq_array p1)(n := (nreq_array p1 n)\<lparr>nreq_grant :=
         (nreq_grant (nreq_array p1 n))(0 := fst gl, 1 := GRANT_INVALID)\<rparr>)\<rparr>"
  show ?thesis
  proof (cases "mcast \<and> \<not> GRANT_VALID (fst gl)")
    case True
    with run get have "res = ENOMEM \<and> s' = s\<lparr>pool := p1\<lparr>cpf_grants := snd gl\<rparr>\<rparr>"
      by (auto simp: ndev_conf_def bnd_def Let_def mcast_def gl_def split: if_splits prod.splits)
    then show ?thesis by blast
  next
    case False
    with run get obtain q p3 where
      "ndev_queue_add (ndev_sendq (ndev_array s nid)) n pm = Inr (q, p3)"
      "res = OK" "pool s' = p3" "ndev_max s' = ndev_max s" "ndev_pending s' = ndev_pending s"
      "ndev_array s' = (ndev_array s)(nid := (ndev_array s nid)\<lparr>ndev_sendq := q\<rparr>)"
      by (cases "ndev_queue_add (ndev_sendq (ndev_array s nid)) n pm")
         (auto simp: ndev_conf_def bnd_def Let_def mcast_def gl_def pm_def emit_def
               split: if_splits prod.splits)
    moreover have "nreq_freelist pm = nreq_freelist p1 \<and> nreq_spares pm = nreq_spares p1 \<and>
            (\<forall>k. nreq_type (nreq_array pm k) = nreq_type (nreq_array p1 k))"
      by (simp add: pm_def)
    ultimately show ?thesis by blast
  qed
qed

lemma ndev_conf_inv:
  assumes inv: "ndev_inv s" and run: "ndev_conf nid nconf grants r s = Inr (res, s')"
  shows "ndev_inv s'"
proof -
  let ?d = "ndev_array s nid"
  from run have lt: "nid < NR_NDEV" and act: "NDEV_ACTIVE ?d"
    by (auto simp: ndev_conf_def split: if_splits)
  from run lt act obtain got p1 where
    get: "ndev_queue_get (ndev_sendq ?d) NDEV_CONF (pool s) = Inr (got, p1)"
    by (cases "ndev_queue_get (ndev_sendq ?d) NDEV_CONF (pool s)")
       (auto simp: ndev_conf_def bnd_def split: if_splits)
  show ?thesis
  proof (cases got)
    case None
    with get have "p1 = pool s"
      by (simp add: ndev_queue_get_None_same)
    with run get None inv show ?thesis
      by (auto simp: ndev_conf_def bnd_def split: if_splits)
  next
    case (Some a)
    then obtain n seq where got: "got = Some (n, seq)"
      by (cases a) simp
    have i1: "ndev_inv (s\<lparr>pool := p1\<rparr>)"
      using inv get got by (simp add: inv_get)
    from ndev_conf_shape [OF run get [unfolded got]] show ?thesis
    proof (elim disjE exE conjE)
      fix live
      assume "s' = s\<lparr>pool := p1\<lparr>cpf_grants := live\<rparr>\<rparr>"
      then show ?thesis
        by (intro ndev_inv_frame [OF i1]) simp_all
    next
      fix pm q p3
      assume "nreq_freelist pm = nreq_freelist p1" "nreq_spares pm = nreq_spares p1"
        "\<forall>k. nreq_type (nreq_array pm k) = nreq_type (nreq_array p1 k)"
        "ndev_queue_add (ndev_sendq ?d) n pm = Inr (q, p3)"
        "pool s' = p3" "ndev_max s' = ndev_max s"
        "ndev_array s' = (ndev_array s)(nid := ?d\<lparr>ndev_sendq := q\<rparr>)"
      then show ?thesis
        by (intro inv_commit_send [OF inv lt act get [unfolded got], where pm = pm and q = q and ?p2.0 = p3])
           simp_all
    qed
  qed
qed

lemma ndev_call_inv:
  "ndev_inv s \<Longrightarrow> ndev_call c s = Inr s' \<Longrightarrow> ndev_inv s'"
  by (cases c)
     (auto simp: bnd_def split: sum.splits prod.splits
           dest: ndev_conf_inv ndev_send_inv ndev_recv_inv)

lemma run_upcalls_inv:
  "ndev_inv s \<Longrightarrow> run_upcalls cs s = Inr s' \<Longrightarrow> ndev_inv s'"
proof (induction cs arbitrary: s)
  case Nil
  then show ?case by simp
next
  case (Cons c cs)
  from Cons.prems(2) obtain s1 where
    c: "ndev_call c s = Inr s1" and r: "run_upcalls cs s1 = Inr s'"
    by (cases "ndev_call c s") (simp_all add: bnd_def)
  from Cons.IH [OF ndev_call_inv [OF Cons.prems(1) c] r] show ?case .
qed

lemma ndev_queue_remove_char:
  assumes "ndev_queue_remove q type seq p = Inr (b, q', p')"
  shows "(\<not> b \<longrightarrow> q' = q \<and> p' = p) \<and>
         (b \<longrightarrow> 0 < nq_count q \<and> nq_head q = seq \<and> head_type p q = Some type \<and>
                ndev_queue_advance q p = Inr (q', p'))"
  using assms
  by (auto simp: ndev_queue_remove_def head_type_def bnd_def unat_gt_0 word_greater_zero_iff
           split: list.splits if_splits sum.splits)

lemma inv_advance_send:
  assumes inv: "ndev_inv s" and lt: "slot < NR_NDEV"
    and pos: "0 < nq_count (ndev_sendq (ndev_array s slot))"
    and adv: "ndev_queue_advance (ndev_sendq (ndev_array s slot)) (pool s) = Inr (q, p2)"
    and res: "pool s' = p2" "ndev_max s' = ndev_max s"
             "ndev_array s' = (ndev_array s)(slot := (ndev_array s slot)\<lparr>ndev_sendq := q\<rparr>)"
  shows "ndev_inv s'"
proof -
  let ?d = "ndev_array s slot"
  let ?q = "ndev_sendq ?d"
  from adv obtain n rest where
    a: "nq_req ?q = n # rest" "nq_req q = rest" "nq_head q = nq_head ?q + 1"
       "nq_count q = nq_count ?q - 1" "nq_max q = nq_max ?q"
       "nreq_array p2 = nreq_array (pool s)" "nreq_freelist p2 = n # nreq_freelist (pool s)" and
    asp: "nreq_spares p2 =
       (if nreq_type (nreq_array (pool s) n) \<noteq> NDEV_RECV \<and> unat (nq_count ?q) > NDEV_SENDQ
        then nreq_spares (pool s) + 1 else nreq_spares (pool s))"
    by (rule ndev_queue_advance_char)
  from inv have ok: "slot_ok (pool s) ?d"
    by (rule ndev_inv_slot_ok)
  have cnt: "unat (nq_count q) = unat (nq_count ?q) - 1" and pos': "unat (nq_count ?q) > 0"
    using a unat_u8_pred [OF pos] pos by (simp_all add: unat_gt_0 word_greater_zero_iff)
  have le: "nq_count q \<le> nq_max q"
    using ok cnt a by (simp add: slot_ok_def queue_ok_def word_le_nat_alt)
  have tn: "nreq_type (nreq_array (pool s) n) \<noteq> NDEV_RECV"
    using ok a by (simp add: slot_ok_def)
  show ?thesis
  proof (rule inv_update_slot [OF inv lt res(3)])
    show "slot_ok (pool s') (?d\<lparr>ndev_sendq := q\<rparr>)"
      using ok a cnt le by (auto simp: slot_ok_def queue_ok_def res)
    show "nreq_type (nreq_array (pool s') k) = nreq_type (nreq_array (pool s) k)" for k
      by (simp add: res a)
    show "mset (nreq_freelist (pool s')) + slot_reqs (?d\<lparr>ndev_sendq := q\<rparr>) =
          mset (nreq_freelist (pool s)) + slot_reqs ?d"
      by (simp add: res a slot_reqs_def)
    show "unat (nreq_spares (pool s')) + spares_used (?d\<lparr>ndev_sendq := q\<rparr>) =
          unat (nreq_spares (pool s)) + spares_used ?d"
    proof (cases "unat (nq_count ?q) > NDEV_SENDQ")
      case True
      with ndev_inv_spares_bound [OF inv lt] have "unat (nreq_spares (pool s)) < NREQ_SPARES"
        by (simp add: spares_used_def)
      then have "unat (nreq_spares (pool s) + 1) = unat (nreq_spares (pool s)) + 1"
        by (rule unat_spares_Suc)
      with True asp tn cnt show ?thesis
        by (simp add: res spares_used_def)
    next
      case False
      with asp cnt show ?thesis
        by (simp add: res spares_used_def)
    qed
    show "nq_max (ndev_sendq (ndev_array s' i)) = 0" if "slot_vacant s' i" for i
    proof -
      from that have "slot_vacant s i"
        by (auto simp: slot_vacant_def res split: if_splits)
      with inv a show ?thesis
        by (auto simp: res ndev_inv_def)
    qed
    show "ndev_max s' \<le> NR_NDEV"
      using inv by (simp add: res ndev_inv_def)
  qed
qed

lemma inv_advance_recv:
  assumes inv: "ndev_inv s" and lt: "slot < NR_NDEV"
    and pos: "0 < nq_count (ndev_recvq (ndev_array s slot))"
    and adv: "ndev_queue_advance (ndev_recvq (ndev_array s slot)) (pool s) = Inr (q, p2)"
    and res: "pool s' = p2" "ndev_max s' = ndev_max s"
             "ndev_array s' = (ndev_array s)(slot := (ndev_array s slot)\<lparr>ndev_recvq := q\<rparr>)"
  shows "ndev_inv s'"
proof -
  let ?d = "ndev_array s slot"
  let ?q = "ndev_recvq ?d"
  from adv obtain n rest where
    a: "nq_req ?q = n # rest" "nq_req q = rest" "nq_head q = nq_head ?q + 1"
       "nq_count q = nq_count ?q - 1" "nq_max q = nq_max ?q"
       "nreq_array p2 = nreq_array (pool s)" "nreq_freelist p2 = n # nreq_freelist (pool s)" and
    asp: "nreq_spares p2 =
       (if nreq_type (nreq_array (pool s) n) \<noteq> NDEV_RECV \<and> unat (nq_count ?q) > NDEV_SENDQ
        then nreq_spares (pool s) + 1 else nreq_spares (pool s))"
    by (rule ndev_queue_advance_char)
  from inv have ok: "slot_ok (pool s) ?d"
    by (rule ndev_inv_slot_ok)
  have cnt: "unat (nq_count q) = unat (nq_count ?q) - 1" and pos': "unat (nq_count ?q) > 0"
    using a unat_u8_pred [OF pos] pos by (simp_all add: unat_gt_0 word_greater_zero_iff)
  have le: "nq_count q \<le> nq_max q"
    using ok cnt a by (simp add: slot_ok_def queue_ok_def word_le_nat_alt)
  have small: "\<not> unat (nq_count ?q) > NDEV_SENDQ"
    using ok by (simp add: slot_ok_def queue_ok_def word_le_nat_alt NDEV_SENDQ_def NDEV_RECVQ_def)
  show ?thesis
  proof (rule inv_update_slot [OF inv lt res(3)])
    show "slot_ok (pool s') (?d\<lparr>ndev_recvq := q\<rparr>)"
      using ok a cnt le by (auto simp: slot_ok_def queue_ok_def res)
    show "nreq_type (nreq_array (pool s') k) = nreq_type (nreq_array (pool s) k)" for k
      by (simp add: res a)
    show "mset (nreq_freelist (pool s')) + slot_reqs (?d\<lparr>ndev_recvq := q\<rparr>) =
          mset (nreq_freelist (pool s)) + slot_reqs ?d"
      by (simp add: res a slot_reqs_def)
    show "unat (nreq_spares (pool s')) + spares_used (?d\<lparr>ndev_recvq := q\<rparr>) =
          unat (nreq_spares (pool s)) + spares_used ?d"
      using asp small by (simp add: res spares_used_def)
    show "nq_max (ndev_sendq (ndev_array s' i)) = 0" if "slot_vacant s' i" for i
    proof -
      from that have "slot_vacant s i"
        by (auto simp: slot_vacant_def res split: if_splits)
      with inv show ?thesis
        by (auto simp: res ndev_inv_def)
    qed
    show "ndev_max s' \<le> NR_NDEV"
      using inv by (simp add: res ndev_inv_def)
  qed
qed

lemma ndev_conf_reply_inv:
  assumes inv: "ndev_inv s" and lt: "slot < NR_NDEV" and run: "ndev_conf_reply slot m s = Inr s'"
  shows "ndev_inv s'"
proof (cases "NDEV_ACTIVE (ndev_array s slot)")
  case False
  with run inv show ?thesis
    by (simp add: ndev_conf_reply_def)
next
  case True
  let ?d = "ndev_array s slot"
  from run True obtain b q p where
    rm: "ndev_queue_remove (ndev_sendq ?d) NDEV_CONF (rp_id (m_netdriver_ndev_reply m)) (pool s) = Inr (b, q, p)"
    by (cases "ndev_queue_remove (ndev_sendq ?d) NDEV_CONF (rp_id (m_netdriver_ndev_reply m)) (pool s)")
       (auto simp: ndev_conf_reply_def bnd_def)
  note c = ndev_queue_remove_char [OF rm]
  show ?thesis
  proof (cases b)
    case False
    with c run rm True have "s' = s"
      by (simp add: ndev_conf_reply_def bnd_def)
    with inv show ?thesis by simp
  next
    case b: True
    with run rm True have
      "pool s' = p \<and> ndev_max s' = ndev_max s \<and>
       ndev_array s' = (ndev_array s)(slot := ?d\<lparr>ndev_sendq := q\<rparr>)"
      by (auto simp: ndev_conf_reply_def bnd_def Let_def split: option.splits)
    with c b show ?thesis
      by (intro inv_advance_send [OF inv lt, where q = q and ?p2.0 = p]) simp_all
  qed
qed

lemma ndev_send_reply_inv:
  assumes inv: "ndev_inv s" and lt: "slot < NR_NDEV" and run: "ndev_send_reply slot m s = Inr s'"
  shows "ndev_inv s'"
proof (cases "NDEV_ACTIVE (ndev_array s slot)")
  case False
  with run inv show ?thesis
    by (simp add: ndev_send_reply_def)
next
  case True
  let ?d = "ndev_array s slot"
  from run True obtain b q p where
    rm: "ndev_queue_remove (ndev_sendq ?d) NDEV_SEND (rp_id (m_netdriver_ndev_reply m)) (pool s) = Inr (b, q, p)"
    by (cases "ndev_queue_remove (ndev_sendq ?d) NDEV_SEND (rp_id (m_netdriver_ndev_reply m)) (pool s)")
       (auto simp: ndev_send_reply_def bnd_def)
  note c = ndev_queue_remove_char [OF rm]
  show ?thesis
  proof (cases b)
    case False
    with c run rm True have "s' = s"
      by (simp add: ndev_send_reply_def bnd_def)
    with inv show ?thesis by simp
  next
    case b: True
    with run rm True have
      "pool s' = p \<and> ndev_max s' = ndev_max s \<and>
       ndev_array s' = (ndev_array s)(slot := ?d\<lparr>ndev_sendq := q\<rparr>)"
      by (auto simp: ndev_send_reply_def bnd_def Let_def split: option.splits)
    with c b show ?thesis
      by (intro inv_advance_send [OF inv lt, where q = q and ?p2.0 = p]) simp_all
  qed
qed

lemma ndev_recv_reply_inv:
  assumes inv: "ndev_inv s" and lt: "slot < NR_NDEV" and run: "ndev_recv_reply slot m s = Inr s'"
  shows "ndev_inv s'"
proof (cases "NDEV_ACTIVE (ndev_array s slot)")
  case False
  with run inv show ?thesis
    by (simp add: ndev_recv_reply_def)
next
  case True
  let ?d = "ndev_array s slot"
  from run True obtain b q p where
    rm: "ndev_queue_remove (ndev_recvq ?d) NDEV_RECV (rp_id (m_netdriver_ndev_reply m)) (pool s) = Inr (b, q, p)"
    by (cases "ndev_queue_remove (ndev_recvq ?d) NDEV_RECV (rp_id (m_netdriver_ndev_reply m)) (pool s)")
       (auto simp: ndev_recv_reply_def bnd_def)
  note c = ndev_queue_remove_char [OF rm]
  show ?thesis
  proof (cases b)
    case False
    with c run rm True have "s' = s"
      by (simp add: ndev_recv_reply_def bnd_def)
    with inv show ?thesis by simp
  next
    case b: True
    with run rm True have
      "pool s' = p \<and> ndev_max s' = ndev_max s \<and>
       ndev_array s' = (ndev_array s)(slot := ?d\<lparr>ndev_recvq := q\<rparr>)"
      by (auto simp: ndev_recv_reply_def bnd_def Let_def split: option.splits)
    with c b show ?thesis
      by (intro inv_advance_recv [OF inv lt, where q = q and ?p2.0 = p]) simp_all
  qed
qed

lemma ndev_status_inv:
  "ndev_inv s \<Longrightarrow> ndev_status slot m r s = Inr s' \<Longrightarrow> ndev_inv s'"
  by (auto simp: ndev_status_def Let_def split: if_splits option.splits)

lemma ndev_init_reply_ignored:
  "\<not> init_reply_for_us s slot m \<Longrightarrow> ndev_init_reply slot m env s = Inr s"
  by (auto simp: ndev_init_reply_def init_reply_for_us_def Let_def)

lemma ndev_init_reply_invalid:
  assumes "init_reply_for_us s slot m" and "\<not> init_reply_valid m"
  shows "\<exists>msg. ndev_init_reply slot m env s = ndev_down slot (emit (Printf msg [m_source m]) s)"
  using assms
  by (auto simp: ndev_init_reply_def init_reply_for_us_def init_reply_valid_def Let_def
           split: list.splits)

lemma ndev_init_reply_valid:
  assumes "init_reply_for_us s slot m" and "init_reply_valid m"
  shows "ndev_init_reply slot m env s =
     (let ir = m_netdriver_ndev_init_reply m;
          s1 = after_ethif_add slot m env s
      in case ndev_ethif (ndev_array s1 slot) of
           None \<Rightarrow> ndev_down slot s1
         | Some e \<Rightarrow>
             bnd (ethif_enable (pe_upcalls env) (pe_enable env)
                    (Ethif_enable e
                       (case ndev_ethif (ndev_array s slot) of
                          None \<Rightarrow> None
                        | Some _ \<Rightarrow> Some (takeWhile (\<lambda>c. c \<noteq> NUL) (ir_name ir)))
                       (take NDEV_HWADDR_MAX
                          (take (unat (ir_hwaddr_len ir)) (ir_hwaddr ir) @
                           replicate NDEV_HWADDR_MAX 0))
                       (ir_hwaddr_len ir) (ir_caps ir) (ir_link ir) (ir_media ir))
                    (set_queue_maxes slot (ir_max_send ir) (ir_max_recv ir) s1))
               (\<lambda>(enabled, s3). init_reply_finish slot enabled s3))"
  using assms
  by (auto simp: ndev_init_reply_def init_reply_for_us_def init_reply_valid_def Let_def
                 after_ethif_add_def init_reply_finish_def
           split: list.splits option.splits)

lemma inv_set_ethif:
  assumes "ndev_inv s" and "nq_max (ndev_sendq (ndev_array s slot)) = 0"
  shows "ndev_inv (s\<lparr>ndev_array := (ndev_array s)(slot := (ndev_array s slot)\<lparr>ndev_ethif := x\<rparr>)\<rparr>)"
proof -
  let ?s' = "s\<lparr>ndev_array := (ndev_array s)(slot := (ndev_array s slot)\<lparr>ndev_ethif := x\<rparr>)\<rparr>"
  have eq: "slot_reqs (ndev_array ?s' i) = slot_reqs (ndev_array s i)"
           "spares_used (ndev_array ?s' i) = spares_used (ndev_array s i)"
           "nq_max (ndev_sendq (ndev_array ?s' i)) = nq_max (ndev_sendq (ndev_array s i))"
           "slot_vacant ?s' i = slot_vacant s i" for i
    by (simp_all add: slot_reqs_def spares_used_def slot_vacant_def)
  have ok: "slot_ok p (ndev_array s i) \<Longrightarrow> slot_ok p (ndev_array ?s' i)" for i p
    using assms(2) by (auto simp: slot_ok_def)
  from assms(1) show ?thesis
    unfolding ndev_inv_def owned_def eq
    using ok by (auto simp del: fun_upd_apply)
qed

lemma after_ethif_add_inv:
  assumes "ndev_inv s" and "\<not> NDEV_ACTIVE (ndev_array s slot)"
  shows "ndev_inv (after_ethif_add slot m env s)"
proof (cases "ndev_ethif (ndev_array s slot)")
  case None
  have "ndev_inv (s\<lparr>ndev_array := (ndev_array s)(slot := (ndev_array s slot)\<lparr>ndev_ethif := pe_add env\<rparr>)\<rparr>)"
    using assms by (intro inv_set_ethif) (simp_all add: NDEV_ACTIVE_def word_greater_zero_iff)
  then show ?thesis
    using None by (intro ndev_inv_frame [OF \<open>ndev_inv (s\<lparr>ndev_array := _\<rparr>)\<close>])
                  (simp_all add: after_ethif_add_def)
next
  case (Some a)
  with assms show ?thesis
    by (simp add: after_ethif_add_def)
qed

lemma after_ethif_add_fields:
  "pool (after_ethif_add slot m env s) = pool s"
  "ndev_max (after_ethif_add slot m env s) = ndev_max s"
  "ndev_pending (after_ethif_add slot m env s) = ndev_pending s"
  "ndev_endpt (ndev_array (after_ethif_add slot m env s) i) = ndev_endpt (ndev_array s i)"
  "ndev_sendq (ndev_array (after_ethif_add slot m env s) i) = ndev_sendq (ndev_array s i)"
  "ndev_recvq (ndev_array (after_ethif_add slot m env s) i) = ndev_recvq (ndev_array s i)"
  by (simp_all add: after_ethif_add_def split: option.splits)

lemma inv_set_queue_maxes:
  assumes inv: "ndev_inv s" and lt: "slot < NR_NDEV"
    and nv: "\<not> slot_vacant s slot" and na: "\<not> NDEV_ACTIVE (ndev_array s slot)"
    and eth: "ndev_ethif (ndev_array s slot) \<noteq> None"
    and ms: "1 \<le> unat max_send" and mr: "1 \<le> unat max_recv"
  shows "ndev_inv (set_queue_maxes slot max_send max_recv s)"
proof -
  let ?d = "ndev_array s slot"
  define sq where "sq = (ndev_sendq ?d)\<lparr>nq_max := max_send, nq_head := nq_head (ndev_sendq ?d) + 1\<rparr>"
  define mr' where "mr' = (if unat max_recv > NDEV_RECVQ then of_nat NDEV_RECVQ else max_recv)"
  define rq where "rq = (ndev_recvq ?d)\<lparr>nq_max := mr', nq_head := nq_head (ndev_recvq ?d) + 1\<rparr>"
  let ?s' = "set_queue_maxes slot max_send max_recv s"
  have s': "?s' = s\<lparr>ndev_array := (ndev_array s)(slot := ?d\<lparr>ndev_sendq := sq, ndev_recvq := rq\<rparr>)\<rparr>"
    by (simp add: set_queue_maxes_def Let_def sq_def rq_def mr'_def)
  from inv have ok: "slot_ok (pool s) ?d"
    by (rule ndev_inv_slot_ok)
  from na have m0: "nq_max (ndev_sendq ?d) = 0"
    by (simp add: NDEV_ACTIVE_def word_greater_zero_iff)
  with ok have z: "nq_count (ndev_sendq ?d) = 0" "nq_count (ndev_recvq ?d) = 0"
    by (auto simp: slot_ok_def queue_ok_def)
  have mr'b: "unat mr' \<le> NDEV_RECVQ"
    by (simp add: mr'_def NDEV_RECVQ_def)
  have ms0: "max_send \<noteq> 0"
    using ms by (auto simp: unat_eq_zero)
  show ?thesis
  proof (rule inv_update_slot [OF inv lt])
    show "ndev_array ?s' = (ndev_array s)(slot := ?d\<lparr>ndev_sendq := sq, ndev_recvq := rq\<rparr>)"
      by (simp add: s')
    show "slot_ok (pool ?s') (?d\<lparr>ndev_sendq := sq, ndev_recvq := rq\<rparr>)"
      using ok z mr'b ms0 eth by (auto simp: s' slot_ok_def queue_ok_def sq_def rq_def)
    show "nreq_type (nreq_array (pool ?s') n) = nreq_type (nreq_array (pool s) n)" for n
      by (simp add: s')
    show "mset (nreq_freelist (pool ?s')) + slot_reqs (?d\<lparr>ndev_sendq := sq, ndev_recvq := rq\<rparr>) =
          mset (nreq_freelist (pool s)) + slot_reqs ?d"
      by (simp add: s' slot_reqs_def sq_def rq_def)
    show "unat (nreq_spares (pool ?s')) + spares_used (?d\<lparr>ndev_sendq := sq, ndev_recvq := rq\<rparr>) =
          unat (nreq_spares (pool s)) + spares_used ?d"
      by (simp add: s' spares_used_def sq_def)
    show "nq_max (ndev_sendq (ndev_array ?s' i)) = 0" if "slot_vacant ?s' i" for i
    proof -
      from that have v: "slot_vacant s i"
        by (auto simp: slot_vacant_def s' split: if_splits)
      with nv have "i \<noteq> slot" by auto
      with inv v show ?thesis
        by (simp add: s' ndev_inv_def)
    qed
    show "ndev_max ?s' \<le> NR_NDEV"
      using inv by (simp add: s' ndev_inv_def)
  qed
qed

lemma ethif_enable_inv:
  "ndev_inv s \<Longrightarrow> ethif_enable calls en ev s = Inr (en', s') \<Longrightarrow> ndev_inv s'"
  by (auto simp: ethif_enable_def bnd_def split: sum.splits intro: run_upcalls_inv [rotated])

lemma init_reply_finish_inv:
  "ndev_inv s \<Longrightarrow> slot < NR_NDEV \<Longrightarrow> init_reply_finish slot en s = Inr s' \<Longrightarrow> ndev_inv s'"
  by (auto simp: init_reply_finish_def split: if_splits intro: ndev_down_inv)

lemma ndev_init_reply_inv:
  assumes inv: "ndev_inv s" and lt: "slot < ndev_max s"
    and ep: "ndev_endpt (ndev_array s slot) \<noteq> NONE"
    and run: "ndev_init_reply slot m env s = Inr s'"
  shows "ndev_inv s'"
proof -
  from inv lt have lt': "slot < NR_NDEV"
    by (simp add: ndev_inv_def)
  show ?thesis
  proof (cases "init_reply_for_us s slot m")
    case False
    with run inv show ?thesis
      by (simp add: ndev_init_reply_ignored)
  next
    case us: True
    show ?thesis
    proof (cases "init_reply_valid m")
      case False
      from ndev_init_reply_invalid [OF us False, of env] run obtain msg where
        "ndev_down slot (emit (Printf msg [m_source m]) s) = Inr s'"
        by auto
      then show ?thesis
        using inv lt' by (intro ndev_down_inv [of "emit (Printf msg [m_source m]) s" slot s']) simp_all
    next
      case valid: True
      define s1 where "s1 = after_ethif_add slot m env s"
      from us have na: "\<not> NDEV_ACTIVE (ndev_array s slot)"
        by (simp add: init_reply_for_us_def)
      have i1: "ndev_inv s1"
        unfolding s1_def using inv na by (rule after_ethif_add_inv)
      show ?thesis
      proof (cases "ndev_ethif (ndev_array s1 slot)")
        case None
        with run have "ndev_down slot s1 = Inr s'"
          by (simp add: ndev_init_reply_valid [OF us valid] Let_def s1_def)
        with i1 lt' show ?thesis
          by (intro ndev_down_inv [of s1 slot s'])
      next
        case (Some e)
        with run obtain en s3 where
          en: "ethif_enable (pe_upcalls env) (pe_enable env)
                 (Ethif_enable e
                    (case ndev_ethif (ndev_array s slot) of
                       None \<Rightarrow> None
                     | Some _ \<Rightarrow> Some (takeWhile (\<lambda>c. c \<noteq> NUL) (ir_name (m_netdriver_ndev_init_reply m))))
                    (take NDEV_HWADDR_MAX
                       (take (unat (ir_hwaddr_len (m_netdriver_ndev_init_reply m)))
                          (ir_hwaddr (m_netdriver_ndev_init_reply m)) @
                        replicate NDEV_HWADDR_MAX 0))
                    (ir_hwaddr_len (m_netdriver_ndev_init_reply m))
                    (ir_caps (m_netdriver_ndev_init_reply m))
                    (ir_link (m_netdriver_ndev_init_reply m))
                    (ir_media (m_netdriver_ndev_init_reply m)))
                 (set_queue_maxes slot (ir_max_send (m_netdriver_ndev_init_reply m))
                    (ir_max_recv (m_netdriver_ndev_init_reply m)) s1) = Inr (en, s3)" and
          fin: "init_reply_finish slot en s3 = Inr s'"
          by (auto simp: ndev_init_reply_valid [OF us valid] Let_def s1_def bnd_def
                   split: sum.splits)
        have "ndev_inv (set_queue_maxes slot (ir_max_send (m_netdriver_ndev_init_reply m))
                    (ir_max_recv (m_netdriver_ndev_init_reply m)) s1)"
        proof (rule inv_set_queue_maxes [OF i1 lt'])
          show "\<not> slot_vacant s1 slot"
            using lt ep by (simp add: slot_vacant_def s1_def after_ethif_add_fields)
          show "\<not> NDEV_ACTIVE (ndev_array s1 slot)"
            using na by (simp add: NDEV_ACTIVE_def s1_def after_ethif_add_fields)
          show "ndev_ethif (ndev_array s1 slot) \<noteq> None"
            using Some by simp
          show "1 \<le> unat (ir_max_send (m_netdriver_ndev_init_reply m))"
            "1 \<le> unat (ir_max_recv (m_netdriver_ndev_init_reply m))"
            using valid by (simp_all add: init_reply_valid_def Let_def)
        qed
        from ethif_enable_inv [OF this en] have "ndev_inv s3" .
        from init_reply_finish_inv [OF this lt' fin] show ?thesis .
      qed
    qed
  qed
qed

lemma find_slot_Some:
  "find_slot arr endpt slots = Some slot \<Longrightarrow> slot \<in> set slots \<and> ndev_endpt (arr slot) = endpt"
  by (induction slots) (auto split: if_splits)

lemma ndev_process_inv:
  assumes inv: "ndev_inv s" and src: "m_source m \<noteq> NONE" and run: "ndev_process m env s = Inr s'"
  shows "ndev_inv s'"
proof (cases "find_slot (ndev_array s) (m_source m) [0..<ndev_max s]")
  case None
  with run inv show ?thesis
    by (simp add: ndev_process_def)
next
  case (Some slot)
  from find_slot_Some [OF Some] src have lt: "slot < ndev_max s"
    and ep: "ndev_endpt (ndev_array s slot) \<noteq> NONE"
    by auto
  from inv lt have lt': "slot < NR_NDEV"
    by (simp add: ndev_inv_def)
  from run Some inv lt' lt ep show ?thesis
    by (cases "m_type m")
       (auto simp: ndev_process_def
             intro: ndev_init_reply_inv ndev_conf_reply_inv ndev_send_reply_inv
                    ndev_recv_reply_inv ndev_status_inv)
qed

lemma ndev_event_inv:
  "ndev_inv s \<Longrightarrow> event_ok ev \<Longrightarrow> ndev_event ev s = Inr s' \<Longrightarrow> ndev_inv s'"
  by (cases ev) (auto intro: ndev_check_inv ndev_process_inv ndev_call_inv)

lemma boot_inv: "ndev_inv boot"
proof -
  have "(\<Sum>slot<NR_NDEV. slot_reqs (ndev_array boot slot)) = {#}"
    by (simp add: boot_def slot_reqs_def)
  moreover have "(\<Sum>slot<NR_NDEV. spares_used (ndev_array boot slot)) = 0"
    by (simp add: boot_def spares_used_def)
  ultimately show ?thesis
    by (simp add: ndev_inv_def owned_def slot_ok_def queue_ok_def slot_vacant_def)
       (simp add: boot_def NREQ_SPARES_def)
qed

lemma reachable_inv: "reachable s \<Longrightarrow> ndev_inv s"
proof (induction rule: reachable.induct)
  case (reachable_init s)
  then show ?case
    using boot_inv by (simp add: ndev_init_def)
next
  case (reachable_step s ev s')
  then show ?case
    by (blast intro: ndev_event_inv)
qed

lemma reachable_run:
  "reachable s \<Longrightarrow> list_all event_ok evs \<Longrightarrow> run evs s = Inr s' \<Longrightarrow> reachable s'"
proof (induction evs arbitrary: s)
  case Nil
  then show ?case by simp
next
  case (Cons ev evs)
  from Cons.prems(3) obtain s1 where
    e: "ndev_event ev s = Inr s1" and r: "run evs s1 = Inr s'"
    by (cases "ndev_event ev s") (simp_all add: bnd_def)
  from Cons.prems(1,2) e have "reachable s1"
    by (auto intro: reachable_step)
  from Cons.IH [OF this _ r] Cons.prems(2) show ?case
    by simp
qed

lemma reachable_boot: "reachable boot"
  by (rule reachable_init) (simp add: ndev_init_def)

section \<open>Evaluating runs\<close>

text \<open>Runs on concrete inputs are evaluated by rewriting, one call after the other: the
  congruence rule keeps the simplifier out of a continuation until its argument is a
  value.\<close>

lemma bnd_Inr: "bnd (Inr v) f = f v"
  by (simp add: bnd_def)

lemma bnd_Inl: "bnd (Inl e) f = Inl e"
  by (simp add: bnd_def)

lemma bnd_weak_cong: "x = x' \<Longrightarrow> bnd x f = bnd x' f"
  by simp

lemma boot_freelist:
  "[0..<NR_NREQ] = [0, 1, 2, 3, 4, 5, 6, 7, 8, 9, 10, 11, 12, 13, 14, 15, 16, 17, 18, 19, 20,
     21, 22, 23, 24, 25, 26, 27, 28, 29, 30, 31, 32, 33, 34, 35, 36, 37, 38, 39]"
  by code_simp

lemma upt_small: "[0..<1] = [0]" "[0..<0] = []"
  by simp_all

lemma upt_iov: "[0..<8] = [0, 1, 2, 3, 4, 5, 6, 7::nat]"
  by code_simp

lemmas ndev_eval =
  demo_burst_def demo_small_def
  demo_cold_start_def demo_up_def demo_init_reply_def demo_message_def demo_name_def demo_env_def
  demo_pbuf_def demo_nconf_def boot_def boot_freelist upt_small upt_iov
  ndev_check_def ndev_up_def ndev_send_init_def reset_queues_def ndev_down_def
  ndev_queue_reset.simps ndev_queue_init_def ndev_queue_advance_def ndev_queue_get_def
  ndev_queue_add_def ndev_queue_remove_def
  ndev_process_def ndev_init_reply_def ndev_conf_reply_def ndev_send_reply_def ndev_recv_reply_def
  ndev_status_def ethif_enable_def set_queue_maxes_def init_reply_finish_def
  ndev_send_def ndev_recv_def ndev_conf_def ndev_transfer_def transfer_grants.simps
  cpf_grant_direct_def cpf_revoke_def conf_request_def
  check_sweep.simps
  bnd_Inr bnd_Inl emit_def Let_def NDEV_ACTIVE_def
  NR_NDEV_def NDEV_SENDQ_def NDEV_RECVQ_def NREQ_SPARES_def NDEV_IOV_MAX_def
  NDEV_HWADDR_MAX_def LABEL_MAX_def NONE_def GRANT_INVALID_def GRANT_VALID_def DS_DRIVER_UP_def NUL_def

section \<open>The spare pool\<close>

lemma spares_used_int:
  "int (spares_used d) = max 0 (int (unat (nq_count (ndev_sendq d))) - int NDEV_SENDQ)"
  unfolding spares_used_def
  by (cases "NDEV_SENDQ \<le> unat (nq_count (ndev_sendq d))") (simp_all add: of_nat_diff del: of_nat_unat)

text \<open>
  Claim C3. In every reachable state the number of free spares is \<open>NREQ_SPARES\<close>
  minus the sum, over all driver slots, of \<open>max(0, count - NDEV_SENDQ)\<close> for the
  slot's send queue. As the reachable states are closed under every event, every
  commit, release and queue reset the module performs keeps the equation.
\<close>

theorem spares_accounting:
  assumes "reachable s"
  shows "int (unat (nreq_spares (pool s))) =
           int NREQ_SPARES -
           (\<Sum>slot<NR_NDEV. max 0 (int (unat (nq_count (ndev_sendq (ndev_array s slot)))) -
                                    int NDEV_SENDQ))"
proof -
  from reachable_inv [OF assms]
  have "unat (nreq_spares (pool s)) + (\<Sum>slot<NR_NDEV. spares_used (ndev_array s slot)) = NREQ_SPARES"
    by (simp add: ndev_inv_def)
  then have "int (unat (nreq_spares (pool s)) + (\<Sum>slot<NR_NDEV. spares_used (ndev_array s slot))) =
             int NREQ_SPARES"
    by (simp only:)
  then have "int (unat (nreq_spares (pool s))) +
               (\<Sum>slot<NR_NDEV. int (spares_used (ndev_array s slot))) = int NREQ_SPARES"
    by (simp only: of_nat_add of_nat_sum)
  then show ?thesis
    by (simp only: spares_used_int)
qed

lemma demo_loaded_facts:
  "map_sum id (\<lambda>s. (nreq_spares (pool s), nq_count (ndev_sendq (ndev_array s 0))))
     (run demo_burst boot) = Inr (7, 3)"
  by (simp add: ndev_eval cong: bnd_weak_cong let_weak_cong)

lemma demo_loaded_run: "run demo_burst boot = Inr demo_loaded"
  using demo_loaded_facts by (cases "run demo_burst boot") (simp_all add: demo_loaded_def)

lemma demo_burst_ok: "list_all event_ok demo_burst"
  by code_simp

lemma demo_loaded_reachable: "reachable demo_loaded"
  using reachable_boot demo_burst_ok demo_loaded_run by (rule reachable_run)

theorem spares_accounting_witness:
  "reachable demo_loaded \<and> nreq_spares (pool demo_loaded) = 7 \<and>
   nq_count (ndev_sendq (ndev_array demo_loaded 0)) = 3 \<and>
   int (unat (nreq_spares (pool demo_loaded))) =
     int NREQ_SPARES -
     (\<Sum>slot<NR_NDEV. max 0 (int (unat (nq_count (ndev_sendq (ndev_array demo_loaded slot)))) -
                              int NDEV_SENDQ))"
  using spares_accounting [OF demo_loaded_reachable] demo_loaded_reachable demo_loaded_facts
  by (simp add: demo_loaded_run)

section \<open>Room in the receive queue\<close>

lemma ndev_can_recv_active:
  assumes "nid < NR_NDEV" and "slot_active s nid"
  shows "ndev_can_recv nid s =
           Inr (nq_count (ndev_recvq (ndev_array s nid)) < nq_max (ndev_recvq (ndev_array s nid)))"
  using assms slot_activeD [of s nid] by (simp add: ndev_can_recv_def)

text \<open>
  Claim C10. For an active driver slot in a reachable state, \<open>ndev_can_recv\<close> returns
  true exactly when the receive queue holds fewer requests than its maximum, and
  that is exactly when a call of \<open>ndev_recv\<close> on the slot does not return \<open>EBUSY\<close>.
\<close>

theorem can_recv_iff_recv_not_busy:
  assumes "reachable s" and "nid < NR_NDEV" and "slot_active s nid"
  shows "(ndev_can_recv nid s = Inr True \<longleftrightarrow>
            nq_count (ndev_recvq (ndev_array s nid)) < nq_max (ndev_recvq (ndev_array s nid))) \<and>
         (ndev_can_recv nid s = Inr False \<longleftrightarrow>
            \<not> nq_count (ndev_recvq (ndev_array s nid)) < nq_max (ndev_recvq (ndev_array s nid))) \<and>
         (ndev_can_recv nid s = Inr True \<longleftrightarrow>
            \<not> returns EBUSY (ndev_recv nid pbufs grants r s))"
proof -
  from reachable_inv [OF assms(1)] have "slot_ok (pool s) (ndev_array s nid)"
    by (rule ndev_inv_slot_ok)
  then have le: "nq_count (ndev_recvq (ndev_array s nid)) \<le> nq_max (ndev_recvq (ndev_array s nid))"
    by (simp add: slot_ok_def queue_ok_def)
  have busy: "returns EBUSY (ndev_recv nid pbufs grants r s) \<longleftrightarrow>
              nq_count (ndev_recvq (ndev_array s nid)) = nq_max (ndev_recvq (ndev_array s nid))"
    using assms(2,3) slot_activeD [of s nid]
    by (simp add: ndev_recv_busy ndev_queue_get_None)
  show ?thesis
    using le by (auto simp: ndev_can_recv_active [OF assms(2,3)] busy)
qed

lemma demo_small_ok: "list_all event_ok demo_small"
  by code_simp

lemma demo_full_reachable: "reachable demo_full"
  using reachable_boot demo_small_ok demo_full_run by (rule reachable_run)

theorem can_recv_iff_recv_not_busy_witness:
  "reachable demo_full \<and> 0 < NR_NDEV \<and> slot_active demo_full 0 \<and>
   ndev_can_recv 0 demo_full = Inr True \<and>
   \<not> returns EBUSY (ndev_recv 0 demo_pbuf [13] OK demo_full)"
  using can_recv_iff_recv_not_busy [OF demo_full_reachable _ demo_full_active, of demo_pbuf "[13]" OK]
    demo_full_reachable demo_full_active
  by (auto simp: NR_NDEV_def demo_full_slot)

section \<open>Replies and the head of the queue\<close>

lemma ndev_queue_remove_iff:
  assumes "ndev_queue_remove q type seq p = Inr (b, q', p')"
  shows "b \<longleftrightarrow> 0 < nq_count q \<and> nq_head q = seq \<and> head_type p q = Some type"
  using assms
  by (auto simp: ndev_queue_remove_def head_type_def bnd_def unat_gt_0 word_greater_zero_iff
                 unat_eq_zero
           split: list.splits if_splits sum.splits)

lemma inv_queue_active:
  assumes "ndev_inv s"
    and "0 < nq_count (ndev_sendq (ndev_array s slot)) \<or> 0 < nq_count (ndev_recvq (ndev_array s slot))"
  shows "NDEV_ACTIVE (ndev_array s slot) \<and> ndev_ethif (ndev_array s slot) \<noteq> None"
proof -
  from assms(1) have ok: "slot_ok (pool s) (ndev_array s slot)"
    by (rule ndev_inv_slot_ok)
  have "nq_max (ndev_sendq (ndev_array s slot)) \<noteq> 0"
  proof
    assume z: "nq_max (ndev_sendq (ndev_array s slot)) = 0"
    with ok have "nq_max (ndev_recvq (ndev_array s slot)) = 0"
      by (simp add: slot_ok_def)
    with z ok have "nq_count (ndev_sendq (ndev_array s slot)) = 0 \<and>
                    nq_count (ndev_recvq (ndev_array s slot)) = 0"
      by (simp add: slot_ok_def queue_ok_def)
    with assms(2) show False by simp
  qed
  with ok show ?thesis
    by (auto simp: NDEV_ACTIVE_def slot_ok_def word_greater_zero_iff)
qed

lemma reply_dispatch:
  assumes "find_slot (ndev_array s) (m_source m) [0..<ndev_max s] = Some slot"
  shows "m_type m = NDEV_CONF_REPLY \<Longrightarrow> ndev_process m env s = ndev_conf_reply slot m s"
    and "m_type m = NDEV_SEND_REPLY \<Longrightarrow> ndev_process m env s = ndev_send_reply slot m s"
    and "m_type m = NDEV_RECV_REPLY \<Longrightarrow> ndev_process m env s = ndev_recv_reply slot m s"
  using assms by (simp_all add: ndev_process_def)

lemma reply_outcome:
  assumes inv: "ndev_inv s"
    and rm: "ndev_queue_remove q ty (rp_id (m_netdriver_ndev_reply m)) (pool s) = Inr (b, q', p')"
    and q: "q = ndev_sendq (ndev_array s slot) \<or> q = ndev_recvq (ndev_array s slot)"
  shows "(b \<longrightarrow> NDEV_ACTIVE (ndev_array s slot) \<and> ndev_ethif (ndev_array s slot) \<noteq> None \<and>
               nq_req q' = tl (nq_req q) \<and> nq_head q' = nq_head q + 1 \<and>
               nq_count q' = nq_count q - 1) \<and>
         (\<not> b \<longrightarrow> q' = q \<and> p' = pool s)"
proof -
  note c = ndev_queue_remove_char [OF rm]
  show ?thesis
  proof (cases b)
    case False
    with c show ?thesis by simp
  next
    case True
    with c have pos: "0 < nq_count q" and adv: "ndev_queue_advance q (pool s) = Inr (q', p')"
      by simp_all
    from adv obtain n rest where "nq_req q = n # rest" "nq_req q' = rest"
      "nq_head q' = nq_head q + 1" "nq_count q' = nq_count q - 1"
      by (rule ndev_queue_advance_char)
    moreover from inv_queue_active [OF inv, of slot] pos q
    have "NDEV_ACTIVE (ndev_array s slot) \<and> ndev_ethif (ndev_array s slot) \<noteq> None"
      by auto
    ultimately show ?thesis
      using True by simp
  qed
qed


lemma state_same [simp]:
  "s\<lparr>pool := pool s, ndev_array := (ndev_array s)
       (slot := (ndev_array s slot)\<lparr>ndev_sendq := ndev_sendq (ndev_array s slot)\<rparr>)\<rparr> = s"
  "s\<lparr>pool := pool s, ndev_array := (ndev_array s)
       (slot := (ndev_array s slot)\<lparr>ndev_recvq := ndev_recvq (ndev_array s slot)\<rparr>)\<rparr> = s"
  by simp_all

lemma ndev_conf_reply_outcome:
  assumes inv: "ndev_inv s" and run: "ndev_conf_reply slot m s = Inr s'"
  shows "(0 < nq_count (ndev_sendq (ndev_array s slot)) \<and>
          nq_head (ndev_sendq (ndev_array s slot)) = rp_id (m_netdriver_ndev_reply m) \<and>
          head_type (pool s) (ndev_sendq (ndev_array s slot)) = Some NDEV_CONF \<longrightarrow>
            (\<exists>e. ndev_ethif (ndev_array s slot) = Some e \<and>
                 trace s' = trace s @ [Ethif_configured e (rp_result (m_netdriver_ndev_reply m))]) \<and>
            nq_req (ndev_sendq (ndev_array s' slot)) = tl (nq_req (ndev_sendq (ndev_array s slot))) \<and>
            nq_head (ndev_sendq (ndev_array s' slot)) = nq_head (ndev_sendq (ndev_array s slot)) + 1 \<and>
            nq_count (ndev_sendq (ndev_array s' slot)) = nq_count (ndev_sendq (ndev_array s slot)) - 1) \<and>
         (\<not> (0 < nq_count (ndev_sendq (ndev_array s slot)) \<and>
             nq_head (ndev_sendq (ndev_array s slot)) = rp_id (m_netdriver_ndev_reply m) \<and>
             head_type (pool s) (ndev_sendq (ndev_array s slot)) = Some NDEV_CONF) \<longrightarrow> s' = s)"
proof (cases "NDEV_ACTIVE (ndev_array s slot)")
  case False
  with inv_queue_active [OF inv, of slot] run show ?thesis
    by (auto simp: ndev_conf_reply_def)
next
  case True
  let ?d = "ndev_array s slot"
  from run True obtain b q p where
    rm: "ndev_queue_remove (ndev_sendq ?d) NDEV_CONF (rp_id (m_netdriver_ndev_reply m)) (pool s) = Inr (b, q, p)"
    by (cases "ndev_queue_remove (ndev_sendq ?d) NDEV_CONF (rp_id (m_netdriver_ndev_reply m)) (pool s)")
       (auto simp: ndev_conf_reply_def bnd_def)
  note i = ndev_queue_remove_iff [OF rm] and o = reply_outcome [OF inv rm disjI1 [OF refl]]
  show ?thesis
  proof (cases b)
    case False
    with i o run rm True show ?thesis
      by (simp add: ndev_conf_reply_def bnd_Inr)
  next
    case b: True
    with o obtain e where e: "ndev_ethif ?d = Some e"
      by auto
    with run rm True b have "s' = emit (Ethif_configured e (rp_result (m_netdriver_ndev_reply m)))
        (s\<lparr>pool := p, ndev_array := (ndev_array s)(slot := ?d\<lparr>ndev_sendq := q\<rparr>)\<rparr>)"
      by (simp add: ndev_conf_reply_def bnd_Inr)
    with i o b e show ?thesis
      by simp
  qed
qed

lemma ndev_send_reply_outcome:
  assumes inv: "ndev_inv s" and run: "ndev_send_reply slot m s = Inr s'"
  shows "(0 < nq_count (ndev_sendq (ndev_array s slot)) \<and>
          nq_head (ndev_sendq (ndev_array s slot)) = rp_id (m_netdriver_ndev_reply m) \<and>
          head_type (pool s) (ndev_sendq (ndev_array s slot)) = Some NDEV_SEND \<longrightarrow>
            (\<exists>e. ndev_ethif (ndev_array s slot) = Some e \<and>
                 trace s' = trace s @ [Ethif_sent e (rp_result (m_netdriver_ndev_reply m))]) \<and>
            nq_req (ndev_sendq (ndev_array s' slot)) = tl (nq_req (ndev_sendq (ndev_array s slot))) \<and>
            nq_head (ndev_sendq (ndev_array s' slot)) = nq_head (ndev_sendq (ndev_array s slot)) + 1 \<and>
            nq_count (ndev_sendq (ndev_array s' slot)) = nq_count (ndev_sendq (ndev_array s slot)) - 1) \<and>
         (\<not> (0 < nq_count (ndev_sendq (ndev_array s slot)) \<and>
             nq_head (ndev_sendq (ndev_array s slot)) = rp_id (m_netdriver_ndev_reply m) \<and>
             head_type (pool s) (ndev_sendq (ndev_array s slot)) = Some NDEV_SEND) \<longrightarrow> s' = s)"
proof (cases "NDEV_ACTIVE (ndev_array s slot)")
  case False
  with inv_queue_active [OF inv, of slot] run show ?thesis
    by (auto simp: ndev_send_reply_def)
next
  case True
  let ?d = "ndev_array s slot"
  from run True obtain b q p where
    rm: "ndev_queue_remove (ndev_sendq ?d) NDEV_SEND (rp_id (m_netdriver_ndev_reply m)) (pool s) = Inr (b, q, p)"
    by (cases "ndev_queue_remove (ndev_sendq ?d) NDEV_SEND (rp_id (m_netdriver_ndev_reply m)) (pool s)")
       (auto simp: ndev_send_reply_def bnd_def)
  note i = ndev_queue_remove_iff [OF rm] and o = reply_outcome [OF inv rm disjI1 [OF refl]]
  show ?thesis
  proof (cases b)
    case False
    with i o run rm True show ?thesis
      by (simp add: ndev_send_reply_def bnd_Inr)
  next
    case b: True
    with o obtain e where e: "ndev_ethif ?d = Some e"
      by auto
    with run rm True b have "s' = emit (Ethif_sent e (rp_result (m_netdriver_ndev_reply m)))
        (s\<lparr>pool := p, ndev_array := (ndev_array s)(slot := ?d\<lparr>ndev_sendq := q\<rparr>)\<rparr>)"
      by (simp add: ndev_send_reply_def bnd_Inr)
    with i o b e show ?thesis
      by simp
  qed
qed

lemma ndev_recv_reply_outcome:
  assumes inv: "ndev_inv s" and run: "ndev_recv_reply slot m s = Inr s'"
  shows "(0 < nq_count (ndev_recvq (ndev_array s slot)) \<and>
          nq_head (ndev_recvq (ndev_array s slot)) = rp_id (m_netdriver_ndev_reply m) \<and>
          head_type (pool s) (ndev_recvq (ndev_array s slot)) = Some NDEV_RECV \<longrightarrow>
            (\<exists>e. ndev_ethif (ndev_array s slot) = Some e \<and>
                 trace s' = trace s @ [Ethif_received e (rp_result (m_netdriver_ndev_reply m))]) \<and>
            nq_req (ndev_recvq (ndev_array s' slot)) = tl (nq_req (ndev_recvq (ndev_array s slot))) \<and>
            nq_head (ndev_recvq (ndev_array s' slot)) = nq_head (ndev_recvq (ndev_array s slot)) + 1 \<and>
            nq_count (ndev_recvq (ndev_array s' slot)) = nq_count (ndev_recvq (ndev_array s slot)) - 1) \<and>
         (\<not> (0 < nq_count (ndev_recvq (ndev_array s slot)) \<and>
             nq_head (ndev_recvq (ndev_array s slot)) = rp_id (m_netdriver_ndev_reply m) \<and>
             head_type (pool s) (ndev_recvq (ndev_array s slot)) = Some NDEV_RECV) \<longrightarrow> s' = s)"
proof (cases "NDEV_ACTIVE (ndev_array s slot)")
  case False
  with inv_queue_active [OF inv, of slot] run show ?thesis
    by (auto simp: ndev_recv_reply_def)
next
  case True
  let ?d = "ndev_array s slot"
  from run True obtain b q p where
    rm: "ndev_queue_remove (ndev_recvq ?d) NDEV_RECV (rp_id (m_netdriver_ndev_reply m)) (pool s) = Inr (b, q, p)"
    by (cases "ndev_queue_remove (ndev_recvq ?d) NDEV_RECV (rp_id (m_netdriver_ndev_reply m)) (pool s)")
       (auto simp: ndev_recv_reply_def bnd_def)
  note i = ndev_queue_remove_iff [OF rm] and o = reply_outcome [OF inv rm disjI2 [OF refl]]
  show ?thesis
  proof (cases b)
    case False
    with i o run rm True show ?thesis
      by (simp add: ndev_recv_reply_def bnd_Inr)
  next
    case b: True
    with o obtain e where e: "ndev_ethif ?d = Some e"
      by auto
    with run rm True b have "s' = emit (Ethif_received e (rp_result (m_netdriver_ndev_reply m)))
        (s\<lparr>pool := p, ndev_array := (ndev_array s)(slot := ?d\<lparr>ndev_recvq := q\<rparr>)\<rparr>)"
      by (simp add: ndev_recv_reply_def bnd_Inr)
    with i o b e show ?thesis
      by simp
  qed
qed

text \<open>
  Claim C5. In a reachable state, a configure, send or receive reply of a known driver
  that is processed to the end removes the head of the matching queue and is passed to
  the ethif layer (\<open>ethif_configured\<close>, \<open>ethif_sent\<close>, \<open>ethif_received\<close> with the reply's
  result) if and only if that queue is not empty, its head sequence is the reply's id,
  and the request at its head is of the reply's kind. In every other case the state,
  and with it the trace of ethif calls, stays as it is.
\<close>

theorem reply_forwarded_iff_head_matches:
  assumes "reachable s"
    and "find_slot (ndev_array s) (m_source m) [0..<ndev_max s] = Some slot"
    and "reply_request (m_type m) \<noteq> None"
    and "ndev_process m env s = Inr s'"
  shows "(reply_matches s slot m \<longrightarrow>
            (\<exists>e. ndev_ethif (ndev_array s slot) = Some e \<and>
                 trace s' = trace s @
                   [reply_callback (m_type m) e (rp_result (m_netdriver_ndev_reply m))]) \<and>
            nq_req (reply_queue (m_type m) (ndev_array s' slot)) =
              tl (nq_req (reply_queue (m_type m) (ndev_array s slot))) \<and>
            nq_head (reply_queue (m_type m) (ndev_array s' slot)) =
              nq_head (reply_queue (m_type m) (ndev_array s slot)) + 1 \<and>
            nq_count (reply_queue (m_type m) (ndev_array s' slot)) =
              nq_count (reply_queue (m_type m) (ndev_array s slot)) - 1) \<and>
         (\<not> reply_matches s slot m \<longrightarrow> s' = s)"
proof -
  note inv = reachable_inv [OF assms(1)]
  from assms(3) consider
    (conf) "m_type m = NDEV_CONF_REPLY" | (send) "m_type m = NDEV_SEND_REPLY" |
    (recv) "m_type m = NDEV_RECV_REPLY"
    by (cases "m_type m") simp_all
  then show ?thesis
  proof cases
    case conf
    with assms(4) have "ndev_conf_reply slot m s = Inr s'"
      by (simp add: reply_dispatch [OF assms(2)])
    from ndev_conf_reply_outcome [OF inv this] show ?thesis
      by (simp add: reply_matches_def reply_queue_def conf Let_def)
  next
    case send
    with assms(4) have "ndev_send_reply slot m s = Inr s'"
      by (simp add: reply_dispatch [OF assms(2)])
    from ndev_send_reply_outcome [OF inv this] show ?thesis
      by (simp add: reply_matches_def reply_queue_def send Let_def)
  next
    case recv
    with assms(4) have "ndev_recv_reply slot m s = Inr s'"
      by (simp add: reply_dispatch [OF assms(2)])
    from ndev_recv_reply_outcome [OF inv this] show ?thesis
      by (simp add: reply_matches_def reply_queue_def recv Let_def)
  qed
qed

lemma demo_reply_facts:
  "find_slot (ndev_array demo_full) 1001 [0..<ndev_max demo_full] = Some 0"
  by (simp add: demo_full_slot)

lemma demo_reply_run:
  "map_sum id (\<lambda>s. (ndev_ethif (ndev_array s 0), head_type (pool s) (ndev_sendq (ndev_array s 0))))
     (run demo_small boot) = Inr (Some 7, Some NDEV_SEND)"
  by (simp add: ndev_eval head_type_def cong: bnd_weak_cong let_weak_cong)

lemma demo_reply_done:
  "\<not> isl (bnd (run demo_small boot)
            (ndev_process (demo_message 1001 NDEV_SEND_REPLY 2 [] 0) demo_env))"
  by (simp add: ndev_eval cong: bnd_weak_cong let_weak_cong)

theorem reply_forwarded_iff_head_matches_witness:
  "\<exists>s'. reachable demo_full \<and>
        find_slot (ndev_array demo_full) (m_source (demo_message 1001 NDEV_SEND_REPLY 2 [] 0))
          [0..<ndev_max demo_full] = Some 0 \<and>
        reply_request (m_type (demo_message 1001 NDEV_SEND_REPLY 2 [] 0)) \<noteq> None \<and>
        ndev_process (demo_message 1001 NDEV_SEND_REPLY 2 [] 0) demo_env demo_full = Inr s' \<and>
        reply_matches demo_full 0 (demo_message 1001 NDEV_SEND_REPLY 2 [] 0) \<and>
        trace s' = trace demo_full @ [Ethif_sent 7 0] \<and>
        nq_req (ndev_sendq (ndev_array s' 0)) = [] \<and>
        nq_head (ndev_sendq (ndev_array s' 0)) = 3"
proof -
  let ?m = "demo_message 1001 NDEV_SEND_REPLY 2 [] 0"
  from demo_reply_done obtain s' where run: "ndev_process ?m demo_env demo_full = Inr s'"
    by (cases "ndev_process ?m demo_env demo_full") (simp_all add: demo_full_run bnd_Inr)
  have slot: "find_slot (ndev_array demo_full) (m_source ?m) [0..<ndev_max demo_full] = Some 0"
    by (simp add: demo_full_slot demo_message_def)
  have ty: "reply_request (m_type ?m) \<noteq> None"
    by (simp add: demo_message_def)
  have more: "ndev_ethif (ndev_array demo_full 0) = Some 7"
    "head_type (pool demo_full) (ndev_sendq (ndev_array demo_full 0)) = Some NDEV_SEND"
    using demo_reply_run by (simp_all add: demo_full_run)
  have m: "reply_matches demo_full 0 ?m"
    by (simp add: reply_matches_def reply_queue_def demo_message_def demo_full_slot more Let_def)
  from reply_forwarded_iff_head_matches [OF demo_full_reachable slot ty run] m
  have "trace s' = trace demo_full @ [Ethif_sent 7 0] \<and>
        nq_req (ndev_sendq (ndev_array s' 0)) = [] \<and>
        nq_head (ndev_sendq (ndev_array s' 0)) = 3"
    by (simp add: reply_queue_def demo_message_def demo_full_slot more)
  with run slot ty m demo_full_reachable show ?thesis
    by blast
qed

section \<open>An active driver\<close>

lemma demo_active_facts:
  "map_sum id (\<lambda>s. (nq_head (ndev_sendq (ndev_array s 0)), nq_count (ndev_sendq (ndev_array s 0)),
                    nq_max (ndev_sendq (ndev_array s 0)), nq_req (ndev_sendq (ndev_array s 0)),
                    nreq_freelist (pool s) \<noteq> [], nreq_spares (pool s)))
     (run demo_cold_start boot) = Inr (2, 0, 16, [], True, 8)"
  by (simp add: ndev_eval cong: bnd_weak_cong let_weak_cong)

lemma demo_active_run: "run demo_cold_start boot = Inr demo_active"
  using demo_active_facts by (cases "run demo_cold_start boot") (simp_all add: demo_active_def)

lemma demo_active_slot:
  "nq_head (ndev_sendq (ndev_array demo_active 0)) = 2"
  "nq_count (ndev_sendq (ndev_array demo_active 0)) = 0"
  "nq_max (ndev_sendq (ndev_array demo_active 0)) = 16"
  "nq_req (ndev_sendq (ndev_array demo_active 0)) = []"
  "nreq_freelist (pool demo_active) \<noteq> []"
  "nreq_spares (pool demo_active) = 8"
  using demo_active_facts by (simp_all add: demo_active_run)

section \<open>The reply to an initialisation request\<close>

lemma set_queue_maxes_fields:
  "unat (nq_max (ndev_sendq (ndev_array (set_queue_maxes slot ms mr s) slot))) = min (unat ms) 255"
  "unat (nq_max (ndev_recvq (ndev_array (set_queue_maxes slot ms mr s) slot))) =
     min (unat mr) NDEV_RECVQ"
  "nq_head (ndev_sendq (ndev_array (set_queue_maxes slot ms mr s) slot)) =
     nq_head (ndev_sendq (ndev_array s slot)) + 1"
  "nq_head (ndev_recvq (ndev_array (set_queue_maxes slot ms mr s) slot)) =
     nq_head (ndev_recvq (ndev_array s slot)) + 1"
  "trace (set_queue_maxes slot ms mr s) = trace s"
  "ndev_pending (set_queue_maxes slot ms mr s) = ndev_pending s"
proof -
  have "unat ms < 256"
    using unsigned_less [of ms, where 'a = nat] by simp
  then show "unat (nq_max (ndev_sendq (ndev_array (set_queue_maxes slot ms mr s) slot))) =
               min (unat ms) 255"
    by (simp add: set_queue_maxes_def Let_def)
qed (simp_all add: set_queue_maxes_def Let_def NDEV_RECVQ_def min_def)

text \<open>
  Claim C7. When a valid reply to the pending initialisation request leads to the
  interface being enabled (the driver has an ethif object, or \<open>ethif_add\<close> returns
  one), \<open>ndev_init_reply\<close> is the call of \<open>ethif_enable\<close> in the state \<open>s1\<close>, followed by
  the end of the function; and in \<open>s1\<close>, that is before \<open>ethif_enable\<close> is called, the
  send queue's maximum is \<open>min(max_send, 255)\<close>, the receive queue's maximum is
  \<open>min(max_recv, NDEV_RECVQ)\<close>, and both heads are one more than they were.
\<close>

theorem init_reply_sets_queues_before_enable:
  assumes "init_reply_for_us s slot m" and "init_reply_valid m"
    and "ndev_ethif (ndev_array (after_ethif_add slot m env s) slot) = Some e"
    and "s1 = set_queue_maxes slot (ir_max_send (m_netdriver_ndev_init_reply m))
                (ir_max_recv (m_netdriver_ndev_init_reply m)) (after_ethif_add slot m env s)"
  shows "(\<exists>name hwaddr.
            ndev_init_reply slot m env s =
              bnd (ethif_enable (pe_upcalls env) (pe_enable env)
                     (Ethif_enable e name hwaddr
                        (ir_hwaddr_len (m_netdriver_ndev_init_reply m))
                        (ir_caps (m_netdriver_ndev_init_reply m))
                        (ir_link (m_netdriver_ndev_init_reply m))
                        (ir_media (m_netdriver_ndev_init_reply m))) s1)
                (\<lambda>(enabled, s3). init_reply_finish slot enabled s3)) \<and>
         unat (nq_max (ndev_sendq (ndev_array s1 slot))) =
           min (unat (ir_max_send (m_netdriver_ndev_init_reply m))) 255 \<and>
         unat (nq_max (ndev_recvq (ndev_array s1 slot))) =
           min (unat (ir_max_recv (m_netdriver_ndev_init_reply m))) NDEV_RECVQ \<and>
         nq_head (ndev_sendq (ndev_array s1 slot)) = nq_head (ndev_sendq (ndev_array s slot)) + 1 \<and>
         nq_head (ndev_recvq (ndev_array s1 slot)) = nq_head (ndev_recvq (ndev_array s slot)) + 1 \<and>
         filter (\<lambda>c. case c of Ethif_enable _ _ _ _ _ _ _ \<Rightarrow> True | _ \<Rightarrow> False) (trace s1) =
           filter (\<lambda>c. case c of Ethif_enable _ _ _ _ _ _ _ \<Rightarrow> True | _ \<Rightarrow> False) (trace s)"
proof -
  have "ndev_init_reply slot m env s =
          bnd (ethif_enable (pe_upcalls env) (pe_enable env)
                 (Ethif_enable e
                    (case ndev_ethif (ndev_array s slot) of
                       None \<Rightarrow> None
                     | Some _ \<Rightarrow> Some (takeWhile (\<lambda>c. c \<noteq> NUL)
                                         (ir_name (m_netdriver_ndev_init_reply m))))
                    (take NDEV_HWADDR_MAX
                       (take (unat (ir_hwaddr_len (m_netdriver_ndev_init_reply m)))
                          (ir_hwaddr (m_netdriver_ndev_init_reply m)) @
                        replicate NDEV_HWADDR_MAX 0))
                    (ir_hwaddr_len (m_netdriver_ndev_init_reply m))
                    (ir_caps (m_netdriver_ndev_init_reply m))
                    (ir_link (m_netdriver_ndev_init_reply m))
                    (ir_media (m_netdriver_ndev_init_reply m))) s1)
            (\<lambda>(enabled, s3). init_reply_finish slot enabled s3)"
    using assms(3) by (simp add: ndev_init_reply_valid [OF assms(1,2)] Let_def assms(4))
  moreover have "trace (after_ethif_add slot m env s) = trace s \<or>
                 (\<exists>name caps. trace (after_ethif_add slot m env s) = trace s @ [Ethif_add slot name caps])"
    by (simp add: after_ethif_add_def split: option.splits)
  ultimately show ?thesis
    by (auto simp: assms(4) set_queue_maxes_fields after_ethif_add_fields)
qed

lemma demo_initializing_facts:
  "map_sum id (\<lambda>s. (nq_head (ndev_sendq (ndev_array s 0)), nq_max (ndev_sendq (ndev_array s 0)),
                    nq_head (ndev_recvq (ndev_array s 0)), ndev_ethif (ndev_array s 0),
                    ndev_max s, ndev_endpt (ndev_array s 0), ndev_pending s))
     (run [demo_up 1001] boot) = Inr (1, 0, 1048577, None, 1, 1001, 1)"
  by (simp add: ndev_eval cong: bnd_weak_cong let_weak_cong)

lemma demo_initializing_run: "run [demo_up 1001] boot = Inr demo_initializing"
  using demo_initializing_facts
  by (cases "run [demo_up 1001] boot") (simp_all add: demo_initializing_def)

lemma demo_initializing_slot:
  "nq_head (ndev_sendq (ndev_array demo_initializing 0)) = 1"
  "nq_max (ndev_sendq (ndev_array demo_initializing 0)) = 0"
  "nq_head (ndev_recvq (ndev_array demo_initializing 0)) = 1048577"
  "ndev_ethif (ndev_array demo_initializing 0) = None"
  "ndev_max demo_initializing = 1"
  "ndev_endpt (ndev_array demo_initializing 0) = 1001"
  "ndev_pending demo_initializing = 1"
  using demo_initializing_facts [unfolded demo_initializing_run] by simp_all

theorem init_reply_sets_queues_before_enable_witness:
  "init_reply_for_us demo_initializing 0 (demo_message 1001 NDEV_INIT_REPLY 1 demo_name 16) \<and>
   init_reply_valid (demo_message 1001 NDEV_INIT_REPLY 1 demo_name 16) \<and>
   ndev_ethif (ndev_array (after_ethif_add 0 (demo_message 1001 NDEV_INIT_REPLY 1 demo_name 16)
                              demo_env demo_initializing) 0) = Some 7 \<and>
   unat (nq_max (ndev_sendq (ndev_array
     (set_queue_maxes 0 16 16
        (after_ethif_add 0 (demo_message 1001 NDEV_INIT_REPLY 1 demo_name 16)
           demo_env demo_initializing)) 0))) = 16 \<and>
   unat (nq_max (ndev_recvq (ndev_array
     (set_queue_maxes 0 16 16
        (after_ethif_add 0 (demo_message 1001 NDEV_INIT_REPLY 1 demo_name 16)
           demo_env demo_initializing)) 0))) = 2 \<and>
   nq_head (ndev_sendq (ndev_array
     (set_queue_maxes 0 16 16
        (after_ethif_add 0 (demo_message 1001 NDEV_INIT_REPLY 1 demo_name 16)
           demo_env demo_initializing)) 0)) = 2"
proof -
  let ?m = "demo_message 1001 NDEV_INIT_REPLY 1 demo_name 16"
  have us: "init_reply_for_us demo_initializing 0 ?m"
    by (simp add: init_reply_for_us_def NDEV_ACTIVE_def demo_initializing_slot demo_message_def)
  have valid: "init_reply_valid ?m"
    by (simp add: init_reply_valid_def demo_message_def demo_name_def NUL_def NDEV_HWADDR_MAX_def)
  have eth: "ndev_ethif (ndev_array (after_ethif_add 0 ?m demo_env demo_initializing) 0) = Some 7"
    by (simp add: after_ethif_add_def demo_initializing_slot demo_env_def)
  have ir: "ir_max_send (m_netdriver_ndev_init_reply ?m) = 16"
    "ir_max_recv (m_netdriver_ndev_init_reply ?m) = 16"
    by (simp_all add: demo_message_def)
  from init_reply_sets_queues_before_enable [OF us valid eth refl]
  have "unat (nq_max (ndev_sendq (ndev_array
          (set_queue_maxes 0 16 16 (after_ethif_add 0 ?m demo_env demo_initializing)) 0))) = 16 \<and>
        unat (nq_max (ndev_recvq (ndev_array
          (set_queue_maxes 0 16 16 (after_ethif_add 0 ?m demo_env demo_initializing)) 0))) = 2 \<and>
        nq_head (ndev_sendq (ndev_array
          (set_queue_maxes 0 16 16 (after_ethif_add 0 ?m demo_env demo_initializing)) 0)) = 2"
    by (simp add: ir NDEV_RECVQ_def after_ethif_add_fields demo_initializing_slot)
  with us valid eth show ?thesis
    by simp
qed

section \<open>Failure to allocate a grant\<close>

lemma revoke_back_restores:
  "(\<And>j. j < i \<Longrightarrow> GRANT_VALID (g j)) \<Longrightarrow>
     revoke_back i g (rev (map g [0..<i]) @ base) = base"
  by (induction i) (simp_all add: cpf_revoke_def)

lemma revoke_back_restores':
  "revoke_back i g (rev (map g [0..<i]) @ base) = base"
  by (induction i) (simp_all add: cpf_revoke_def)

text \<open>While the loop runs, the grants it has allocated are those stored in the request
  at the indices below \<open>i\<close>, the latest first in the grant table.\<close>

lemma transfer_grants_enomem:
  assumes "transfer_grants pbufs left i grants nreq iov p = Inr (ENOMEM, i', iov', p')"
    and "cpf_grants p = rev (map (nreq_grant (nreq_array p nreq)) [0..<i]) @ base"
  shows "cpf_grants p' = base \<and> nreq_freelist p' = nreq_freelist p \<and>
         nreq_spares p' = nreq_spares p"
  using assms
proof (induction pbufs left i grants nreq iov p rule: transfer_grants.induct)
  case (1 pbufs left i grants nreq iov p)
  from "1.prems"(1) have pos: "0 < left" and lt: "i < NDEV_IOV_MAX"
    by (subst (asm) transfer_grants.simps, simp split: if_splits)+
  from "1.prems"(1) pos lt obtain pb nxt where pb: "pbufs = pb # nxt"
    by (subst (asm) transfer_grants.simps) (cases pbufs; simp)
  obtain grant live where g: "cpf_grant_direct grants (cpf_grants p) = (grant, live)"
    by (cases "cpf_grant_direct grants (cpf_grants p)") auto
  show ?case
  proof (cases "GRANT_VALID grant")
    case False
    then have live: "live = cpf_grants p"
      using g by (auto simp: cpf_grant_direct_def GRANT_VALID_def GRANT_INVALID_def
                       split: list.splits if_splits)
    from "1.prems"(1) pos lt pb g False
    have "p' = p\<lparr>cpf_grants := revoke_back i (nreq_grant (nreq_array p nreq)) live\<rparr>"
      by (subst (asm) transfer_grants.simps) auto
    then show ?thesis
      by (simp add: live "1.prems"(2) revoke_back_restores')
  next
    case True
    then have live: "live = grant # cpf_grants p"
      using g by (auto simp: cpf_grant_direct_def GRANT_VALID_def GRANT_INVALID_def
                       split: list.splits if_splits)
    define p1 where "p1 = p\<lparr>cpf_grants := live,
        nreq_array := (nreq_array p)(nreq := (nreq_array p nreq)\<lparr>nreq_grant :=
           (nreq_grant (nreq_array p nreq))(i := grant)\<rparr>)\<rparr>"
    from "1.prems"(1) pos lt pb g True have le: "len pb \<le> left" and
      rec: "transfer_grants nxt (left - len pb) (Suc i) (tl grants) nreq (iov @ [(grant, len pb)]) p1 =
              Inr (ENOMEM, i', iov', p')"
      by (subst (asm) transfer_grants.simps, simp add: p1_def split: if_splits)+
    have inv1: "cpf_grants p1 = rev (map (nreq_grant (nreq_array p1 nreq)) [0..<Suc i]) @ base"
      by (simp add: p1_def live "1.prems"(2))
    from "1.IH" [OF pos _ pb g [symmetric] _ _ rec [unfolded p1_def] inv1 [unfolded p1_def]]
      lt True le
    show ?thesis
      by (simp add: p1_def)
  qed
qed


lemma ndev_transfer_enomem:
  assumes "ndev_transfer slot pbufs do_send seq nreq grants r s = Inr (ENOMEM, s')"
  shows "rolled_back s s'"
proof -
  from assms obtain pb rest where pb: "pbufs = pb # rest"
    by (cases pbufs) (simp_all add: ndev_transfer_def)
  from assms pb obtain res i iov p1 where
    tg: "transfer_grants pbufs (tot_len pb) 0 grants nreq [] (pool s) = Inr (res, i, iov, p1)"
    by (cases "transfer_grants pbufs (tot_len pb) 0 grants nreq [] (pool s)")
       (auto simp: ndev_transfer_def bnd_def)
  from assms pb tg have res: "res = ENOMEM" and s': "s' = s\<lparr>pool := p1\<rparr>"
    by (auto simp: ndev_transfer_def bnd_Inr Let_def split: if_splits)
  from transfer_grants_enomem [OF tg [unfolded res], of "cpf_grants (pool s)"]
  show ?thesis
    by (simp add: rolled_back_def s')
qed

lemma rolled_back_get:
  assumes "ndev_queue_get q type (pool s) = Inr (got, p1)" and "rolled_back (s\<lparr>pool := p1\<rparr>) s'"
  shows "rolled_back s s'"
  using assms
proof (cases got)
  case None
  with assms(1) have "p1 = pool s"
    by (auto dest: ndev_queue_get_None_same)
  with assms(2) show ?thesis
    by (simp add: rolled_back_def)
next
  case (Some a)
  obtain n seq where "a = (n, seq)"
    by (cases a)
  with Some assms(1) have "ndev_queue_get q type (pool s) = Inr (Some (n, seq), p1)"
    by simp
  then have "p1 = (pool s)\<lparr>nreq_array := (nreq_array (pool s))
      (n := (nreq_array (pool s) n)\<lparr>nreq_type := type\<rparr>)\<rparr>"
    by (rule ndev_queue_get_char)
  with assms(2) show ?thesis
    by (simp add: rolled_back_def)
qed

lemma ndev_send_enomem:
  assumes "ndev_send nid pbufs grants r s = Inr (ENOMEM, s')"
  shows "rolled_back s s'"
proof -
  let ?d = "ndev_array s nid"
  from assms obtain got p1 where
    get: "ndev_queue_get (ndev_sendq ?d) NDEV_SEND (pool s) = Inr (got, p1)"
    by (cases "ndev_queue_get (ndev_sendq ?d) NDEV_SEND (pool s)")
       (auto simp: ndev_send_def bnd_def split: if_splits)
  from assms get obtain n seq where got: "got = Some (n, seq)"
    by (cases got) (auto simp: ndev_send_def bnd_Inr split: if_splits)
  from assms get got obtain rt s1 where
    tr: "ndev_transfer nid pbufs True seq n grants r (s\<lparr>pool := p1\<rparr>) = Inr (rt, s1)"
    by (cases "ndev_transfer nid pbufs True seq n grants r (s\<lparr>pool := p1\<rparr>)")
       (auto simp: ndev_send_def bnd_def split: if_splits)
  from assms get got tr have "rt = ENOMEM \<and> s' = s1"
    by (auto simp: ndev_send_def bnd_def split: if_splits sum.splits)
  with tr have "rolled_back (s\<lparr>pool := p1\<rparr>) s'"
    by (auto dest: ndev_transfer_enomem)
  with get show ?thesis
    by (rule rolled_back_get)
qed

lemma ndev_recv_enomem:
  assumes "ndev_recv nid pbufs grants r s = Inr (ENOMEM, s')"
  shows "rolled_back s s'"
proof -
  let ?d = "ndev_array s nid"
  from assms obtain got p1 where
    get: "ndev_queue_get (ndev_recvq ?d) NDEV_RECV (pool s) = Inr (got, p1)"
    by (cases "ndev_queue_get (ndev_recvq ?d) NDEV_RECV (pool s)")
       (auto simp: ndev_recv_def bnd_def split: if_splits)
  from assms get obtain n seq where got: "got = Some (n, seq)"
    by (cases got) (auto simp: ndev_recv_def bnd_Inr split: if_splits)
  from assms get got obtain rt s1 where
    tr: "ndev_transfer nid pbufs False seq n grants r (s\<lparr>pool := p1\<rparr>) = Inr (rt, s1)"
    by (cases "ndev_transfer nid pbufs False seq n grants r (s\<lparr>pool := p1\<rparr>)")
       (auto simp: ndev_recv_def bnd_def split: if_splits)
  from assms get got tr have "rt = ENOMEM \<and> s' = s1"
    by (auto simp: ndev_recv_def bnd_def split: if_splits sum.splits)
  with tr have "rolled_back (s\<lparr>pool := p1\<rparr>) s'"
    by (auto dest: ndev_transfer_enomem)
  with get show ?thesis
    by (rule rolled_back_get)
qed

lemma cpf_grant_direct_invalid:
  "\<not> GRANT_VALID (fst (cpf_grant_direct grants live)) \<Longrightarrow>
     snd (cpf_grant_direct grants live) = live"
  by (auto simp: cpf_grant_direct_def split: list.splits)

lemma ndev_conf_enomem:
  assumes "ndev_conf nid nconf grants r s = Inr (ENOMEM, s')"
  shows "rolled_back s s'"
proof -
  let ?d = "ndev_array s nid"
  from assms obtain got p1 where
    get: "ndev_queue_get (ndev_sendq ?d) NDEV_CONF (pool s) = Inr (got, p1)"
    by (cases "ndev_queue_get (ndev_sendq ?d) NDEV_CONF (pool s)")
       (auto simp: ndev_conf_def bnd_def split: if_splits)
  from assms get obtain n seq where got: "got = Some (n, seq)"
    by (cases got) (auto simp: ndev_conf_def bnd_Inr split: if_splits)
  obtain grant live where g: "cpf_grant_direct grants (cpf_grants p1) = (grant, live)"
    by (cases "cpf_grant_direct grants (cpf_grants p1)") auto
  from assms get got g have "conf_needs_grant nconf \<and> \<not> GRANT_VALID grant \<and>
      s' = s\<lparr>pool := p1\<lparr>cpf_grants := live\<rparr>\<rparr>"
    by (auto simp: ndev_conf_def bnd_def Let_def conf_needs_grant_def
             split: if_splits sum.splits prod.splits)
  moreover from this g have "live = cpf_grants p1"
    using cpf_grant_direct_invalid [of grants "cpf_grants p1"] by simp
  ultimately have "rolled_back (s\<lparr>pool := p1\<rparr>) s'"
    by (simp add: rolled_back_def)
  with get show ?thesis
    by (rule rolled_back_get)
qed

lemma transfer_grants_fails:
  assumes "length gs = length segs" and "\<forall>g\<in>set gs. GRANT_VALID g"
    and "case rest of [] \<Rightarrow> True | g # _ \<Rightarrow> \<not> GRANT_VALID g"
    and "i + length segs < NDEV_IOV_MAX" and "remaining \<noteq> []"
    and "sum_list (map len segs) < left"
  shows "\<exists>iov' p'. transfer_grants (segs @ remaining) left i (gs @ rest) nreq iov p =
                     Inr (ENOMEM, i + length segs, iov', p')"
  using assms
proof (induction segs arbitrary: gs left i iov p)
  case Nil
  then obtain pb nxt where "remaining = pb # nxt"
    by (cases remaining) auto
  with Nil show ?case
    by (subst transfer_grants.simps)
       (auto simp: cpf_grant_direct_def GRANT_VALID_def GRANT_INVALID_def split: list.splits)
next
  case (Cons sg segs)
  from Cons.prems(1) obtain g gs' where gs: "gs = g # gs'" and l: "length gs' = length segs"
    by (cases gs) auto
  from Cons.prems(2) gs have v: "GRANT_VALID g" "\<forall>g\<in>set gs'. GRANT_VALID g"
    by auto
  from Cons.prems(6) have le: "len sg \<le> left" "0 < left"
    "sum_list (map len segs) < left - len sg"
    by auto
  from Cons.prems(4) have i: "i < NDEV_IOV_MAX" "Suc i + length segs < NDEV_IOV_MAX"
    by auto
  from Cons.IH [OF l v(2) Cons.prems(3) i(2) Cons.prems(5) le(3)]
  obtain iov' p' where
    "transfer_grants (segs @ remaining) (left - len sg) (Suc i) (gs' @ rest) nreq
       (iov @ [(g, len sg)])
       (p\<lparr>cpf_grants := g # cpf_grants p,
          nreq_array := (nreq_array p)(nreq := (nreq_array p nreq)\<lparr>nreq_grant :=
             (nreq_grant (nreq_array p nreq))(i := g)\<rparr>)\<rparr>) =
     Inr (ENOMEM, Suc i + length segs, iov', p')"
    by blast
  with v(1) le i(1) show ?case
    by (subst transfer_grants.simps) (simp add: gs cpf_grant_direct_def)
qed


lemma admitted_get:
  assumes "admitted s nid type"
  obtains nreq seq p1 where
    "ndev_queue_get (if type = NDEV_RECV then ndev_recvq (ndev_array s nid)
                     else ndev_sendq (ndev_array s nid)) type (pool s) = Inr (Some (nreq, seq), p1)"
  using assms
  by (auto simp: admitted_def split: sum.splits option.splits prod.splits)

lemma ndev_transfer_fails:
  assumes "fails_after gs grants" and "length gs = length segs" and "needs_more segs remaining"
  shows "\<exists>s'. ndev_transfer slot (segs @ remaining) do_send seq nreq grants r s = Inr (ENOMEM, s')"
proof -
  from assms(1) obtain rest where rest: "grants = gs @ rest" "\<forall>g\<in>set gs. GRANT_VALID g"
    "case rest of [] \<Rightarrow> True | g # _ \<Rightarrow> \<not> GRANT_VALID g"
    by (auto simp: fails_after_def)
  from assms(3) obtain pb tl' where pb: "segs @ remaining = pb # tl'"
    by (cases "segs @ remaining") (auto simp: needs_more_def)
  from assms(3) pb have a: "0 + length segs < NDEV_IOV_MAX" "remaining \<noteq> []"
    "sum_list (map len segs) < tot_len pb"
    by (auto simp: needs_more_def)
  from transfer_grants_fails [OF assms(2) rest(2,3) a, of nreq "[]" "pool s"]
  obtain iov' p' where "transfer_grants (segs @ remaining) (tot_len pb) 0 grants nreq [] (pool s) =
      Inr (ENOMEM, 0 + length segs, iov', p')"
    by (auto simp: rest(1))
  then show ?thesis
    by (simp add: ndev_transfer_def pb bnd_Inr)
qed

text \<open>
  Claim C9. If the allocation of a grant fails while a configuration, send or receive
  request is built, the call returns \<open>ENOMEM\<close> and has rolled back: the grant table is
  as before the call (every grant allocated for the request has been revoked), the
  request object is still on the free list, which is unchanged, and the driver table
  with the queues' heads and counts and the spare counter are unchanged. The first
  part is the rollback of every call that returns \<open>ENOMEM\<close>; the second and third
  parts show that a failing allocation, after any number of successful ones, makes
  the call return \<open>ENOMEM\<close>.
\<close>

theorem grant_failure_rolls_back:
  "(ndev_conf nid nconf grants r s = Inr (ENOMEM, s') \<or>
    ndev_send nid pbufs grants r s = Inr (ENOMEM, s') \<or>
    ndev_recv nid pbufs grants r s = Inr (ENOMEM, s') \<longrightarrow> rolled_back s s') \<and>
   (fails_after gs grants \<and> length gs = length segs \<and> needs_more segs remaining \<longrightarrow>
      (admitted s nid NDEV_SEND \<longrightarrow> returns ENOMEM (ndev_send nid (segs @ remaining) grants r s)) \<and>
      (admitted s nid NDEV_RECV \<longrightarrow> returns ENOMEM (ndev_recv nid (segs @ remaining) grants r s))) \<and>
   (fails_after [] grants \<and> conf_needs_grant nconf \<and> nconf_mclist nconf \<noteq> None \<and>
    nconf_mccount nconf \<noteq> 0 \<and> admitted s nid NDEV_CONF \<longrightarrow>
      returns ENOMEM (ndev_conf nid nconf grants r s))"
proof (intro conjI impI; (elim conjE)?)
  assume "ndev_conf nid nconf grants r s = Inr (ENOMEM, s') \<or>
    ndev_send nid pbufs grants r s = Inr (ENOMEM, s') \<or>
    ndev_recv nid pbufs grants r s = Inr (ENOMEM, s')"
  then show "rolled_back s s'"
    by (auto dest: ndev_conf_enomem ndev_send_enomem ndev_recv_enomem)
next
  assume f: "fails_after gs grants" "length gs = length segs" "needs_more segs remaining"
    and a: "admitted s nid NDEV_SEND"
  from a obtain nreq seq p1 where
    get: "ndev_queue_get (ndev_sendq (ndev_array s nid)) NDEV_SEND (pool s) = Inr (Some (nreq, seq), p1)"
    by (auto elim: admitted_get)
  from ndev_transfer_fails [OF f] obtain s1 where
    "ndev_transfer nid (segs @ remaining) True seq nreq grants r (s\<lparr>pool := p1\<rparr>) = Inr (ENOMEM, s1)"
    by blast
  with a get show "returns ENOMEM (ndev_send nid (segs @ remaining) grants r s)"
    by (simp add: ndev_send_def admitted_def returns_def bnd_Inr)
next
  assume f: "fails_after gs grants" "length gs = length segs" "needs_more segs remaining"
    and a: "admitted s nid NDEV_RECV"
  from a obtain nreq seq p1 where
    get: "ndev_queue_get (ndev_recvq (ndev_array s nid)) NDEV_RECV (pool s) = Inr (Some (nreq, seq), p1)"
    by (auto elim: admitted_get)
  from ndev_transfer_fails [OF f] obtain s1 where
    "ndev_transfer nid (segs @ remaining) False seq nreq grants r (s\<lparr>pool := p1\<rparr>) = Inr (ENOMEM, s1)"
    by blast
  with a get show "returns ENOMEM (ndev_recv nid (segs @ remaining) grants r s)"
    by (simp add: ndev_recv_def admitted_def returns_def bnd_Inr)
next
  assume f: "fails_after [] grants" and c: "conf_needs_grant nconf" "nconf_mclist nconf \<noteq> None"
    "nconf_mccount nconf \<noteq> 0" and a: "admitted s nid NDEV_CONF"
  from a obtain nreq seq p1 where
    get: "ndev_queue_get (ndev_sendq (ndev_array s nid)) NDEV_CONF (pool s) = Inr (Some (nreq, seq), p1)"
    by (auto elim: admitted_get)
  obtain grant live where g: "cpf_grant_direct grants (cpf_grants p1) = (grant, live)"
    by (cases "cpf_grant_direct grants (cpf_grants p1)") auto
  with f have "\<not> GRANT_VALID grant"
    by (auto simp: fails_after_def cpf_grant_direct_def GRANT_VALID_def GRANT_INVALID_def
             split: list.splits)
  with a get c g show "returns ENOMEM (ndev_conf nid nconf grants r s)"
    by (simp add: ndev_conf_def admitted_def returns_def bnd_Inr conf_needs_grant_def Let_def)
qed

lemma demo_enomem_facts:
  "map_sum id (\<lambda>s. (cpf_grants (pool s), ndev_endpt (ndev_array s 0)))
     (run demo_cold_start boot) = Inr ([], 1001)"
  by (simp add: ndev_eval cong: bnd_weak_cong let_weak_cong)

lemma demo_enomem_state:
  "cpf_grants (pool demo_active) = []" "ndev_endpt (ndev_array demo_active 0) = 1001"
  using demo_enomem_facts by (simp_all add: demo_active_run)

theorem grant_failure_rolls_back_witness:
  "\<exists>s'. fails_after [11] [11] \<and> needs_more [hd demo_pbuf] (tl demo_pbuf) \<and>
        admitted demo_active 0 NDEV_SEND \<and>
        ndev_send 0 demo_pbuf [11] OK demo_active = Inr (ENOMEM, s') \<and>
        rolled_back demo_active s' \<and> cpf_grants (pool s') = []"
proof -
  have f: "fails_after [11] [11]"
    by (simp add: fails_after_def GRANT_VALID_def GRANT_INVALID_def)
  have n: "needs_more [hd demo_pbuf] (tl demo_pbuf)"
    by (simp add: needs_more_def demo_pbuf_def NDEV_IOV_MAX_def)
  have a: "admitted demo_active 0 NDEV_SEND"
    using demo_active_slot(5)
    by (cases "nreq_freelist (pool demo_active)")
       (simp_all add: admitted_def ndev_queue_get_def demo_active_slot demo_enomem_state
          NR_NDEV_def NONE_def NDEV_ACTIVE_def NDEV_SENDQ_def)
  have pb: "hd demo_pbuf # tl demo_pbuf = demo_pbuf"
    by (simp add: demo_pbuf_def)
  note t = grant_failure_rolls_back [where gs = "[11]" and grants = "[11]" and segs = "[hd demo_pbuf]"
      and remaining = "tl demo_pbuf" and s = demo_active and nid = 0 and r = OK
      and pbufs = demo_pbuf and nconf = demo_nconf]
  from t [where s' = demo_active] f n a have "returns ENOMEM (ndev_send 0 demo_pbuf [11] OK demo_active)"
    by (simp add: pb)
  then obtain s' where s': "ndev_send 0 demo_pbuf [11] OK demo_active = Inr (ENOMEM, s')"
    by (auto simp: returns_def split: sum.splits)
  with t [where s' = s'] have r: "rolled_back demo_active s'"
    by simp
  then have "cpf_grants (pool s') = []"
    by (simp add: rolled_back_def demo_enomem_state)
  with f n a s' r show ?thesis
    by blast
qed

section \<open>The counter of initializing drivers\<close>

lemmas slot_eval =
  demo_restart_def demo_restarts_def demo_bad_reply_def initializing_count_def
  slot_initializing_def slot_vacant_def upt_iov

lemma demo_restarts_facts:
  "map_sum id (\<lambda>s. (ndev_pending s, initializing_count s)) (run demo_restarts boot) = Inr (2, 1)"
  by (simp add: slot_eval ndev_eval cong: bnd_weak_cong let_weak_cong)

lemma demo_restarts_ok: "list_all event_ok demo_restarts"
  by code_simp

text \<open>
  Claim C1. The counter \<open>ndev_pending\<close> ("number of initializing drivers") is not the
  number of initializing slots in every reachable state. \<open>ndev_up\<close> increments it
  whenever a driver that has an ethif object restarts, also when that driver is
  initializing already, and \<open>ndev_down\<close> does not decrement it for such a driver.
  Here the driver \<open>e0\<close> comes up, becomes active, and is then announced twice more:
  one slot is initializing and the counter is 2.
\<close>

theorem pending_exceeds_initializing:
  "\<exists>s. run demo_restarts boot = Inr s \<and> reachable s \<and>
       ndev_pending s = 2 \<and> initializing_count s = 1"
proof -
  from demo_restarts_facts obtain s where s: "run demo_restarts boot = Inr s"
    by (cases "run demo_restarts boot") auto
  with demo_restarts_facts have "ndev_pending s = 2 \<and> initializing_count s = 1"
    by simp
  moreover from reachable_boot demo_restarts_ok s have "reachable s"
    by (rule reachable_run)
  ultimately show ?thesis
    using s by blast
qed

section \<open>An invalid reply from a restarted driver\<close>

lemma demo_restart_facts:
  "map_sum id (\<lambda>s. (ndev_pending s, ndev_max s, ndev_endpt (ndev_array s 0),
                    nq_max (ndev_sendq (ndev_array s 0)), nq_head (ndev_sendq (ndev_array s 0)),
                    trace s))
     (run demo_restart boot) =
   Inr (1, 1, 1002, 0, 2,
        [Asynsend 1001 True (Msg_init 1), Ethif_add 0 ''eth0'' 0,
         Ethif_enable 7 None [1, 2, 3, 4, 5, 6] 6 0 1 0, Ethif_disable 7,
         Asynsend 1002 True (Msg_init 2)])"
  by (simp add: slot_eval ndev_eval cong: bnd_weak_cong let_weak_cong)

lemma demo_restart_reply:
  "map_sum id (\<lambda>s. (ndev_pending s, slot_vacant s 0, initializing_count s, trace s))
     (bnd (run demo_restart boot) (ndev_process demo_bad_reply demo_env)) =
   Inr (1, True, 0,
        [Asynsend 1001 True (Msg_init 1), Ethif_add 0 ''eth0'' 0,
         Ethif_enable 7 None [1, 2, 3, 4, 5, 6] 6 0 1 0, Ethif_disable 7,
         Asynsend 1002 True (Msg_init 2),
         Printf ''LWIP: driver %d provided invalid name'' [1002], Ethif_remove 7])"
  by (simp add: slot_eval ndev_eval cong: bnd_weak_cong let_weak_cong)

lemma demo_restart_ok: "list_all event_ok demo_restart"
  by code_simp

text \<open>
  Claim C8. A failed validation does not decrement \<open>ndev_pending\<close> for every
  initializing slot. The driver \<open>e0\<close> has been active and has restarted, so that its
  slot is initializing and has an ethif object; its reply to the initialisation
  request carries the expected id and an empty name. The slot becomes vacant, the log
  line is written, neither \<open>ethif_add\<close> nor \<open>ethif_enable\<close> is called (the ethif object
  is removed), and \<open>ndev_pending\<close> stays 1 although no slot is initializing any more:
  \<open>ndev_down\<close> decrements the counter only for a slot without ethif object.
\<close>

theorem invalid_reply_keeps_pending:
  "\<exists>s s'. run demo_restart boot = Inr s \<and> reachable s \<and> slot_initializing s 0 \<and>
          find_slot (ndev_array s) (m_source demo_bad_reply) [0..<ndev_max s] = Some 0 \<and>
          m_type demo_bad_reply = NDEV_INIT_REPLY \<and>
          init_reply_for_us s 0 demo_bad_reply \<and> \<not> init_reply_valid demo_bad_reply \<and>
          ndev_process demo_bad_reply demo_env s = Inr s' \<and>
          slot_vacant s' 0 \<and>
          trace s' = trace s @ [Printf ''LWIP: driver %d provided invalid name'' [1002],
                                Ethif_remove 7] \<and>
          ndev_pending s = 1 \<and> ndev_pending s' = 1 \<and> initializing_count s' = 0"
proof -
  from demo_restart_facts obtain s where s: "run demo_restart boot = Inr s"
    by (cases "run demo_restart boot") auto
  from demo_restart_facts s have f:
    "ndev_pending s = 1" "ndev_max s = 1" "ndev_endpt (ndev_array s 0) = 1002"
    "nq_max (ndev_sendq (ndev_array s 0)) = 0" "nq_head (ndev_sendq (ndev_array s 0)) = 2"
    "trace s = [Asynsend 1001 True (Msg_init 1), Ethif_add 0 ''eth0'' 0,
         Ethif_enable 7 None [1, 2, 3, 4, 5, 6] 6 0 1 0, Ethif_disable 7,
         Asynsend 1002 True (Msg_init 2)]"
    by simp_all
  from demo_restart_reply s obtain s' where s': "ndev_process demo_bad_reply demo_env s = Inr s'"
    by (cases "ndev_process demo_bad_reply demo_env s") (auto simp: bnd_Inr)
  from demo_restart_reply s s' have g:
    "ndev_pending s' = 1" "slot_vacant s' 0" "initializing_count s' = 0"
    "trace s' = trace s @ [Printf ''LWIP: driver %d provided invalid name'' [1002], Ethif_remove 7]"
    by (simp_all add: bnd_Inr f)
  from reachable_boot demo_restart_ok s have r: "reachable s"
    by (rule reachable_run)
  have i: "slot_initializing s 0"
    by (simp add: slot_initializing_def slot_vacant_def f NONE_def)
  have fs: "find_slot (ndev_array s) (m_source demo_bad_reply) [0..<ndev_max s] = Some 0"
    by (simp add: f demo_bad_reply_def demo_message_def)
  have ty: "m_type demo_bad_reply = NDEV_INIT_REPLY"
    by (simp add: demo_bad_reply_def demo_message_def)
  have u: "init_reply_for_us s 0 demo_bad_reply"
    by (simp add: init_reply_for_us_def NDEV_ACTIVE_def f demo_bad_reply_def demo_message_def)
  have v: "\<not> init_reply_valid demo_bad_reply"
    by (simp add: init_reply_valid_def demo_bad_reply_def demo_message_def Let_def)
  from s r i fs ty u v s' g f(1) show ?thesis
    by blast
qed

section \<open>Request ids\<close>

lemma sent_ids_append: "sent_ids (xs @ ys) = sent_ids xs @ sent_ids ys"
  by (induction xs) (auto split: option.splits)

lemma ids_from_0 [simp]: "ids_from h 0 = []"
  by (simp add: ids_from_def)

lemma ids_from_Suc: "ids_from h (Suc n) = ids_from h n @ [h + of_nat n]"
  by (simp add: ids_from_def)

lemma ids_from_drop: "drop k (ids_from h n) = ids_from (h + of_nat k) (n - k)"
proof -
  have "map (\<lambda>i. h + of_nat i) [k..<n] = map (\<lambda>i. h + of_nat k + of_nat i) [0..<n - k]"
  proof (cases "k \<le> n")
    case True
    have "[k..<n] = map (\<lambda>i. i + k) [0..<n - k]"
      using True by (simp add: map_add_upt)
    then show ?thesis
      by (simp add: o_def add.commute add.left_commute)
  qed simp
  then show ?thesis
    by (simp add: ids_from_def drop_map)
qed

lemma calm_refl: "calm s s"
  by (simp add: calm_def)

lemma calm_trans:
  assumes "calm s s1" and "calm s1 s2"
  shows "calm s s2"
proof -
  from assms obtain n1 n2 where "trace s1 = trace s @ n1" "sent_ids n1 = []"
    "trace s2 = trace s1 @ n2" "sent_ids n2 = []"
    by (auto simp: calm_def)
  then have t: "trace s2 = trace s @ (n1 @ n2) \<and> sent_ids (n1 @ n2) = []"
    by (simp add: sent_ids_append)
  have "ndev_sendq (ndev_array s2 i) = ndev_sendq (ndev_array s i) \<and>
        ndev_recvq (ndev_array s2 i) = ndev_recvq (ndev_array s i) \<or>
        nq_max (ndev_sendq (ndev_array s2 i)) = 0" for i
  proof -
    from assms have
      a: "ndev_sendq (ndev_array s1 i) = ndev_sendq (ndev_array s i) \<and>
          ndev_recvq (ndev_array s1 i) = ndev_recvq (ndev_array s i) \<or>
          nq_max (ndev_sendq (ndev_array s1 i)) = 0" and
      b: "ndev_sendq (ndev_array s2 i) = ndev_sendq (ndev_array s1 i) \<and>
          ndev_recvq (ndev_array s2 i) = ndev_recvq (ndev_array s1 i) \<or>
          nq_max (ndev_sendq (ndev_array s2 i)) = 0"
      by (simp_all add: calm_def)
    from a b show ?thesis
      by auto
  qed
  with t show ?thesis
    unfolding calm_def by blast
qed

lemma calm_emit: "request_id e = None \<Longrightarrow> calm s (emit e s)"
  by (simp add: calm_def emit_def)

lemma calm_frame:
  "trace s' = trace s \<Longrightarrow>
   (\<And>i. ndev_sendq (ndev_array s' i) = ndev_sendq (ndev_array s i) \<and>
         ndev_recvq (ndev_array s' i) = ndev_recvq (ndev_array s i)) \<Longrightarrow> calm s s'"
  by (simp add: calm_def)

lemma ndev_send_init_calm: "ndev_send_init slot r s = Inr s' \<Longrightarrow> calm s s'"
  by (auto simp: ndev_send_init_def Let_def calm_emit split: if_splits)

lemma reset_queues_calm: "reset_queues slot s = Inr s' \<Longrightarrow> calm s s'"
  by (auto simp: reset_queues_def bnd_def calm_def split: sum.splits prod.splits
           dest!: ndev_queue_reset_result)

lemma ndev_up_calm:
  assumes "ndev_up label endpt r s = Inr s'"
  shows "calm s s'"
proof (cases "ndev_up_scan (ndev_array s) label [0..<ndev_max s] None")
  case (Inl slot)
  with assms obtain s1 where
    r1: "reset_queues slot s = Inr s1" and
    r2: "ndev_send_init slot r
           ((case ndev_ethif (ndev_array s1 slot) of
               None \<Rightarrow> s1
             | Some e \<Rightarrow> (emit (Ethif_disable e) s1)\<lparr>ndev_pending := ndev_pending s1 + 1\<rparr>)
            \<lparr>ndev_array := (ndev_array s1)(slot := (ndev_array s1 slot)\<lparr>ndev_endpt := endpt\<rparr>)\<rparr>) = Inr s'"
    by (auto simp: ndev_up_def bnd_def Let_def split: sum.splits option.splits)
  have "calm s1 ((case ndev_ethif (ndev_array s1 slot) of
               None \<Rightarrow> s1
             | Some e \<Rightarrow> (emit (Ethif_disable e) s1)\<lparr>ndev_pending := ndev_pending s1 + 1\<rparr>)
            \<lparr>ndev_array := (ndev_array s1)(slot := (ndev_array s1 slot)\<lparr>ndev_endpt := endpt\<rparr>)\<rparr>)"
    by (simp add: calm_def emit_def split: option.splits)
  from calm_trans [OF calm_trans [OF reset_queues_calm [OF r1] this] ndev_send_init_calm [OF r2]]
  show ?thesis .
next
  case (Inr nd)
  show ?thesis
  proof (cases "nd = None \<and> ndev_max s = NR_NDEV")
    case True
    with assms Inr show ?thesis
      by (auto simp: ndev_up_def calm_def emit_def split: if_splits)
  next
    case False
    define slot where "slot = (case nd of None \<Rightarrow> ndev_max s | Some n \<Rightarrow> n)"
    define s1 where "s1 = (if nd = None then s\<lparr>ndev_max := ndev_max s + 1\<rparr> else s)"
    define d where "d = ndev_array s slot"
    define d' where "d' = d\<lparr>ndev_endpt := endpt, ndev_label := take (LABEL_MAX - 1) label,
                            ndev_ethif := None, ndev_sendq := ndev_queue_init (ndev_sendq d),
                            ndev_recvq := ndev_queue_init (ndev_recvq d)\<rparr>"
    define s2 where "s2 = s1\<lparr>ndev_array := (ndev_array s1)(slot := d')\<rparr>"
    from assms Inr False obtain s3 where
      r3: "ndev_send_init slot r s2 = Inr s3" and s': "s' = s3\<lparr>ndev_pending := ndev_pending s3 + 1\<rparr>"
      by (auto simp: ndev_up_def bnd_def Let_def slot_def s1_def s2_def d_def d'_def
               split: sum.splits if_splits)
    have a: "calm s s2"
      by (simp add: calm_def s2_def s1_def d'_def ndev_queue_init_def)
    have b: "calm s3 s'"
      by (simp add: calm_def s')
    from calm_trans [OF calm_trans [OF a ndev_send_init_calm [OF r3]] b] show ?thesis .
  qed
qed

lemma ndev_down_calm:
  assumes "ndev_down slot s = Inr s'"
  shows "calm s s'"
proof -
  from assms obtain s1 where r1: "reset_queues slot s = Inr s1"
    by (cases "reset_queues slot s") (auto simp: ndev_down_def bnd_def)
  with assms have "calm s1 s'"
    by (auto simp: ndev_down_def bnd_Inr Let_def calm_def emit_def split: option.splits)
  with reset_queues_calm [OF r1] show ?thesis
    by (rule calm_trans)
qed

lemma check_changes_calm: "check_changes es s = Inr s' \<Longrightarrow> calm s s'"
proof (induction es arbitrary: s)
  case Nil
  then show ?case by (simp add: calm_refl)
next
  case (Cons e es)
  show ?case
  proof (cases "check_changes (e # es) s = check_changes es s")
    case True
    with Cons show ?thesis by simp
  next
    case False
    with Cons.prems obtain s1 where
      u: "ndev_up (drop (length ''drv.net.'') (ds_key e)) (ds_endpt e) (ds_asyn e) s = Inr s1"
      and r: "check_changes es s1 = Inr s'"
      by (auto simp: Let_def bnd_def split: if_splits sum.splits)
    from calm_trans [OF ndev_up_calm [OF u] Cons.IH [OF r]] show ?thesis .
  qed
qed

lemma check_sweep_calm: "check_sweep labels slot s = Inr s' \<Longrightarrow> calm s s'"
proof (induction labels slot s rule: check_sweep.induct)
  case (1 labels slot s)
  show ?case
  proof (cases "slot < ndev_max s")
    case False
    with "1.prems" show ?thesis
      by (subst (asm) check_sweep.simps) (simp add: calm_refl)
  next
    case lt: True
    show ?thesis
    proof (cases "ndev_endpt (ndev_array s slot) = NONE")
      case True
      with lt "1.prems" have "check_sweep labels (Suc slot) s = Inr s'"
        by (subst (asm) check_sweep.simps) simp
      from "1.IH"(1) [OF lt True this] show ?thesis .
    next
      case ep: False
      show ?thesis
      proof (cases "labels (ndev_label (ndev_array s slot)) \<noteq> OK")
        case True
        with lt ep "1.prems" obtain s1 where
          d: "ndev_down slot s = Inr s1" and r: "check_sweep labels (Suc slot) s1 = Inr s'"
          by (subst (asm) check_sweep.simps) (auto split: sum.splits)
        from calm_trans [OF ndev_down_calm [OF d] "1.IH"(2) [OF lt ep True d r]] show ?thesis .
      next
        case False
        with lt ep "1.prems" have "check_sweep labels (Suc slot) s = Inr s'"
          by (subst (asm) check_sweep.simps) simp
        from "1.IH"(3) [OF lt ep False this] show ?thesis .
      qed
    qed
  qed
qed

lemma ndev_check_calm: "ndev_check changes final labels s = Inr s' \<Longrightarrow> calm s s'"
proof -
  assume run: "ndev_check changes final labels s = Inr s'"
  then obtain s1 where c: "check_changes changes s = Inr s1"
    and w: "check_sweep labels 0
              (if final \<noteq> ENOENT then emit (Printf ''LWIP: DS check failed (%d)'' [final]) s1 else s1) = Inr s'"
    by (cases "check_changes changes s") (auto simp: ndev_check_def bnd_def)
  have "calm s1 (if final \<noteq> ENOENT then emit (Printf ''LWIP: DS check failed (%d)'' [final]) s1 else s1)"
    by (simp add: calm_emit calm_refl)
  from calm_trans [OF calm_trans [OF check_changes_calm [OF c] this] check_sweep_calm [OF w]]
  show ?thesis .
qed

lemma ndev_status_calm: "ndev_status slot m r s = Inr s' \<Longrightarrow> calm s s'"
  by (auto simp: ndev_status_def Let_def calm_def emit_def split: if_splits option.splits)

lemma init_reply_finish_calm: "init_reply_finish slot en s = Inr s' \<Longrightarrow> calm s s'"
  by (cases en) (auto simp: init_reply_finish_def intro: ndev_down_calm calm_frame)

lemma queue_ids_empty: "nq_req q = [] \<Longrightarrow> queue_ids ids q"
  by (simp add: queue_ids_def)

lemma queue_ids_same:
  "queue_ids ids q \<Longrightarrow> nq_req q' = nq_req q \<Longrightarrow> nq_head q' = nq_head q \<Longrightarrow> queue_ids ids q'"
  by (simp add: queue_ids_def)

lemma queue_ids_advance:
  assumes "queue_ids ids q" and "nq_req q = n # rest" and "nq_req q' = rest"
    and "nq_head q' = nq_head q + 1"
  shows "queue_ids ids q'"
proof -
  from assms(1,2) have "map ids (n # rest) = ids_from (nq_head q) (Suc (length rest))"
    by (simp add: queue_ids_def)
  then have "drop 1 (map ids (n # rest)) = drop 1 (ids_from (nq_head q) (Suc (length rest)))"
    by simp
  then have "map ids rest = ids_from (nq_head q + 1) (length rest)"
    by (simp add: ids_from_drop)
  with assms(3,4) show ?thesis
    by (simp add: queue_ids_def)
qed

lemma queue_ids_upd:
  "queue_ids ids q \<Longrightarrow> n \<notin> set (nq_req q) \<Longrightarrow> queue_ids (ids(n := x)) q"
  by (simp add: queue_ids_def map_fun_upd)

lemma queue_ids_append:
  assumes "queue_ids ids q" and "n \<notin> set (nq_req q)" and "nq_req q' = nq_req q @ [n]"
    and "nq_head q' = nq_head q"
  shows "queue_ids (ids(n := nq_head q + of_nat (length (nq_req q)))) q'"
  using assms by (simp add: queue_ids_def map_fun_upd ids_from_Suc)

lemma inv_closed_empty:
  assumes "ndev_inv s" and "nq_max (ndev_sendq (ndev_array s i)) = 0"
  shows "nq_req (ndev_sendq (ndev_array s i)) = [] \<and> nq_req (ndev_recvq (ndev_array s i)) = []"
proof -
  from assms(1) have ok: "slot_ok (pool s) (ndev_array s i)"
    by (rule ndev_inv_slot_ok)
  with assms(2) have "nq_max (ndev_recvq (ndev_array s i)) = 0"
    by (simp add: slot_ok_def)
  with ok assms(2) show ?thesis
    by (auto simp: slot_ok_def queue_ok_def)
qed

lemma quiet_refl: "quiet s s"
  by (simp add: quiet_def)

lemma quiet_trans:
  assumes "quiet s s1" and "quiet s1 s2"
  shows "quiet s s2"
proof -
  from assms obtain n1 n2 where "trace s1 = trace s @ n1" "sent_ids n1 = []"
    "trace s2 = trace s1 @ n2" "sent_ids n2 = []"
    by (auto simp: quiet_def)
  then have "trace s2 = trace s @ (n1 @ n2) \<and> sent_ids (n1 @ n2) = []"
    by (simp add: sent_ids_append)
  moreover from assms have "\<forall>ids. ids_ok s ids \<longrightarrow> ids_ok s2 ids"
    by (simp add: quiet_def)
  ultimately show ?thesis
    unfolding quiet_def by blast
qed

lemma calm_quiet:
  assumes "calm s s'" and "ndev_inv s'"
  shows "quiet s s'"
proof -
  have "ids_ok s' ids" if ok: "ids_ok s ids" for ids
    unfolding ids_ok_def
  proof
    fix i
    from assms(1) have
      "ndev_sendq (ndev_array s' i) = ndev_sendq (ndev_array s i) \<and>
       ndev_recvq (ndev_array s' i) = ndev_recvq (ndev_array s i) \<or>
       nq_max (ndev_sendq (ndev_array s' i)) = 0"
      by (simp add: calm_def)
    then show "queue_ids ids (ndev_sendq (ndev_array s' i)) \<and>
               queue_ids ids (ndev_recvq (ndev_array s' i))"
    proof
      assume "ndev_sendq (ndev_array s' i) = ndev_sendq (ndev_array s i) \<and>
              ndev_recvq (ndev_array s' i) = ndev_recvq (ndev_array s i)"
      with ok show ?thesis
        by (simp add: ids_ok_def)
    next
      assume "nq_max (ndev_sendq (ndev_array s' i)) = 0"
      from inv_closed_empty [OF assms(2) this] show ?thesis
        by (simp add: queue_ids_empty)
    qed
  qed
  with assms(1) show ?thesis
    by (simp add: quiet_def calm_def)
qed

text \<open>A reply that releases the head of a queue.\<close>

lemma quiet_advance_send:
  assumes "ndev_queue_advance (ndev_sendq (ndev_array s slot)) (pool s) = Inr (q, p)"
    and "trace s' = trace s @ new" and "sent_ids new = []"
    and "ndev_array s' = (ndev_array s)(slot := (ndev_array s slot)\<lparr>ndev_sendq := q\<rparr>)"
  shows "quiet s s'"
proof -
  from assms(1) obtain n rest where
    a: "nq_req (ndev_sendq (ndev_array s slot)) = n # rest" "nq_req q = rest"
       "nq_head q = nq_head (ndev_sendq (ndev_array s slot)) + 1"
    by (rule ndev_queue_advance_char)
  have "ids_ok s' ids" if "ids_ok s ids" for ids
    using that a assms(4) by (auto simp: ids_ok_def intro: queue_ids_advance)
  with assms(2,3) show ?thesis
    by (simp add: quiet_def)
qed

lemma quiet_advance_recv:
  assumes "ndev_queue_advance (ndev_recvq (ndev_array s slot)) (pool s) = Inr (q, p)"
    and "trace s' = trace s @ new" and "sent_ids new = []"
    and "ndev_array s' = (ndev_array s)(slot := (ndev_array s slot)\<lparr>ndev_recvq := q\<rparr>)"
  shows "quiet s s'"
proof -
  from assms(1) obtain n rest where
    a: "nq_req (ndev_recvq (ndev_array s slot)) = n # rest" "nq_req q = rest"
       "nq_head q = nq_head (ndev_recvq (ndev_array s slot)) + 1"
    by (rule ndev_queue_advance_char)
  have "ids_ok s' ids" if "ids_ok s ids" for ids
    using that a assms(4) by (auto simp: ids_ok_def intro: queue_ids_advance)
  with assms(2,3) show ?thesis
    by (simp add: quiet_def)
qed

lemma ndev_conf_reply_quiet:
  assumes "ndev_conf_reply slot m s = Inr s'"
  shows "quiet s s'"
proof (cases "NDEV_ACTIVE (ndev_array s slot)")
  case False
  with assms show ?thesis
    by (simp add: ndev_conf_reply_def Let_def quiet_refl)
next
  case True
  with assms obtain removed q p where
    rm: "ndev_queue_remove (ndev_sendq (ndev_array s slot)) NDEV_CONF
           (rp_id (m_netdriver_ndev_reply m)) (pool s) = Inr (removed, q, p)"
    by (cases "ndev_queue_remove (ndev_sendq (ndev_array s slot)) NDEV_CONF
                 (rp_id (m_netdriver_ndev_reply m)) (pool s)")
       (auto simp: ndev_conf_reply_def Let_def bnd_def)
  note c = ndev_queue_remove_char [OF rm]
  show ?thesis
  proof (cases removed)
    case False
    with c assms True rm have "s' = s"
      by (simp add: ndev_conf_reply_def Let_def bnd_Inr)
    then show ?thesis
      by (simp add: quiet_refl)
  next
    case rem: True
    with c have adv: "ndev_queue_advance (ndev_sendq (ndev_array s slot)) (pool s) = Inr (q, p)"
      by simp
    from assms True rm rem obtain e where
      t: "trace s' = trace s @ [Ethif_configured e (rp_result (m_netdriver_ndev_reply m))]" and
      a: "ndev_array s' = (ndev_array s)(slot := (ndev_array s slot)\<lparr>ndev_sendq := q\<rparr>)"
      by (auto simp: ndev_conf_reply_def Let_def bnd_Inr emit_def split: option.splits)
    from quiet_advance_send [OF adv t _ a] show ?thesis
      by simp
  qed
qed

lemma ndev_send_reply_quiet:
  assumes "ndev_send_reply slot m s = Inr s'"
  shows "quiet s s'"
proof (cases "NDEV_ACTIVE (ndev_array s slot)")
  case False
  with assms show ?thesis
    by (simp add: ndev_send_reply_def Let_def quiet_refl)
next
  case True
  with assms obtain removed q p where
    rm: "ndev_queue_remove (ndev_sendq (ndev_array s slot)) NDEV_SEND
           (rp_id (m_netdriver_ndev_reply m)) (pool s) = Inr (removed, q, p)"
    by (cases "ndev_queue_remove (ndev_sendq (ndev_array s slot)) NDEV_SEND
                 (rp_id (m_netdriver_ndev_reply m)) (pool s)")
       (auto simp: ndev_send_reply_def Let_def bnd_def)
  note c = ndev_queue_remove_char [OF rm]
  show ?thesis
  proof (cases removed)
    case False
    with c assms True rm have "s' = s"
      by (simp add: ndev_send_reply_def Let_def bnd_Inr)
    then show ?thesis
      by (simp add: quiet_refl)
  next
    case rem: True
    with c have adv: "ndev_queue_advance (ndev_sendq (ndev_array s slot)) (pool s) = Inr (q, p)"
      by simp
    from assms True rm rem obtain e where
      t: "trace s' = trace s @ [Ethif_sent e (rp_result (m_netdriver_ndev_reply m))]" and
      a: "ndev_array s' = (ndev_array s)(slot := (ndev_array s slot)\<lparr>ndev_sendq := q\<rparr>)"
      by (auto simp: ndev_send_reply_def Let_def bnd_Inr emit_def split: option.splits)
    from quiet_advance_send [OF adv t _ a] show ?thesis
      by simp
  qed
qed

lemma ndev_recv_reply_quiet:
  assumes "ndev_recv_reply slot m s = Inr s'"
  shows "quiet s s'"
proof (cases "NDEV_ACTIVE (ndev_array s slot)")
  case False
  with assms show ?thesis
    by (simp add: ndev_recv_reply_def Let_def quiet_refl)
next
  case True
  with assms obtain removed q p where
    rm: "ndev_queue_remove (ndev_recvq (ndev_array s slot)) NDEV_RECV
           (rp_id (m_netdriver_ndev_reply m)) (pool s) = Inr (removed, q, p)"
    by (cases "ndev_queue_remove (ndev_recvq (ndev_array s slot)) NDEV_RECV
                 (rp_id (m_netdriver_ndev_reply m)) (pool s)")
       (auto simp: ndev_recv_reply_def Let_def bnd_def)
  note c = ndev_queue_remove_char [OF rm]
  show ?thesis
  proof (cases removed)
    case False
    with c assms True rm have "s' = s"
      by (simp add: ndev_recv_reply_def Let_def bnd_Inr)
    then show ?thesis
      by (simp add: quiet_refl)
  next
    case rem: True
    with c have adv: "ndev_queue_advance (ndev_recvq (ndev_array s slot)) (pool s) = Inr (q, p)"
      by simp
    from assms True rm rem obtain e where
      t: "trace s' = trace s @ [Ethif_received e (rp_result (m_netdriver_ndev_reply m))]" and
      a: "ndev_array s' = (ndev_array s)(slot := (ndev_array s slot)\<lparr>ndev_recvq := q\<rparr>)"
      by (auto simp: ndev_recv_reply_def Let_def bnd_Inr emit_def split: option.splits)
    from quiet_advance_recv [OF adv t _ a] show ?thesis
      by simp
  qed
qed

text \<open>Requests from the ethif layer.\<close>

lemma note_ids_Nil [simp]: "note_ids [] ids = ids"
  by (simp add: note_ids_def)

lemma note_ids_append: "note_ids (xs @ ys) ids = note_ids ys (note_ids xs ids)"
  by (simp add: note_ids_def)

lemma quiet_sends:
  assumes "quiet s s'" and "nreq_freelist (pool s') = nreq_freelist (pool s)"
  shows "sends s s'"
proof -
  from assms(1) obtain new where "trace s' = trace s @ new" "sent_ids new = []"
    by (auto simp: quiet_def)
  moreover from assms(1) have "\<forall>ids. ids_ok s ids \<longrightarrow> ids_ok s' ids"
    by (simp add: quiet_def)
  ultimately show ?thesis
    using assms(2) unfolding sends_def by (intro exI [of _ new]) simp
qed

lemma zip_append_drop:
  "length ys \<le> length xs \<Longrightarrow> zip xs (ys @ zs) = zip xs ys @ zip (drop (length ys) xs) zs"
proof (induction ys arbitrary: xs)
  case Nil
  then show ?case by simp
next
  case (Cons y ys)
  then show ?case by (cases xs) simp_all
qed

lemma sends_trans:
  assumes "sends s s1" and "sends s1 s2"
  shows "sends s s2"
proof -
  let ?fl = "nreq_freelist (pool s)"
  from assms(1) obtain n1 where
    a: "trace s1 = trace s @ n1" "length (sent_ids n1) \<le> length ?fl"
       "nreq_freelist (pool s1) = drop (length (sent_ids n1)) ?fl"
       "\<forall>ids. ids_ok s ids \<longrightarrow> ids_ok s1 (note_ids (zip ?fl (sent_ids n1)) ids)"
    unfolding sends_def by blast
  from assms(2) obtain n2 where
    b: "trace s2 = trace s1 @ n2" "length (sent_ids n2) \<le> length (nreq_freelist (pool s1))"
       "nreq_freelist (pool s2) = drop (length (sent_ids n2)) (nreq_freelist (pool s1))"
       "\<forall>ids. ids_ok s1 ids \<longrightarrow>
          ids_ok s2 (note_ids (zip (nreq_freelist (pool s1)) (sent_ids n2)) ids)"
    unfolding sends_def by blast
  have z: "zip ?fl (sent_ids (n1 @ n2)) =
           zip ?fl (sent_ids n1) @ zip (nreq_freelist (pool s1)) (sent_ids n2)"
    using a(2) by (simp add: sent_ids_append zip_append_drop a(3))
  have "trace s2 = trace s @ (n1 @ n2)"
    using a(1) b(1) by simp
  moreover have "length (sent_ids (n1 @ n2)) \<le> length ?fl"
    using a(2,3) b(2) by (simp add: sent_ids_append)
  moreover have "nreq_freelist (pool s2) = drop (length (sent_ids (n1 @ n2))) ?fl"
    using a(3) b(3) by (simp add: sent_ids_append add.commute)
  moreover have "\<forall>ids. ids_ok s ids \<longrightarrow> ids_ok s2 (note_ids (zip ?fl (sent_ids (n1 @ n2))) ids)"
    using a(4) b(4) by (simp add: z note_ids_append)
  ultimately show ?thesis
    unfolding sends_def by blast
qed

lemma inv_free_not_queued:
  assumes "ndev_inv s" and "n \<in> set (nreq_freelist (pool s))"
  shows "n \<notin> set (nq_req (ndev_sendq (ndev_array s i))) \<and>
         n \<notin> set (nq_req (ndev_recvq (ndev_array s i)))"
proof -
  have "n \<notin># slot_reqs (ndev_array s i)"
    using inv_queued_not_free [OF assms(1), of n i] assms(2) by blast
  then show ?thesis
    by (simp add: slot_reqs_def)
qed

lemma inv_seq:
  assumes "ndev_inv s"
  shows "(ucast (nq_count (ndev_sendq (ndev_array s i))) :: u32) =
           of_nat (length (nq_req (ndev_sendq (ndev_array s i))))"
    and "(ucast (nq_count (ndev_recvq (ndev_array s i))) :: u32) =
           of_nat (length (nq_req (ndev_recvq (ndev_array s i))))"
proof -
  from assms have ok: "slot_ok (pool s) (ndev_array s i)"
    by (rule ndev_inv_slot_ok)
  then have "unat (nq_count (ndev_sendq (ndev_array s i))) = length (nq_req (ndev_sendq (ndev_array s i)))"
    "unat (nq_count (ndev_recvq (ndev_array s i))) = length (nq_req (ndev_recvq (ndev_array s i)))"
    by (simp_all add: slot_ok_def queue_ok_def)
  then show "(ucast (nq_count (ndev_sendq (ndev_array s i))) :: u32) =
           of_nat (length (nq_req (ndev_sendq (ndev_array s i))))"
    and "(ucast (nq_count (ndev_recvq (ndev_array s i))) :: u32) =
           of_nat (length (nq_req (ndev_recvq (ndev_array s i))))"
    by (metis of_nat_unat)+
qed

lemma commit_send_sends:
  assumes inv: "ndev_inv s"
    and fl: "nreq_freelist (pool s) = n # fl" "nreq_freelist (pool s') = fl"
    and tr: "trace s' = trace s @ [e]"
    and id: "request_id e = Some (nq_head (ndev_sendq (ndev_array s nid)) +
                                  ucast (nq_count (ndev_sendq (ndev_array s nid))))"
    and arr: "ndev_array s' = (ndev_array s)(nid := (ndev_array s nid)\<lparr>ndev_sendq := q'\<rparr>)"
    and q': "nq_req q' = nq_req (ndev_sendq (ndev_array s nid)) @ [n]"
            "nq_head q' = nq_head (ndev_sendq (ndev_array s nid))"
  shows "sends s s'"
proof -
  let ?seq = "nq_head (ndev_sendq (ndev_array s nid)) +
              of_nat (length (nq_req (ndev_sendq (ndev_array s nid))))"
  have free: "n \<notin> set (nq_req (ndev_sendq (ndev_array s i))) \<and>
              n \<notin> set (nq_req (ndev_recvq (ndev_array s i)))" for i
    using inv_free_not_queued [OF inv, of n i] fl by simp
  have "ids_ok s' (ids(n := ?seq))" if ok: "ids_ok s ids" for ids
    unfolding ids_ok_def
  proof
    fix i
    from ok have o: "queue_ids ids (ndev_sendq (ndev_array s i))"
      "queue_ids ids (ndev_recvq (ndev_array s i))"
      by (simp_all add: ids_ok_def)
    show "queue_ids (ids(n := ?seq)) (ndev_sendq (ndev_array s' i)) \<and>
          queue_ids (ids(n := ?seq)) (ndev_recvq (ndev_array s' i))"
    proof (cases "i = nid")
      case True
      with o free [of nid] q' arr show ?thesis
        by (auto intro: queue_ids_append queue_ids_upd)
    next
      case False
      with o free [of i] arr show ?thesis
        by (auto intro: queue_ids_upd)
    qed
  qed
  then have "\<forall>ids. ids_ok s ids \<longrightarrow> ids_ok s' (note_ids (zip (nreq_freelist (pool s)) (sent_ids [e])) ids)"
    using id fl by (simp add: inv_seq [OF inv] note_ids_def)
  then show ?thesis
    unfolding sends_def using tr fl id by (intro exI [of _ "[e]"]) simp
qed

lemma commit_recv_sends:
  assumes inv: "ndev_inv s"
    and fl: "nreq_freelist (pool s) = n # fl" "nreq_freelist (pool s') = fl"
    and tr: "trace s' = trace s @ [e]"
    and id: "request_id e = Some (nq_head (ndev_recvq (ndev_array s nid)) +
                                  ucast (nq_count (ndev_recvq (ndev_array s nid))))"
    and arr: "ndev_array s' = (ndev_array s)(nid := (ndev_array s nid)\<lparr>ndev_recvq := q'\<rparr>)"
    and q': "nq_req q' = nq_req (ndev_recvq (ndev_array s nid)) @ [n]"
            "nq_head q' = nq_head (ndev_recvq (ndev_array s nid))"
  shows "sends s s'"
proof -
  let ?seq = "nq_head (ndev_recvq (ndev_array s nid)) +
              of_nat (length (nq_req (ndev_recvq (ndev_array s nid))))"
  have free: "n \<notin> set (nq_req (ndev_sendq (ndev_array s i))) \<and>
              n \<notin> set (nq_req (ndev_recvq (ndev_array s i)))" for i
    using inv_free_not_queued [OF inv, of n i] fl by simp
  have "ids_ok s' (ids(n := ?seq))" if ok: "ids_ok s ids" for ids
    unfolding ids_ok_def
  proof
    fix i
    from ok have o: "queue_ids ids (ndev_sendq (ndev_array s i))"
      "queue_ids ids (ndev_recvq (ndev_array s i))"
      by (simp_all add: ids_ok_def)
    show "queue_ids (ids(n := ?seq)) (ndev_sendq (ndev_array s' i)) \<and>
          queue_ids (ids(n := ?seq)) (ndev_recvq (ndev_array s' i))"
    proof (cases "i = nid")
      case True
      with o free [of nid] q' arr show ?thesis
        by (auto intro: queue_ids_append queue_ids_upd)
    next
      case False
      with o free [of i] arr show ?thesis
        by (auto intro: queue_ids_upd)
    qed
  qed
  then have "\<forall>ids. ids_ok s ids \<longrightarrow> ids_ok s' (note_ids (zip (nreq_freelist (pool s)) (sent_ids [e])) ids)"
    using id fl by (simp add: inv_seq [OF inv] note_ids_def)
  then show ?thesis
    unfolding sends_def using tr fl id by (intro exI [of _ "[e]"]) simp
qed

lemma ndev_transfer_trace:
  assumes "ndev_transfer slot pbufs do_send seq nreq grants r s = Inr (res, s')"
  shows "(res = OK \<longrightarrow>
            (\<exists>iov. trace s' = trace s @
               [Asynsend (ndev_endpt (ndev_array s slot)) True
                  (Msg_transfer (if do_send then NDEV_SEND else NDEV_RECV) seq iov)])) \<and>
         (res \<noteq> OK \<longrightarrow> trace s' = trace s)"
  using assms
  by (auto simp: ndev_transfer_def bnd_def Let_def emit_def
           split: list.splits sum.splits prod.splits if_splits)

lemma ndev_send_ok:
  assumes run: "ndev_send nid pbufs grants r s = Inr (OK, s')"
  shows "\<exists>n fl iov q'.
           nreq_freelist (pool s) = n # fl \<and> nreq_freelist (pool s') = fl \<and>
           trace s' = trace s @
             [Asynsend (ndev_endpt (ndev_array s nid)) True
                (Msg_transfer NDEV_SEND
                   (nq_head (ndev_sendq (ndev_array s nid)) +
                    ucast (nq_count (ndev_sendq (ndev_array s nid)))) iov)] \<and>
           ndev_array s' = (ndev_array s)(nid := (ndev_array s nid)\<lparr>ndev_sendq := q'\<rparr>) \<and>
           nq_req q' = nq_req (ndev_sendq (ndev_array s nid)) @ [n] \<and>
           nq_head q' = nq_head (ndev_sendq (ndev_array s nid)) \<and>
           nq_count q' = nq_count (ndev_sendq (ndev_array s nid)) + 1 \<and>
           nq_count (ndev_sendq (ndev_array s nid)) \<noteq> nq_max (ndev_sendq (ndev_array s nid))"
proof -
  let ?d = "ndev_array s nid"
  from run obtain got p1 where
    get: "ndev_queue_get (ndev_sendq ?d) NDEV_SEND (pool s) = Inr (got, p1)"
    by (cases "ndev_queue_get (ndev_sendq ?d) NDEV_SEND (pool s)")
       (auto simp: ndev_send_def bnd_def split: if_splits)
  from run get obtain n seq where got: "got = Some (n, seq)"
    by (cases got) (auto simp: ndev_send_def bnd_Inr split: if_splits)
  from get [unfolded got] obtain fl where
    g: "nreq_freelist (pool s) = n # fl" "nq_count (ndev_sendq ?d) \<noteq> nq_max (ndev_sendq ?d)"
       "p1 = (pool s)\<lparr>nreq_array := (nreq_array (pool s))(n := (nreq_array (pool s) n)\<lparr>nreq_type := NDEV_SEND\<rparr>)\<rparr>"
       "seq = nq_head (ndev_sendq ?d) + ucast (nq_count (ndev_sendq ?d))"
    by (rule ndev_queue_get_char)
  from run get got obtain rt s1 where
    tr: "ndev_transfer nid pbufs True seq n grants r (s\<lparr>pool := p1\<rparr>) = Inr (rt, s1)"
    by (cases "ndev_transfer nid pbufs True seq n grants r (s\<lparr>pool := p1\<rparr>)")
       (auto simp: ndev_send_def bnd_def split: if_splits)
  from run get got tr have rt: "rt = OK"
    by (auto simp: ndev_send_def bnd_Inr split: if_splits)
  note fr = ndev_transfer_frame [OF tr]
  from ndev_transfer_trace [OF tr] rt obtain iov where
    t: "trace s1 = trace s @ [Asynsend (ndev_endpt ?d) True (Msg_transfer NDEV_SEND seq iov)]"
    by auto
  from run get got tr rt fr obtain q p2 where
    add: "ndev_queue_add (ndev_sendq ?d) n (pool s1) = Inr (q, p2)" and
    s': "s' = s1\<lparr>pool := p2, ndev_array := (ndev_array s1)(nid := (ndev_array s1 nid)\<lparr>ndev_sendq := q\<rparr>)\<rparr>"
    by (cases "ndev_queue_add (ndev_sendq ?d) n (pool s1)")
       (auto simp: ndev_send_def bnd_def split: if_splits)
  from add obtain x fl2 where
    a: "nreq_freelist (pool s1) = x # fl2" "nreq_freelist p2 = fl2"
       "nq_req q = nq_req (ndev_sendq ?d) @ [n]" "nq_count q = nq_count (ndev_sendq ?d) + 1"
       "nq_head q = nq_head (ndev_sendq ?d)"
    by (rule ndev_queue_add_char)
  from a(1) fr g(1,3) have "fl2 = fl"
    by simp
  with g a t fr show ?thesis
    by (intro exI [of _ n] exI [of _ fl] exI [of _ iov] exI [of _ q]) (simp add: s')
qed

lemma ndev_send_other:
  assumes run: "ndev_send nid pbufs grants r s = Inr (res, s')" and res: "res \<noteq> OK"
  shows "trace s' = trace s \<and> ndev_array s' = ndev_array s \<and>
         nreq_freelist (pool s') = nreq_freelist (pool s)"
proof -
  let ?d = "ndev_array s nid"
  from run obtain got p1 where
    get: "ndev_queue_get (ndev_sendq ?d) NDEV_SEND (pool s) = Inr (got, p1)"
    by (cases "ndev_queue_get (ndev_sendq ?d) NDEV_SEND (pool s)")
       (auto simp: ndev_send_def bnd_def split: if_splits)
  show ?thesis
  proof (cases got)
    case None
    with get have "p1 = pool s"
      by (simp add: ndev_queue_get_None_same)
    with run get None show ?thesis
      by (auto simp: ndev_send_def bnd_def split: if_splits)
  next
    case (Some a)
    then obtain n seq where got: "got = Some (n, seq)"
      by (cases a) simp
    from get [unfolded got] have
      p1: "p1 = (pool s)\<lparr>nreq_array := (nreq_array (pool s))(n := (nreq_array (pool s) n)\<lparr>nreq_type := NDEV_SEND\<rparr>)\<rparr>"
      by (rule ndev_queue_get_char)
    from run get got obtain rt s1 where
      tr: "ndev_transfer nid pbufs True seq n grants r (s\<lparr>pool := p1\<rparr>) = Inr (rt, s1)"
      by (cases "ndev_transfer nid pbufs True seq n grants r (s\<lparr>pool := p1\<rparr>)")
         (auto simp: ndev_send_def bnd_def split: if_splits)
    from run get got tr res have "rt \<noteq> OK \<and> s' = s1"
      by (auto simp: ndev_send_def bnd_def split: if_splits sum.splits prod.splits)
    with ndev_transfer_frame [OF tr] ndev_transfer_trace [OF tr] show ?thesis
      by (simp add: p1)
  qed
qed

lemma ndev_recv_ok:
  assumes run: "ndev_recv nid pbufs grants r s = Inr (OK, s')"
  shows "\<exists>n fl iov q'.
           nreq_freelist (pool s) = n # fl \<and> nreq_freelist (pool s') = fl \<and>
           trace s' = trace s @
             [Asynsend (ndev_endpt (ndev_array s nid)) True
                (Msg_transfer NDEV_RECV
                   (nq_head (ndev_recvq (ndev_array s nid)) +
                    ucast (nq_count (ndev_recvq (ndev_array s nid)))) iov)] \<and>
           ndev_array s' = (ndev_array s)(nid := (ndev_array s nid)\<lparr>ndev_recvq := q'\<rparr>) \<and>
           nq_req q' = nq_req (ndev_recvq (ndev_array s nid)) @ [n] \<and>
           nq_head q' = nq_head (ndev_recvq (ndev_array s nid)) \<and>
           nq_count q' = nq_count (ndev_recvq (ndev_array s nid)) + 1 \<and>
           nq_count (ndev_recvq (ndev_array s nid)) \<noteq> nq_max (ndev_recvq (ndev_array s nid))"
proof -
  let ?d = "ndev_array s nid"
  from run obtain got p1 where
    get: "ndev_queue_get (ndev_recvq ?d) NDEV_RECV (pool s) = Inr (got, p1)"
    by (cases "ndev_queue_get (ndev_recvq ?d) NDEV_RECV (pool s)")
       (auto simp: ndev_recv_def bnd_def split: if_splits)
  from run get obtain n seq where got: "got = Some (n, seq)"
    by (cases got) (auto simp: ndev_recv_def bnd_Inr split: if_splits)
  from get [unfolded got] obtain fl where
    g: "nreq_freelist (pool s) = n # fl" "nq_count (ndev_recvq ?d) \<noteq> nq_max (ndev_recvq ?d)"
       "p1 = (pool s)\<lparr>nreq_array := (nreq_array (pool s))(n := (nreq_array (pool s) n)\<lparr>nreq_type := NDEV_RECV\<rparr>)\<rparr>"
       "seq = nq_head (ndev_recvq ?d) + ucast (nq_count (ndev_recvq ?d))"
    by (rule ndev_queue_get_char)
  from run get got obtain rt s1 where
    tr: "ndev_transfer nid pbufs False seq n grants r (s\<lparr>pool := p1\<rparr>) = Inr (rt, s1)"
    by (cases "ndev_transfer nid pbufs False seq n grants r (s\<lparr>pool := p1\<rparr>)")
       (auto simp: ndev_recv_def bnd_def split: if_splits)
  from run get got tr have rt: "rt = OK"
    by (auto simp: ndev_recv_def bnd_Inr split: if_splits)
  note fr = ndev_transfer_frame [OF tr]
  from ndev_transfer_trace [OF tr] rt obtain iov where
    t: "trace s1 = trace s @ [Asynsend (ndev_endpt ?d) True (Msg_transfer NDEV_RECV seq iov)]"
    by auto
  from run get got tr rt fr obtain q p2 where
    add: "ndev_queue_add (ndev_recvq ?d) n (pool s1) = Inr (q, p2)" and
    s': "s' = s1\<lparr>pool := p2, ndev_array := (ndev_array s1)(nid := (ndev_array s1 nid)\<lparr>ndev_recvq := q\<rparr>)\<rparr>"
    by (cases "ndev_queue_add (ndev_recvq ?d) n (pool s1)")
       (auto simp: ndev_recv_def bnd_def split: if_splits)
  from add obtain x fl2 where
    a: "nreq_freelist (pool s1) = x # fl2" "nreq_freelist p2 = fl2"
       "nq_req q = nq_req (ndev_recvq ?d) @ [n]" "nq_count q = nq_count (ndev_recvq ?d) + 1"
       "nq_head q = nq_head (ndev_recvq ?d)"
    by (rule ndev_queue_add_char)
  from a(1) fr g(1,3) have "fl2 = fl"
    by simp
  with g a t fr show ?thesis
    by (intro exI [of _ n] exI [of _ fl] exI [of _ iov] exI [of _ q]) (simp add: s')
qed

lemma ndev_recv_other:
  assumes run: "ndev_recv nid pbufs grants r s = Inr (res, s')" and res: "res \<noteq> OK"
  shows "trace s' = trace s \<and> ndev_array s' = ndev_array s \<and>
         nreq_freelist (pool s') = nreq_freelist (pool s)"
proof -
  let ?d = "ndev_array s nid"
  from run obtain got p1 where
    get: "ndev_queue_get (ndev_recvq ?d) NDEV_RECV (pool s) = Inr (got, p1)"
    by (cases "ndev_queue_get (ndev_recvq ?d) NDEV_RECV (pool s)")
       (auto simp: ndev_recv_def bnd_def split: if_splits)
  show ?thesis
  proof (cases got)
    case None
    with get have "p1 = pool s"
      by (simp add: ndev_queue_get_None_same)
    with run get None show ?thesis
      by (auto simp: ndev_recv_def bnd_def split: if_splits)
  next
    case (Some a)
    then obtain n seq where got: "got = Some (n, seq)"
      by (cases a) simp
    from get [unfolded got] have
      p1: "p1 = (pool s)\<lparr>nreq_array := (nreq_array (pool s))(n := (nreq_array (pool s) n)\<lparr>nreq_type := NDEV_RECV\<rparr>)\<rparr>"
      by (rule ndev_queue_get_char)
    from run get got obtain rt s1 where
      tr: "ndev_transfer nid pbufs False seq n grants r (s\<lparr>pool := p1\<rparr>) = Inr (rt, s1)"
      by (cases "ndev_transfer nid pbufs False seq n grants r (s\<lparr>pool := p1\<rparr>)")
         (auto simp: ndev_recv_def bnd_def split: if_splits)
    from run get got tr res have "rt \<noteq> OK \<and> s' = s1"
      by (auto simp: ndev_recv_def bnd_def split: if_splits sum.splits prod.splits)
    with ndev_transfer_frame [OF tr] ndev_transfer_trace [OF tr] show ?thesis
      by (simp add: p1)
  qed
qed

lemma ndev_conf_ok:
  assumes run: "ndev_conf nid nconf grants r s = Inr (OK, s')"
  shows "\<exists>n fl cm q'.
           nreq_freelist (pool s) = n # fl \<and> nreq_freelist (pool s') = fl \<and>
           trace s' = trace s @ [Asynsend (ndev_endpt (ndev_array s nid)) True (Msg_conf cm)] \<and>
           cm_id cm = nq_head (ndev_sendq (ndev_array s nid)) +
                      ucast (nq_count (ndev_sendq (ndev_array s nid))) \<and>
           ndev_array s' = (ndev_array s)(nid := (ndev_array s nid)\<lparr>ndev_sendq := q'\<rparr>) \<and>
           nq_req q' = nq_req (ndev_sendq (ndev_array s nid)) @ [n] \<and>
           nq_head q' = nq_head (ndev_sendq (ndev_array s nid)) \<and>
           nq_count q' = nq_count (ndev_sendq (ndev_array s nid)) + 1 \<and>
           nq_count (ndev_sendq (ndev_array s nid)) \<noteq> nq_max (ndev_sendq (ndev_array s nid))"
proof -
  let ?d = "ndev_array s nid"
  from run obtain got p1 where
    get: "ndev_queue_get (ndev_sendq ?d) NDEV_CONF (pool s) = Inr (got, p1)"
    by (cases "ndev_queue_get (ndev_sendq ?d) NDEV_CONF (pool s)")
       (auto simp: ndev_conf_def bnd_def split: if_splits)
  from run get obtain n seq where got: "got = Some (n, seq)"
    by (cases got) (auto simp: ndev_conf_def bnd_Inr split: if_splits)
  from get [unfolded got] obtain fl where
    g: "nreq_freelist (pool s) = n # fl" "nq_count (ndev_sendq ?d) \<noteq> nq_max (ndev_sendq ?d)"
       "p1 = (pool s)\<lparr>nreq_array := (nreq_array (pool s))(n := (nreq_array (pool s) n)\<lparr>nreq_type := NDEV_CONF\<rparr>)\<rparr>"
       "seq = nq_head (ndev_sendq ?d) + ucast (nq_count (ndev_sendq ?d))"
    by (rule ndev_queue_get_char)
  define mcast where "mcast = (nconf_set nconf AND NDEV_SET_MODE \<noteq> 0 \<and>
                           nconf_mode nconf AND NDEV_MODE_MCAST_LIST \<noteq> 0)"
  define gl where "gl = (if mcast then cpf_grant_direct grants (cpf_grants p1)
                          else (GRANT_INVALID, cpf_grants p1))"
  define pm where "pm = p1\<lparr>cpf_grants := snd gl,
     nreq_array := (nreq_array p1)(n := (nreq_array p1 n)\<lparr>nreq_grant :=
         (nreq_grant (nreq_array p1 n))(0 := fst gl, 1 := GRANT_INVALID)\<rparr>)\<rparr>"
  from run get got obtain q p3 where
    add: "ndev_queue_add (ndev_sendq ?d) n pm = Inr (q, p3)" and
    s': "pool s' = p3" "ndev_array s' = (ndev_array s)(nid := ?d\<lparr>ndev_sendq := q\<rparr>)"
        "trace s' = trace s @ [Asynsend (ndev_endpt ?d) True (Msg_conf (conf_request nconf seq (fst gl)))]"
    by (cases "ndev_queue_add (ndev_sendq ?d) n pm")
       (auto simp: ndev_conf_def bnd_def Let_def mcast_def gl_def pm_def emit_def
             split: if_splits prod.splits)
  from add obtain x fl2 where
    a: "nreq_freelist pm = x # fl2" "nreq_freelist p3 = fl2"
       "nq_req q = nq_req (ndev_sendq ?d) @ [n]" "nq_count q = nq_count (ndev_sendq ?d) + 1"
       "nq_head q = nq_head (ndev_sendq ?d)"
    by (rule ndev_queue_add_char)
  from a(1) g(1,3) have "fl2 = fl"
    by (simp add: pm_def)
  moreover have "cm_id (conf_request nconf seq (fst gl)) = seq"
    by (simp add: conf_request_def)
  ultimately show ?thesis
    using g a s'
    by (intro exI [of _ n] exI [of _ fl] exI [of _ "conf_request nconf seq (fst gl)"] exI [of _ q])
       simp
qed

lemma ndev_conf_other:
  assumes run: "ndev_conf nid nconf grants r s = Inr (res, s')" and res: "res \<noteq> OK"
  shows "trace s' = trace s \<and> ndev_array s' = ndev_array s \<and>
         nreq_freelist (pool s') = nreq_freelist (pool s)"
proof -
  let ?d = "ndev_array s nid"
  from run obtain got p1 where
    get: "ndev_queue_get (ndev_sendq ?d) NDEV_CONF (pool s) = Inr (got, p1)"
    by (cases "ndev_queue_get (ndev_sendq ?d) NDEV_CONF (pool s)")
       (auto simp: ndev_conf_def bnd_def split: if_splits)
  show ?thesis
  proof (cases got)
    case None
    with get have "p1 = pool s"
      by (simp add: ndev_queue_get_None_same)
    with run get None show ?thesis
      by (auto simp: ndev_conf_def bnd_def split: if_splits)
  next
    case (Some a)
    then obtain n seq where got: "got = Some (n, seq)"
      by (cases a) simp
    from get [unfolded got] have
      p1: "p1 = (pool s)\<lparr>nreq_array := (nreq_array (pool s))(n := (nreq_array (pool s) n)\<lparr>nreq_type := NDEV_CONF\<rparr>)\<rparr>"
      by (rule ndev_queue_get_char)
    from ndev_conf_shape [OF run get [unfolded got]] res obtain live where
      "s' = s\<lparr>pool := p1\<lparr>cpf_grants := live\<rparr>\<rparr>"
      by auto
    then show ?thesis
      by (simp add: p1)
  qed
qed

lemma frame_sends:
  assumes "trace s' = trace s" and "ndev_array s' = ndev_array s"
    and "nreq_freelist (pool s') = nreq_freelist (pool s)"
  shows "sends s s'"
proof -
  have "quiet s s'"
    using assms by (simp add: quiet_def ids_ok_def)
  then show ?thesis
    using assms(3) by (rule quiet_sends)
qed

lemma ndev_send_sends:
  assumes inv: "ndev_inv s" and run: "ndev_send nid pbufs grants r s = Inr (res, s')"
  shows "sends s s'"
proof (cases "res = OK")
  case True
  from ndev_send_ok [OF run [unfolded True]] obtain n fl iov q' where
    a: "nreq_freelist (pool s) = n # fl" "nreq_freelist (pool s') = fl"
       "trace s' = trace s @
             [Asynsend (ndev_endpt (ndev_array s nid)) True
                (Msg_transfer NDEV_SEND
                   (nq_head (ndev_sendq (ndev_array s nid)) +
                    ucast (nq_count (ndev_sendq (ndev_array s nid)))) iov)]"
       "ndev_array s' = (ndev_array s)(nid := (ndev_array s nid)\<lparr>ndev_sendq := q'\<rparr>)"
       "nq_req q' = nq_req (ndev_sendq (ndev_array s nid)) @ [n]"
       "nq_head q' = nq_head (ndev_sendq (ndev_array s nid))"
    by blast
  from commit_send_sends [OF inv a(1,2,3) _ a(4,5,6)] show ?thesis
    by simp
next
  case False
  from ndev_send_other [OF run False] show ?thesis
    by (intro frame_sends) simp_all
qed

lemma ndev_recv_sends:
  assumes inv: "ndev_inv s" and run: "ndev_recv nid pbufs grants r s = Inr (res, s')"
  shows "sends s s'"
proof (cases "res = OK")
  case True
  from ndev_recv_ok [OF run [unfolded True]] obtain n fl iov q' where
    a: "nreq_freelist (pool s) = n # fl" "nreq_freelist (pool s') = fl"
       "trace s' = trace s @
             [Asynsend (ndev_endpt (ndev_array s nid)) True
                (Msg_transfer NDEV_RECV
                   (nq_head (ndev_recvq (ndev_array s nid)) +
                    ucast (nq_count (ndev_recvq (ndev_array s nid)))) iov)]"
       "ndev_array s' = (ndev_array s)(nid := (ndev_array s nid)\<lparr>ndev_recvq := q'\<rparr>)"
       "nq_req q' = nq_req (ndev_recvq (ndev_array s nid)) @ [n]"
       "nq_head q' = nq_head (ndev_recvq (ndev_array s nid))"
    by blast
  from commit_recv_sends [OF inv a(1,2,3) _ a(4,5,6)] show ?thesis
    by simp
next
  case False
  from ndev_recv_other [OF run False] show ?thesis
    by (intro frame_sends) simp_all
qed

lemma ndev_conf_sends:
  assumes inv: "ndev_inv s" and run: "ndev_conf nid nconf grants r s = Inr (res, s')"
  shows "sends s s'"
proof (cases "res = OK")
  case True
  from ndev_conf_ok [OF run [unfolded True]] obtain n fl cm q' where
    a: "nreq_freelist (pool s) = n # fl" "nreq_freelist (pool s') = fl"
       "trace s' = trace s @ [Asynsend (ndev_endpt (ndev_array s nid)) True (Msg_conf cm)]"
       "ndev_array s' = (ndev_array s)(nid := (ndev_array s nid)\<lparr>ndev_sendq := q'\<rparr>)"
       "nq_req q' = nq_req (ndev_sendq (ndev_array s nid)) @ [n]"
       "nq_head q' = nq_head (ndev_sendq (ndev_array s nid))" and
    b: "cm_id cm = nq_head (ndev_sendq (ndev_array s nid)) +
                   ucast (nq_count (ndev_sendq (ndev_array s nid)))"
    by blast
  from commit_send_sends [OF inv a(1,2,3) _ a(4,5,6)] b show ?thesis
    by simp
next
  case False
  from ndev_conf_other [OF run False] show ?thesis
    by (intro frame_sends) simp_all
qed

lemma ndev_call_sends:
  assumes "ndev_inv s" and "ndev_call c s = Inr s'"
  shows "sends s s'"
proof (cases c)
  case (Call_conf nid nconf grants r)
  with assms(2) obtain res where "ndev_conf nid nconf grants r s = Inr (res, s')"
    by (cases "ndev_conf nid nconf grants r s") (auto simp: bnd_def)
  with assms(1) show ?thesis
    by (rule ndev_conf_sends)
next
  case (Call_send nid pbufs grants r)
  with assms(2) obtain res where "ndev_send nid pbufs grants r s = Inr (res, s')"
    by (cases "ndev_send nid pbufs grants r s") (auto simp: bnd_def)
  with assms(1) show ?thesis
    by (rule ndev_send_sends)
next
  case (Call_recv nid pbufs grants r)
  with assms(2) obtain res where "ndev_recv nid pbufs grants r s = Inr (res, s')"
    by (cases "ndev_recv nid pbufs grants r s") (auto simp: bnd_def)
  with assms(1) show ?thesis
    by (rule ndev_recv_sends)
next
  case (Call_can_recv nid)
  with assms(2) have "s' = s"
    by (cases "ndev_can_recv nid s") (auto simp: bnd_def)
  then show ?thesis
    by (intro frame_sends) simp_all
qed

lemma run_upcalls_sends:
  "ndev_inv s \<Longrightarrow> run_upcalls cs s = Inr s' \<Longrightarrow> sends s s'"
proof (induction cs arbitrary: s)
  case Nil
  then show ?case
    by (intro frame_sends) simp_all
next
  case (Cons c cs)
  from Cons.prems(2) obtain s1 where
    c: "ndev_call c s = Inr s1" and r: "run_upcalls cs s1 = Inr s'"
    by (cases "ndev_call c s") (simp_all add: bnd_def)
  from sends_trans [OF ndev_call_sends [OF Cons.prems(1) c]
    Cons.IH [OF ndev_call_inv [OF Cons.prems(1) c] r]]
  show ?case .
qed

text \<open>Events.\<close>

lemma event_ids_trace:
  "trace s' = trace s @ new \<Longrightarrow>
     event_ids s s' ids = note_ids (zip (nreq_freelist (pool s)) (sent_ids new)) ids"
  by (simp add: event_ids_def)

lemma quiet_event:
  assumes "quiet s s'" and "ids_ok s ids"
  shows "ids_ok s' (event_ids s s' ids)"
proof -
  from assms(1) obtain new where "trace s' = trace s @ new" "sent_ids new = []"
    by (auto simp: quiet_def)
  then have "event_ids s s' ids = ids"
    by (simp add: event_ids_trace)
  with assms show ?thesis
    by (simp add: quiet_def)
qed

lemma sends_quiet_event:
  assumes "sends s s1" and "quiet s1 s2" and "ids_ok s ids"
  shows "ids_ok s2 (event_ids s s2 ids)"
proof -
  from assms(1) obtain n1 where
    a: "trace s1 = trace s @ n1"
       "\<forall>ids. ids_ok s ids \<longrightarrow> ids_ok s1 (note_ids (zip (nreq_freelist (pool s)) (sent_ids n1)) ids)"
    unfolding sends_def by blast
  from assms(2) obtain n2 where b: "trace s2 = trace s1 @ n2" "sent_ids n2 = []"
    by (auto simp: quiet_def)
  from a(1) b have "trace s2 = trace s @ (n1 @ n2)" "sent_ids (n1 @ n2) = sent_ids n1"
    by (simp_all add: sent_ids_append)
  then have "event_ids s s2 ids = note_ids (zip (nreq_freelist (pool s)) (sent_ids n1)) ids"
    by (simp only: event_ids_trace)
  with a(2) assms(2,3) show ?thesis
    by (simp add: quiet_def)
qed

lemma sends_event:
  "sends s s' \<Longrightarrow> ids_ok s ids \<Longrightarrow> ids_ok s' (event_ids s s' ids)"
  using sends_quiet_event [OF _ quiet_refl] .

lemma quiet_emit: "request_id e = None \<Longrightarrow> quiet s (emit e s)"
  by (simp add: quiet_def emit_def ids_ok_def)

lemma after_ethif_add_quiet: "quiet s (after_ethif_add slot m env s)"
  by (simp add: quiet_def ids_ok_def after_ethif_add_fields)
     (simp add: after_ethif_add_def emit_def split: option.splits)

lemma set_queue_maxes_quiet:
  assumes "ndev_inv s" and "\<not> NDEV_ACTIVE (ndev_array s slot)"
  shows "quiet s (set_queue_maxes slot ms mr s)"
proof -
  from assms(2) have "nq_max (ndev_sendq (ndev_array s slot)) = 0"
    by (simp add: NDEV_ACTIVE_def word_greater_zero_iff)
  from inv_closed_empty [OF assms(1) this]
  have "ids_ok (set_queue_maxes slot ms mr s) ids" if "ids_ok s ids" for ids
    using that by (auto simp: ids_ok_def set_queue_maxes_def Let_def queue_ids_empty)
  then show ?thesis
    by (simp add: quiet_def set_queue_maxes_fields)
qed

lemma ndev_init_reply_ids:
  assumes inv: "ndev_inv s" and lt: "slot < ndev_max s"
    and ep: "ndev_endpt (ndev_array s slot) \<noteq> NONE"
    and run: "ndev_init_reply slot m env s = Inr s'"
    and ok: "ids_ok s ids"
  shows "ids_ok s' (event_ids s s' ids)"
proof -
  from inv lt have lt': "slot < NR_NDEV"
    by (simp add: ndev_inv_def)
  note inv' = ndev_init_reply_inv [OF inv lt ep run]
  show ?thesis
  proof (cases "init_reply_for_us s slot m")
    case False
    with run have "s' = s"
      by (simp add: ndev_init_reply_ignored)
    with ok show ?thesis
      by (simp add: quiet_event quiet_refl)
  next
    case us: True
    show ?thesis
    proof (cases "init_reply_valid m")
      case False
      from ndev_init_reply_invalid [OF us False, of env] run obtain msg where
        "ndev_down slot (emit (Printf msg [m_source m]) s) = Inr s'"
        by auto
      from calm_trans [OF calm_emit ndev_down_calm [OF this]] have "calm s s'"
        by simp
      from quiet_event [OF calm_quiet [OF this inv'] ok] show ?thesis .
    next
      case valid: True
      define s1 where "s1 = after_ethif_add slot m env s"
      from us have na: "\<not> NDEV_ACTIVE (ndev_array s slot)"
        by (simp add: init_reply_for_us_def)
      have i1: "ndev_inv s1"
        unfolding s1_def using inv na by (rule after_ethif_add_inv)
      have q1: "quiet s s1"
        unfolding s1_def by (rule after_ethif_add_quiet)
      show ?thesis
      proof (cases "ndev_ethif (ndev_array s1 slot)")
        case None
        with run have "ndev_down slot s1 = Inr s'"
          by (simp add: ndev_init_reply_valid [OF us valid] Let_def s1_def)
        from calm_quiet [OF ndev_down_calm [OF this] inv'] have "quiet s1 s'" .
        from quiet_event [OF quiet_trans [OF q1 this] ok] show ?thesis .
      next
        case (Some e)
        define s2 where "s2 = set_queue_maxes slot (ir_max_send (m_netdriver_ndev_init_reply m))
                    (ir_max_recv (m_netdriver_ndev_init_reply m)) s1"
        from Some run obtain en s3 call where
          en: "ethif_enable (pe_upcalls env) (pe_enable env) call s2 = Inr (en, s3)" and
          call: "request_id call = None" and
          fin: "init_reply_finish slot en s3 = Inr s'"
          by (auto simp: ndev_init_reply_valid [OF us valid] Let_def s1_def s2_def bnd_def
                   split: sum.splits)
        have na1: "\<not> NDEV_ACTIVE (ndev_array s1 slot)"
          using na by (simp add: NDEV_ACTIVE_def s1_def after_ethif_add_fields)
        have i2: "ndev_inv s2"
          unfolding s2_def
        proof (rule inv_set_queue_maxes [OF i1 lt'])
          show "\<not> slot_vacant s1 slot"
            using lt ep by (simp add: slot_vacant_def s1_def after_ethif_add_fields)
          show "\<not> NDEV_ACTIVE (ndev_array s1 slot)"
            by (rule na1)
          show "ndev_ethif (ndev_array s1 slot) \<noteq> None"
            using Some by simp
          show "1 \<le> unat (ir_max_send (m_netdriver_ndev_init_reply m))"
            "1 \<le> unat (ir_max_recv (m_netdriver_ndev_init_reply m))"
            using valid by (simp_all add: init_reply_valid_def Let_def)
        qed
        have q2: "quiet s1 s2"
          unfolding s2_def using i1 na1 by (rule set_queue_maxes_quiet)
        from en obtain r: "run_upcalls (pe_upcalls env) (emit call s2) = Inr s3"
          by (auto simp: ethif_enable_def bnd_def split: sum.splits)
        have "quiet s (emit call s2)"
          using quiet_trans [OF quiet_trans [OF q1 q2] quiet_emit [OF call]] .
        moreover have "nreq_freelist (pool (emit call s2)) = nreq_freelist (pool s)"
          by (simp add: s2_def s1_def set_queue_maxes_def Let_def after_ethif_add_fields)
        ultimately have "sends s (emit call s2)"
          by (rule quiet_sends)
        moreover have "sends (emit call s2) s3"
          using i2 r by (intro run_upcalls_sends) simp_all
        ultimately have s: "sends s s3"
          by (rule sends_trans)
        from calm_quiet [OF init_reply_finish_calm [OF fin] inv'] have "quiet s3 s'" .
        from sends_quiet_event [OF s this ok] show ?thesis .
      qed
    qed
  qed
qed

lemma ndev_process_ids:
  assumes inv: "ndev_inv s" and src: "m_source m \<noteq> NONE" and run: "ndev_process m env s = Inr s'"
    and ok: "ids_ok s ids"
  shows "ids_ok s' (event_ids s s' ids)"
proof (cases "find_slot (ndev_array s) (m_source m) [0..<ndev_max s]")
  case None
  with run have "s' = s"
    by (simp add: ndev_process_def)
  with ok show ?thesis
    by (simp add: quiet_event quiet_refl)
next
  case (Some slot)
  from find_slot_Some [OF Some] src have lt: "slot < ndev_max s"
    and ep: "ndev_endpt (ndev_array s slot) \<noteq> NONE"
    by auto
  note inv' = ndev_process_inv [OF inv src run]
  consider (init) "m_type m = NDEV_INIT_REPLY" | (conf) "m_type m = NDEV_CONF_REPLY"
    | (send) "m_type m = NDEV_SEND_REPLY" | (recv) "m_type m = NDEV_RECV_REPLY"
    | (status) "m_type m = NDEV_STATUS"
    | (other) "m_type m \<notin> {NDEV_INIT_REPLY, NDEV_CONF_REPLY, NDEV_SEND_REPLY, NDEV_RECV_REPLY,
                             NDEV_STATUS}"
    by auto
  then show ?thesis
  proof cases
    case init
    with run Some have "ndev_init_reply slot m env s = Inr s'"
      by (simp add: ndev_process_def)
    from ndev_init_reply_ids [OF inv lt ep this ok] show ?thesis .
  next
    case conf
    with run Some have "ndev_conf_reply slot m s = Inr s'"
      by (simp add: ndev_process_def)
    from quiet_event [OF ndev_conf_reply_quiet [OF this] ok] show ?thesis .
  next
    case send
    with run Some have "ndev_send_reply slot m s = Inr s'"
      by (simp add: ndev_process_def)
    from quiet_event [OF ndev_send_reply_quiet [OF this] ok] show ?thesis .
  next
    case recv
    with run Some have "ndev_recv_reply slot m s = Inr s'"
      by (simp add: ndev_process_def)
    from quiet_event [OF ndev_recv_reply_quiet [OF this] ok] show ?thesis .
  next
    case status
    with run Some have "ndev_status slot m (pe_asyn env) s = Inr s'"
      by (simp add: ndev_process_def)
    from quiet_event [OF calm_quiet [OF ndev_status_calm [OF this] inv'] ok] show ?thesis .
  next
    case other
    with run Some have "s' = s"
      by (cases "m_type m") (simp_all add: ndev_process_def)
    with ok show ?thesis
      by (simp add: quiet_event quiet_refl)
  qed
qed

lemma ndev_event_ids:
  assumes "ndev_inv s" and "event_ok ev" and "ndev_event ev s = Inr s'" and "ids_ok s ids"
  shows "ids_ok s' (event_ids s s' ids)"
proof (cases ev)
  case (Ev_check changes final labels)
  with assms(3) have c: "ndev_check changes final labels s = Inr s'"
    by simp
  from quiet_event [OF calm_quiet [OF ndev_check_calm [OF c] ndev_check_inv [OF assms(1) c]] assms(4)]
  show ?thesis .
next
  case (Ev_process m env)
  with assms show ?thesis
    by (auto intro: ndev_process_ids)
next
  case (Ev_call c)
  with assms(3) have "ndev_call c s = Inr s'"
    by simp
  from sends_event [OF ndev_call_sends [OF assms(1) this] assms(4)] show ?thesis .
qed

lemma run_ids_inv:
  "ndev_inv s \<Longrightarrow> ids_ok s ids \<Longrightarrow> list_all event_ok evs \<Longrightarrow>
   run_ids evs s ids = Inr (s', ids') \<Longrightarrow> ndev_inv s' \<and> ids_ok s' ids' \<and> run evs s = Inr s'"
proof (induction evs arbitrary: s ids)
  case Nil
  then show ?case by simp
next
  case (Cons ev evs)
  from Cons.prems(4) obtain s1 where
    e: "ndev_event ev s = Inr s1" and r: "run_ids evs s1 (event_ids s s1 ids) = Inr (s', ids')"
    by (cases "ndev_event ev s") (simp_all add: bnd_def)
  from Cons.prems(3) have ok: "event_ok ev" "list_all event_ok evs"
    by simp_all
  from Cons.IH [OF ndev_event_inv [OF Cons.prems(1) ok(1) e]
    ndev_event_ids [OF Cons.prems(1) ok(1) e Cons.prems(2)] ok(2) r] e
  show ?case
    by (simp add: bnd_Inr)
qed

lemma boot_ids: "ids_ok boot ids"
  by (simp add: ids_ok_def queue_ids_def boot_def)

lemma run_ids_total: "run evs s = Inr s' \<Longrightarrow> \<exists>ids'. run_ids evs s ids = Inr (s', ids')"
proof (induction evs arbitrary: s ids)
  case Nil
  then show ?case by simp
next
  case (Cons ev evs)
  from Cons.prems obtain s1 where
    e: "ndev_event ev s = Inr s1" and r: "run evs s1 = Inr s'"
    by (cases "ndev_event ev s") (simp_all add: bnd_def)
  from Cons.IH [OF r, of "event_ids s s1 ids"] e show ?case
    by (simp add: bnd_Inr)
qed

lemma run_append: "run (xs @ ys) s = bnd (run xs s) (run ys)"
  by (induction xs arbitrary: s) (simp_all add: bnd_def split: sum.splits)

lemma reachable_by_run: "reachable s \<Longrightarrow> \<exists>evs. list_all event_ok evs \<and> run evs boot = Inr s"
proof (induction rule: reachable.induct)
  case (reachable_init s)
  then have "list_all event_ok [] \<and> run [] boot = Inr s"
    by (simp add: ndev_init_def)
  then show ?case by blast
next
  case (reachable_step s ev s')
  then obtain evs where "list_all event_ok evs" "run evs boot = Inr s"
    by blast
  with reachable_step(2,3) have "list_all event_ok (evs @ [ev]) \<and> run (evs @ [ev]) boot = Inr s'"
    by (simp add: run_append bnd_Inr)
  then show ?case by blast
qed

lemma reachable_queue_ok:
  assumes "reachable s"
  shows "unat (nq_count (ndev_sendq (ndev_array s i))) = length (nq_req (ndev_sendq (ndev_array s i)))"
    and "unat (nq_count (ndev_recvq (ndev_array s i))) = length (nq_req (ndev_recvq (ndev_array s i)))"
    and "nq_count (ndev_sendq (ndev_array s i)) \<le> nq_max (ndev_sendq (ndev_array s i))"
    and "nq_count (ndev_recvq (ndev_array s i)) \<le> nq_max (ndev_recvq (ndev_array s i))"
  using ndev_inv_slot_ok [OF reachable_inv [OF assms], of i]
  by (simp_all add: slot_ok_def queue_ok_def)

text \<open>
  Claim C6. In every reachable state, the requests of each queue carry, in queue order,
  the ids \<open>head\<close>, \<open>head + 1\<close>, ..., \<open>head + count - 1\<close>. The id a request carries is the
  id in the request message that was sent for it: \<open>run_ids\<close> is the run of the module
  that reads these ids off the trace (first part), and every reachable state is the
  result of such a run (second part). A send, receive or configuration call that
  returns \<open>OK\<close> has sent exactly one request message, with the id \<open>head + count\<close>, and
  has appended the request object it took from the free list to the queue, leaving
  \<open>head\<close> as it is and incrementing \<open>count\<close> by one (third to fifth part). Releasing
  the head of a queue increments \<open>head\<close> by exactly one and decrements \<open>count\<close> by one
  (last part).
\<close>

theorem request_ids_consecutive:
  "(list_all event_ok evs \<and> run_ids evs boot ids0 = Inr (s, ids) \<longrightarrow>
      reachable s \<and>
      map ids (nq_req (ndev_sendq (ndev_array s slot))) =
        ids_from (nq_head (ndev_sendq (ndev_array s slot)))
          (unat (nq_count (ndev_sendq (ndev_array s slot)))) \<and>
      map ids (nq_req (ndev_recvq (ndev_array s slot))) =
        ids_from (nq_head (ndev_recvq (ndev_array s slot)))
          (unat (nq_count (ndev_recvq (ndev_array s slot))))) \<and>
   (reachable s \<longrightarrow>
      (\<exists>evs ids. list_all event_ok evs \<and> run_ids evs boot ids0 = Inr (s, ids))) \<and>
   (reachable s \<and> ndev_send nid pbufs grants r s = Inr (OK, s') \<longrightarrow>
      (\<exists>iov. trace s' = trace s @
         [Asynsend (ndev_endpt (ndev_array s nid)) True
            (Msg_transfer NDEV_SEND
               (nq_head (ndev_sendq (ndev_array s nid)) +
                ucast (nq_count (ndev_sendq (ndev_array s nid)))) iov)]) \<and>
      nq_req (ndev_sendq (ndev_array s' nid)) =
        nq_req (ndev_sendq (ndev_array s nid)) @ [hd (nreq_freelist (pool s))] \<and>
      nq_head (ndev_sendq (ndev_array s' nid)) = nq_head (ndev_sendq (ndev_array s nid)) \<and>
      unat (nq_count (ndev_sendq (ndev_array s' nid))) =
        unat (nq_count (ndev_sendq (ndev_array s nid))) + 1) \<and>
   (reachable s \<and> ndev_recv nid pbufs grants r s = Inr (OK, s') \<longrightarrow>
      (\<exists>iov. trace s' = trace s @
         [Asynsend (ndev_endpt (ndev_array s nid)) True
            (Msg_transfer NDEV_RECV
               (nq_head (ndev_recvq (ndev_array s nid)) +
                ucast (nq_count (ndev_recvq (ndev_array s nid)))) iov)]) \<and>
      nq_req (ndev_recvq (ndev_array s' nid)) =
        nq_req (ndev_recvq (ndev_array s nid)) @ [hd (nreq_freelist (pool s))] \<and>
      nq_head (ndev_recvq (ndev_array s' nid)) = nq_head (ndev_recvq (ndev_array s nid)) \<and>
      unat (nq_count (ndev_recvq (ndev_array s' nid))) =
        unat (nq_count (ndev_recvq (ndev_array s nid))) + 1) \<and>
   (reachable s \<and> ndev_conf nid nconf grants r s = Inr (OK, s') \<longrightarrow>
      (\<exists>cm. trace s' = trace s @
               [Asynsend (ndev_endpt (ndev_array s nid)) True (Msg_conf cm)] \<and>
            cm_id cm = nq_head (ndev_sendq (ndev_array s nid)) +
                       ucast (nq_count (ndev_sendq (ndev_array s nid)))) \<and>
      nq_req (ndev_sendq (ndev_array s' nid)) =
        nq_req (ndev_sendq (ndev_array s nid)) @ [hd (nreq_freelist (pool s))] \<and>
      nq_head (ndev_sendq (ndev_array s' nid)) = nq_head (ndev_sendq (ndev_array s nid)) \<and>
      unat (nq_count (ndev_sendq (ndev_array s' nid))) =
        unat (nq_count (ndev_sendq (ndev_array s nid))) + 1) \<and>
   (0 < nq_count q \<and> ndev_queue_advance q p = Inr (qr, p') \<longrightarrow>
      nq_req qr = tl (nq_req q) \<and> nq_head qr = nq_head q + 1 \<and>
      unat (nq_count qr) = unat (nq_count q) - 1)"
proof (intro conjI impI; (elim conjE)?)
  assume ok: "list_all event_ok evs" and run: "run_ids evs boot ids0 = Inr (s, ids)"
  note i = run_ids_inv [OF boot_inv boot_ids ok run]
  from i have r: "reachable s"
    using reachable_run [OF reachable_boot ok] by simp
  then show "reachable s" .
  from i have "queue_ids ids (ndev_sendq (ndev_array s slot))"
    "queue_ids ids (ndev_recvq (ndev_array s slot))"
    by (simp_all add: ids_ok_def)
  then show "map ids (nq_req (ndev_sendq (ndev_array s slot))) =
        ids_from (nq_head (ndev_sendq (ndev_array s slot)))
          (unat (nq_count (ndev_sendq (ndev_array s slot))))"
    "map ids (nq_req (ndev_recvq (ndev_array s slot))) =
        ids_from (nq_head (ndev_recvq (ndev_array s slot)))
          (unat (nq_count (ndev_recvq (ndev_array s slot))))"
    by (simp_all add: queue_ids_def reachable_queue_ok [OF r])
next
  assume "reachable s"
  from reachable_by_run [OF this] obtain evs where
    e: "list_all event_ok evs" "run evs boot = Inr s"
    by blast
  from run_ids_total [OF e(2), of ids0] e(1)
  show "\<exists>evs ids. list_all event_ok evs \<and> run_ids evs boot ids0 = Inr (s, ids)"
    by blast
next
  assume r: "reachable s" and run: "ndev_send nid pbufs grants r s = Inr (OK, s')"
  let ?q = "ndev_sendq (ndev_array s nid)"
  from ndev_send_ok [OF run] obtain n fl iov q' where
    a: "nreq_freelist (pool s) = n # fl"
       "trace s' = trace s @
             [Asynsend (ndev_endpt (ndev_array s nid)) True
                (Msg_transfer NDEV_SEND (nq_head ?q + ucast (nq_count ?q)) iov)]"
       "ndev_array s' = (ndev_array s)(nid := (ndev_array s nid)\<lparr>ndev_sendq := q'\<rparr>)"
       "nq_req q' = nq_req ?q @ [n]" "nq_head q' = nq_head ?q"
       "nq_count q' = nq_count ?q + 1" "nq_count ?q \<noteq> nq_max ?q"
    by blast
  from a(7) reachable_queue_ok(3) [OF r, of nid] have "nq_count ?q < nq_max ?q"
    by (simp add: order_less_le)
  from unat_u8_Suc [OF this] a
  show "\<exists>iov. trace s' = trace s @
         [Asynsend (ndev_endpt (ndev_array s nid)) True
            (Msg_transfer NDEV_SEND (nq_head ?q + ucast (nq_count ?q)) iov)]"
    "nq_req (ndev_sendq (ndev_array s' nid)) = nq_req ?q @ [hd (nreq_freelist (pool s))]"
    "nq_head (ndev_sendq (ndev_array s' nid)) = nq_head ?q"
    "unat (nq_count (ndev_sendq (ndev_array s' nid))) = unat (nq_count ?q) + 1"
    by simp_all
next
  assume r: "reachable s" and run: "ndev_recv nid pbufs grants r s = Inr (OK, s')"
  let ?q = "ndev_recvq (ndev_array s nid)"
  from ndev_recv_ok [OF run] obtain n fl iov q' where
    a: "nreq_freelist (pool s) = n # fl"
       "trace s' = trace s @
             [Asynsend (ndev_endpt (ndev_array s nid)) True
                (Msg_transfer NDEV_RECV (nq_head ?q + ucast (nq_count ?q)) iov)]"
       "ndev_array s' = (ndev_array s)(nid := (ndev_array s nid)\<lparr>ndev_recvq := q'\<rparr>)"
       "nq_req q' = nq_req ?q @ [n]" "nq_head q' = nq_head ?q"
       "nq_count q' = nq_count ?q + 1" "nq_count ?q \<noteq> nq_max ?q"
    by blast
  from a(7) reachable_queue_ok(4) [OF r, of nid] have "nq_count ?q < nq_max ?q"
    by (simp add: order_less_le)
  from unat_u8_Suc [OF this] a
  show "\<exists>iov. trace s' = trace s @
         [Asynsend (ndev_endpt (ndev_array s nid)) True
            (Msg_transfer NDEV_RECV (nq_head ?q + ucast (nq_count ?q)) iov)]"
    "nq_req (ndev_recvq (ndev_array s' nid)) = nq_req ?q @ [hd (nreq_freelist (pool s))]"
    "nq_head (ndev_recvq (ndev_array s' nid)) = nq_head ?q"
    "unat (nq_count (ndev_recvq (ndev_array s' nid))) = unat (nq_count ?q) + 1"
    by simp_all
next
  assume r: "reachable s" and run: "ndev_conf nid nconf grants r s = Inr (OK, s')"
  let ?q = "ndev_sendq (ndev_array s nid)"
  from ndev_conf_ok [OF run] obtain n fl cm q' where
    a: "nreq_freelist (pool s) = n # fl"
       "trace s' = trace s @ [Asynsend (ndev_endpt (ndev_array s nid)) True (Msg_conf cm)]"
       "cm_id cm = nq_head ?q + ucast (nq_count ?q)"
       "ndev_array s' = (ndev_array s)(nid := (ndev_array s nid)\<lparr>ndev_sendq := q'\<rparr>)"
       "nq_req q' = nq_req ?q @ [n]" "nq_head q' = nq_head ?q"
       "nq_count q' = nq_count ?q + 1" "nq_count ?q \<noteq> nq_max ?q"
    by blast
  from a(8) reachable_queue_ok(3) [OF r, of nid] have "nq_count ?q < nq_max ?q"
    by (simp add: order_less_le)
  from unat_u8_Suc [OF this] a
  show "\<exists>cm. trace s' = trace s @
               [Asynsend (ndev_endpt (ndev_array s nid)) True (Msg_conf cm)] \<and>
            cm_id cm = nq_head ?q + ucast (nq_count ?q)"
    "nq_req (ndev_sendq (ndev_array s' nid)) = nq_req ?q @ [hd (nreq_freelist (pool s))]"
    "nq_head (ndev_sendq (ndev_array s' nid)) = nq_head ?q"
    "unat (nq_count (ndev_sendq (ndev_array s' nid))) = unat (nq_count ?q) + 1"
    by simp_all
next
  assume pos: "0 < nq_count q" and adv: "ndev_queue_advance q p = Inr (qr, p')"
  from adv obtain n rest where "nq_req q = n # rest" "nq_req qr = rest"
    "nq_head qr = nq_head q + 1" "nq_count qr = nq_count q - 1"
    by (rule ndev_queue_advance_char)
  with unat_u8_pred [OF pos]
  show "nq_req qr = tl (nq_req q)" "nq_head qr = nq_head q + 1"
    "unat (nq_count qr) = unat (nq_count q) - 1"
    by simp_all
qed

lemma demo_ids_facts:
  "map_sum id (\<lambda>(s, ids). (nq_head (ndev_sendq (ndev_array s 0)),
                           nq_count (ndev_sendq (ndev_array s 0)),
                           map ids (nq_req (ndev_sendq (ndev_array s 0)))))
     (run_ids demo_burst boot (\<lambda>_. 0)) = Inr (2, 3, [2, 3, 4])"
  by (simp add: ndev_eval event_ids_def note_ids_def cong: bnd_weak_cong let_weak_cong)

lemma demo_send_facts:
  "map_sum id (\<lambda>(res, s). (res, nq_req (ndev_sendq (ndev_array s 0))))
     (bnd (run demo_cold_start boot) (ndev_send 0 demo_pbuf [11, 12] OK)) = Inr (OK, [0])"
  by (simp add: ndev_eval cong: bnd_weak_cong let_weak_cong)

theorem request_ids_consecutive_witness:
  "(\<exists>s ids. list_all event_ok demo_burst \<and>
            run_ids demo_burst boot (\<lambda>_. 0) = Inr (s, ids) \<and> reachable s \<and>
            nq_head (ndev_sendq (ndev_array s 0)) = 2 \<and>
            nq_count (ndev_sendq (ndev_array s 0)) = 3 \<and>
            map ids (nq_req (ndev_sendq (ndev_array s 0))) = [2, 3, 4] \<and>
            ids_from 2 3 = [2, 3, 4]) \<and>
   (\<exists>s' iov. reachable demo_active \<and>
             ndev_send 0 demo_pbuf [11, 12] OK demo_active = Inr (OK, s') \<and>
             trace s' = trace demo_active @
               [Asynsend 1001 True (Msg_transfer NDEV_SEND 2 iov)] \<and>
             nq_req (ndev_sendq (ndev_array s' 0)) = [hd (nreq_freelist (pool demo_active))] \<and>
             unat (nq_count (ndev_sendq (ndev_array s' 0))) = 1)"
proof
  from demo_ids_facts obtain s ids where
    run: "run_ids demo_burst boot (\<lambda>_. 0) = Inr (s, ids)"
    by (cases "run_ids demo_burst boot (\<lambda>_. 0)") auto
  with demo_ids_facts have f: "nq_head (ndev_sendq (ndev_array s 0)) = 2"
    "nq_count (ndev_sendq (ndev_array s 0)) = 3"
    "map ids (nq_req (ndev_sendq (ndev_array s 0))) = [2, 3, 4]"
    by simp_all
  from request_ids_consecutive [of demo_burst "\<lambda>_. 0" s ids 0] demo_burst_ok run
  have "reachable s \<and>
        map ids (nq_req (ndev_sendq (ndev_array s 0))) =
          ids_from (nq_head (ndev_sendq (ndev_array s 0)))
            (unat (nq_count (ndev_sendq (ndev_array s 0))))"
    by simp
  with f have "reachable s \<and> ids_from 2 3 = [2, 3, 4]"
    by simp
  with demo_burst_ok run f
  show "\<exists>s ids. list_all event_ok demo_burst \<and>
            run_ids demo_burst boot (\<lambda>_. 0) = Inr (s, ids) \<and> reachable s \<and>
            nq_head (ndev_sendq (ndev_array s 0)) = 2 \<and>
            nq_count (ndev_sendq (ndev_array s 0)) = 3 \<and>
            map ids (nq_req (ndev_sendq (ndev_array s 0))) = [2, 3, 4] \<and>
            ids_from 2 3 = [2, 3, 4]"
    by (intro exI [of _ s] exI [of _ ids]) simp
next
  have r: "reachable demo_active"
    using reachable_boot _ demo_active_run by (rule reachable_run) code_simp
  from demo_send_facts obtain s' where
    run: "ndev_send 0 demo_pbuf [11, 12] OK demo_active = Inr (OK, s')"
    by (cases "ndev_send 0 demo_pbuf [11, 12] OK demo_active")
       (auto simp: demo_active_run bnd_Inr)
  from request_ids_consecutive [where s = demo_active and nid = 0 and pbufs = demo_pbuf
      and grants = "[11, 12]" and r = OK and s' = s', THEN conjunct2, THEN conjunct2,
      THEN conjunct1] r run
  obtain iov where
    "trace s' = trace demo_active @
       [Asynsend (ndev_endpt (ndev_array demo_active 0)) True
          (Msg_transfer NDEV_SEND
             (nq_head (ndev_sendq (ndev_array demo_active 0)) +
              ucast (nq_count (ndev_sendq (ndev_array demo_active 0)))) iov)]"
    "nq_req (ndev_sendq (ndev_array s' 0)) =
       nq_req (ndev_sendq (ndev_array demo_active 0)) @ [hd (nreq_freelist (pool demo_active))]"
    "unat (nq_count (ndev_sendq (ndev_array s' 0))) =
       unat (nq_count (ndev_sendq (ndev_array demo_active 0))) + 1"
    by auto
  then have "trace s' = trace demo_active @ [Asynsend 1001 True (Msg_transfer NDEV_SEND 2 iov)] \<and>
             nq_req (ndev_sendq (ndev_array s' 0)) = [hd (nreq_freelist (pool demo_active))] \<and>
             unat (nq_count (ndev_sendq (ndev_array s' 0))) = 1"
    by (simp add: demo_active_slot demo_enomem_state)
  with r run
  show "\<exists>s' iov. reachable demo_active \<and>
             ndev_send 0 demo_pbuf [11, 12] OK demo_active = Inr (OK, s') \<and>
             trace s' = trace demo_active @
               [Asynsend 1001 True (Msg_transfer NDEV_SEND 2 iov)] \<and>
             nq_req (ndev_sendq (ndev_array s' 0)) = [hd (nreq_freelist (pool demo_active))] \<and>
             unat (nq_count (ndev_sendq (ndev_array s' 0))) = 1"
    by (intro exI [of _ s'] exI [of _ iov]) simp
qed

end
